(* ===== verification/Prelude.thy ===== *)
theory Prelude
  imports Main "HOL-Library.Word"
begin

text \<open>
  Shared vocabulary of the Limnx development: error codes of \<^verbatim>\<open>kernel/src/errno.h\<close>,
  machine integer types, C strings and fixed-size character buffers, first-match scans over
  tables, and the generic list and word lemmas the components use.
\<close>

unbundle bit_operations_syntax

named_theorems cbuf_simps \<open>C string and buffer rewriting\<close>
named_theorems scan_simps \<open>first-match scans over tables\<close>

section \<open>Machine integers\<close>

type_synonym u8 = "8 word"
type_synonym u16 = "16 word"
type_synonym u32 = "32 word"
type_synonym u64 = "64 word"

section \<open>Error codes\<close>

text \<open>
  A kernel function that returns a negative error code in C returns \<open>Inl e\<close> here. The literal
  \<open>-1\<close> that some functions return is the constructor \<open>EGENERIC\<close>; as a number it coincides
  with \<open>-EPERM\<close>.
\<close>

datatype errno =
    EPERM | ENOENT | ESRCH | EINTR | EIO | ENXIO | EBADF | EAGAIN | ENOMEM | EACCES | EFAULT
  | EBUSY | EEXIST | ENODEV | ENOTDIR | EISDIR | EINVAL | EMFILE | ENOSPC | ESPIPE | ENOEXEC
  | ECHILD | EPIPE | ENOTTY | ELOOP | ENAMETOOLONG | ENOSYS | ENOTEMPTY | EMSGSIZE | EADDRINUSE
  | ENOBUFS | ENOTCONN | ETIMEDOUT | ECONNREFUSED | EGENERIC

type_synonym 'a ret = "errno + 'a"

fun errno_code :: "errno \<Rightarrow> int" where
  "errno_code EPERM = 1"
| "errno_code ENOENT = 2"
| "errno_code ESRCH = 3"
| "errno_code EINTR = 4"
| "errno_code EIO = 5"
| "errno_code ENXIO = 6"
| "errno_code EBADF = 9"
| "errno_code EAGAIN = 11"
| "errno_code ENOMEM = 12"
| "errno_code EACCES = 13"
| "errno_code EFAULT = 14"
| "errno_code EBUSY = 16"
| "errno_code EEXIST = 17"
| "errno_code ENODEV = 19"
| "errno_code ENOTDIR = 20"
| "errno_code EISDIR = 21"
| "errno_code EINVAL = 22"
| "errno_code EMFILE = 24"
| "errno_code ENOSPC = 28"
| "errno_code ESPIPE = 29"
| "errno_code ENOEXEC = 8"
| "errno_code ECHILD = 10"
| "errno_code EPIPE = 32"
| "errno_code ENOTTY = 25"
| "errno_code ELOOP = 40"
| "errno_code ENAMETOOLONG = 36"
| "errno_code ENOSYS = 38"
| "errno_code ENOTEMPTY = 39"
| "errno_code EMSGSIZE = 90"
| "errno_code EADDRINUSE = 98"
| "errno_code ENOBUFS = 105"
| "errno_code ENOTCONN = 107"
| "errno_code ETIMEDOUT = 110"
| "errno_code ECONNREFUSED = 111"
| "errno_code EGENERIC = 1"

text \<open>The C return value of a function whose result is an \<open>int\<close>.\<close>

definition ret_int :: "int ret \<Rightarrow> int" where
  "ret_int r = (case r of Inl e \<Rightarrow> - errno_code e | Inr v \<Rightarrow> v)"

lemma errno_code_pos: "0 < errno_code e"
  by (cases e) simp_all

section \<open>C strings and buffers\<close>

text \<open>
  A \<^verbatim>\<open>const char *\<close> argument is the list of its characters; the terminating NUL is the end of
  the list or the first NUL in it, whichever comes first. A \<^verbatim>\<open>char buf[N]\<close> field is a list of
  length \<open>N\<close>, with whatever an earlier use left behind the terminator.
\<close>

abbreviation NUL :: char where
  "NUL \<equiv> CHR 0x00"

definition cstr :: "string \<Rightarrow> string" where
  "cstr s = takeWhile (\<lambda>c. c \<noteq> NUL) s"

fun str_eq :: "string \<Rightarrow> string \<Rightarrow> bool" where
  "str_eq [] [] = True"
| "str_eq [] (b # bs) = (b = NUL)"
| "str_eq (a # as) [] = (a = NUL)"
| "str_eq (a # as) (b # bs) =
     (if a \<noteq> NUL \<and> b \<noteq> NUL then (if a \<noteq> b then False else str_eq as bs) else a = b)"

text \<open>
  The bounded copy loop \<^verbatim>\<open>for (j = 0; j < lim && src[j]; j++) dst[j] = src[j]\<close>: the buffer
  and the final value of \<^verbatim>\<open>j\<close>.
\<close>

fun copy_loop :: "nat \<Rightarrow> nat \<Rightarrow> string \<Rightarrow> string \<Rightarrow> string \<times> nat" where
  "copy_loop lim j [] dst = (dst, j)"
| "copy_loop lim j (c # cs) dst =
     (if j < lim \<and> c \<noteq> NUL then copy_loop lim (Suc j) cs (dst[j := c]) else (dst, j))"

text \<open>The loop followed by the terminator \<^verbatim>\<open>dst[j] = 0\<close> (also \<^verbatim>\<open>str_copy\<close> of kutil.h).\<close>

definition str_copy :: "string \<Rightarrow> string \<Rightarrow> nat \<Rightarrow> string" where
  "str_copy dst src n =
     (if n = 0 then dst else case copy_loop (n - 1) 0 src dst of (d, j) \<Rightarrow> d[j := NUL])"

fun prefix_match :: "string \<Rightarrow> string \<Rightarrow> bool" where
  "prefix_match [] path = True"
| "prefix_match (p # ps) path =
     (if p = NUL then True
      else case path of [] \<Rightarrow> False | c # cs \<Rightarrow> if c \<noteq> p then False else prefix_match ps cs)"

lemma cstr_Nil [simp]: "cstr [] = []"
  by (simp add: cstr_def)

lemma cstr_Cons: "cstr (c # cs) = (if c = NUL then [] else c # cstr cs)"
  by (simp add: cstr_def)

lemma cstr_no_NUL: "NUL \<notin> set (cstr s)"
  by (auto simp: cstr_def dest: set_takeWhileD)

lemma cstr_idem [simp]: "cstr (cstr s) = cstr s"
  by (simp add: cstr_def)

lemma cstr_id: "NUL \<notin> set s \<Longrightarrow> cstr s = s"
  by (auto simp: cstr_def takeWhile_eq_all_conv)

lemma cstr_append_NUL: "NUL \<notin> set s \<Longrightarrow> cstr (s @ NUL # t) = s"
  by (induction s) (auto simp: cstr_Cons)

lemma str_eq_iff: "str_eq a b \<longleftrightarrow> cstr a = cstr b"
  by (induction a b rule: str_eq.induct) (auto simp: cstr_Cons)

lemma prefix_match_iff: "prefix_match p s \<longleftrightarrow> (\<exists>t. cstr s = cstr p @ t)"
proof (induction p s rule: prefix_match.induct)
  case (1 path)
  then show ?case by simp
next
  case (2 p ps path)
  then show ?case by (cases path) (auto simp: cstr_Cons)
qed

lemma copy_loop_length [simp]: "length (fst (copy_loop lim j src dst)) = length dst"
  by (induction lim j src dst rule: copy_loop.induct) auto

lemma copy_loop_eq:
  "lim \<le> length dst \<Longrightarrow> j \<le> lim \<Longrightarrow>
   copy_loop lim j src dst =
     (take j dst @ take (lim - j) (cstr src) @ drop (j + min (lim - j) (length (cstr src))) dst,
      j + min (lim - j) (length (cstr src)))"
proof (induction lim j src dst rule: copy_loop.induct)
  case (1 lim j dst)
  then show ?case by simp
next
  case (2 lim j c cs dst)
  show ?case
  proof (cases "j < lim \<and> c \<noteq> NUL")
    case True
    then have step: "copy_loop lim j (c # cs) dst = copy_loop lim (Suc j) cs (dst[j := c])"
      by simp
    have ih: "copy_loop lim (Suc j) cs (dst[j := c]) =
      (take (Suc j) (dst[j := c]) @ take (lim - Suc j) (cstr cs)
         @ drop (Suc j + min (lim - Suc j) (length (cstr cs))) (dst[j := c]),
       Suc j + min (lim - Suc j) (length (cstr cs)))"
      using 2 True by simp
    have tk: "take (Suc j) (dst[j := c]) = take j dst @ [c]"
      using True 2(2) by (simp add: take_Suc_conv_app_nth)
    have lj: "lim - j = Suc (lim - Suc j)" using True by (simp add: Suc_diff_Suc)
    show ?thesis
      unfolding step ih tk lj using True by (simp add: cstr_Cons)
  next
    case False
    then show ?thesis using 2(2,3) by (auto simp: cstr_Cons)
  qed
qed

lemma str_copy_length [simp]: "length (str_copy dst src n) = length dst"
proof -
  obtain d j where eq: "copy_loop (n - 1) 0 src dst = (d, j)" by fastforce
  then have "length d = length dst" by (metis copy_loop_length fst_conv)
  with eq show ?thesis by (simp add: str_copy_def)
qed

text \<open>What a bounded copy leaves in the buffer: the text, the terminator, and behind it the old bytes.\<close>

lemma str_copy_eq:
  assumes "0 < n" and "n \<le> length dst"
  shows "str_copy dst src n =
     take (n - 1) (cstr src) @ NUL # drop (Suc (min (n - 1) (length (cstr src)))) dst"
proof -
  let ?k = "min (n - 1) (length (cstr src))"
  have "copy_loop (n - 1) 0 src dst = (take (n - 1) (cstr src) @ drop ?k dst, ?k)"
    using copy_loop_eq [of "n - 1" dst 0 src] assms by simp
  moreover have "(take (n - 1) (cstr src) @ drop ?k dst)[?k := NUL]
      = take (n - 1) (cstr src) @ NUL # drop (Suc ?k) dst"
  proof -
    have "?k < length dst" using assms by linarith
    then have "drop ?k dst = dst ! ?k # drop (Suc ?k) dst"
      by (simp add: Cons_nth_drop_Suc)
    then show ?thesis by (auto simp: list_update_append min_def)
  qed
  ultimately show ?thesis using assms by (simp add: str_copy_def)
qed

lemma cstr_str_copy [cbuf_simps]:
  assumes "0 < n" and "n \<le> length dst"
  shows "cstr (str_copy dst src n) = take (n - 1) (cstr src)"
proof -
  have "NUL \<notin> set (take (n - 1) (cstr src))"
    using cstr_no_NUL set_take_subset by fastforce
  then show ?thesis by (simp add: str_copy_eq [OF assms] cstr_append_NUL)
qed

lemma str_copy_stale:
  assumes "0 < n" and "n \<le> length dst"
  shows "drop (Suc (length (cstr (str_copy dst src n)))) (str_copy dst src n)
     = drop (Suc (length (cstr (str_copy dst src n)))) dst"
proof -
  have "length (cstr (str_copy dst src n)) = min (n - 1) (length (cstr src))"
    by (simp add: cstr_str_copy [OF assms] min.commute)
  then show ?thesis by (simp add: str_copy_eq [OF assms] min.commute)
qed

section \<open>First-match scans\<close>

text \<open>
  The loop \<^verbatim>\<open>for (i = 0; i < N; i++) if (P(t[i])) return i\<close> over a table of length \<open>N\<close>.
\<close>

fun find_index :: "('a \<Rightarrow> bool) \<Rightarrow> 'a list \<Rightarrow> nat option" where
  "find_index P [] = None"
| "find_index P (x # xs) = (if P x then Some 0 else map_option Suc (find_index P xs))"

lemma find_index_None_iff [scan_simps]: "find_index P xs = None \<longleftrightarrow> (\<forall>x \<in> set xs. \<not> P x)"
  by (induction xs) auto

lemma find_index_SomeD:
  "find_index P xs = Some i \<Longrightarrow> i < length xs \<and> P (xs ! i) \<and> (\<forall>j < i. \<not> P (xs ! j))"
proof (induction xs arbitrary: i)
  case Nil
  then show ?case by simp
next
  case (Cons x xs)
  show ?case
  proof (cases "P x")
    case True
    then show ?thesis using Cons.prems by simp
  next
    case False
    then obtain k where k: "find_index P xs = Some k" "i = Suc k"
      using Cons.prems by auto
    show ?thesis
      using Cons.IH [OF k(1)] k(2) False by (auto simp: less_Suc_eq_0_disj)
  qed
qed

lemma find_index_lt: "find_index P xs = Some i \<Longrightarrow> i < length xs"
  by (simp add: find_index_SomeD)

lemma find_index_sat: "find_index P xs = Some i \<Longrightarrow> P (xs ! i)"
  by (simp add: find_index_SomeD)

lemma find_index_unique:
  assumes "i < length xs" and "P (xs ! i)"
    and "\<And>j. j < length xs \<Longrightarrow> P (xs ! j) \<Longrightarrow> j = i"
  shows "find_index P xs = Some i"
proof (cases "find_index P xs")
  case None
  then show ?thesis using assms(1,2) by (auto simp: find_index_None_iff)
next
  case (Some k)
  then have "k < length xs" "P (xs ! k)" by (simp_all add: find_index_SomeD)
  with assms(3) Some show ?thesis by simp
qed

lemma find_index_cong:
  "map P xs = map Q ys \<Longrightarrow> find_index P xs = find_index Q ys"
proof (induction xs arbitrary: ys)
  case Nil
  then show ?case by simp
next
  case (Cons x xs)
  then obtain y ys' where "ys = y # ys'" "P x = Q y" "map P xs = map Q ys'"
    by (cases ys) auto
  with Cons.IH show ?case by simp
qed

lemma find_index_map: "find_index P (map f xs) = find_index (\<lambda>x. P (f x)) xs"
  by (induction xs) auto

lemma find_index_first:
  assumes "i < length xs" and "P (xs ! i)" and "\<And>j. j < i \<Longrightarrow> \<not> P (xs ! j)"
  shows "find_index P xs = Some i"
proof (cases "find_index P xs")
  case None
  then show ?thesis using assms(1,2) by (auto simp: find_index_None_iff)
next
  case (Some k)
  then have "P (xs ! k)" "\<forall>j < k. \<not> P (xs ! j)" by (simp_all add: find_index_SomeD)
  then have "k = i" using assms(2,3) by (metis linorder_neqE_nat)
  with Some show ?thesis by simp
qed

section \<open>Lists updated at an index\<close>

lemma nth_list_update_if:
  "j < length xs \<Longrightarrow> xs[i := v] ! j = (if i = j then v else xs ! j)"
  by (auto simp: nth_list_update)

lemma list_all_update: "list_all P xs \<Longrightarrow> P v \<Longrightarrow> list_all P (xs[i := v])"
  using set_update_subset_insert [of xs i v] by (auto simp: list_all_iff)

lemma length_filter_update:
  "i < length xs \<Longrightarrow>
   length (filter P (xs[i := v])) + (if P (xs ! i) then 1 else 0)
     = length (filter P xs) + (if P v then 1 else 0)"
proof (induction xs arbitrary: i)
  case Nil
  then show ?case by simp
next
  case (Cons x xs)
  then show ?case by (cases i) (auto simp: algebra_simps)
qed

lemma length_filter_le_update:
  "i < length xs \<Longrightarrow> P (xs ! i) \<Longrightarrow> \<not> P v \<Longrightarrow>
   Suc (length (filter P (xs[i := v]))) = length (filter P xs)"
  using length_filter_update [of i xs P v] by simp

lemma length_filter_mono:
  "(\<And>x. x \<in> set xs \<Longrightarrow> P x \<Longrightarrow> Q x) \<Longrightarrow> length (filter P xs) \<le> length (filter Q xs)"
  by (induction xs) auto

lemma all_set_conv_nth: "(\<forall>x \<in> set xs. P x) \<longleftrightarrow> (\<forall>i < length xs. P (xs ! i))"
  by (metis in_set_conv_nth)

section \<open>Words\<close>

lemma word_less_inc_iff:
  fixes n :: "'a::len word"
  shows "n + 1 \<noteq> 0 \<Longrightarrow> x < n + 1 \<longleftrightarrow> x \<le> n"
  by (simp add: word_less_nat_alt word_le_nat_alt add.commute [of n] unatSuc less_Suc_eq_le)

lemma word_and_not_zero_iff:
  fixes a b :: "'a::len word"
  shows "a AND NOT b = 0 \<longleftrightarrow> a AND b = a"
  by (auto simp: bit_eq_iff bit_simps)

lemma word_and_sub_trans:
  fixes a b c :: "'a::len word"
  shows "a AND NOT b = 0 \<Longrightarrow> b AND NOT c = 0 \<Longrightarrow> a AND NOT c = 0"
  by (auto simp: bit_eq_iff bit_simps)

lemma word_and_mono_nonzero:
  fixes a b n :: "'a::len word"
  shows "a AND NOT b = 0 \<Longrightarrow> a AND n \<noteq> 0 \<Longrightarrow> b AND n \<noteq> 0"
  by (auto simp: bit_eq_iff bit_simps)

end
