(* ===== verification/Bitmap.thy ===== *)
theory Bitmap
  imports Prelude
begin

text \<open>Byte-array bitmaps, as the physical page allocator (src/kernel/src/mm/pmm.c) and the
swap area (src/kernel/src/mm/swap.c) keep them: bit p lives in byte p / 8 at position p mod 8.
The locale bit_table holds what both clients use of such a table; the counting lemmas proved in
it relate a cached counter to the number of clear bits.\<close>

unbundle bit_operations_syntax

section \<open>The three bit operations\<close>

type_synonym bitmap = "8 word list"

definition bitmap_set :: "bitmap \<Rightarrow> nat \<Rightarrow> bitmap" where
  "bitmap_set bm p = bm[p div 8 := (bm ! (p div 8)) OR push_bit (p mod 8) 1]"

definition bitmap_clear :: "bitmap \<Rightarrow> nat \<Rightarrow> bitmap" where
  "bitmap_clear bm p = bm[p div 8 := (bm ! (p div 8)) AND NOT (push_bit (p mod 8) 1)]"

definition bitmap_test :: "bitmap \<Rightarrow> nat \<Rightarrow> bool" where
  "bitmap_test bm p = (drop_bit (p mod 8) (bm ! (p div 8)) AND 1 \<noteq> 0)"

definition bitmap_bits :: "bitmap \<Rightarrow> nat" where
  "bitmap_bits bm = 8 * length bm"

section \<open>Clear bits below a bound\<close>

definition clear_below :: "(nat \<Rightarrow> bool) \<Rightarrow> nat \<Rightarrow> nat set" where
  "clear_below t n = {p. p < n \<and> \<not> t p}"

definition n_clear :: "(nat \<Rightarrow> bool) \<Rightarrow> nat \<Rightarrow> nat" where
  "n_clear t n = length (filter (\<lambda>p. \<not> t p) [0..<n])"

lemma finite_clear_below [simp]: "finite (clear_below t n)"
  by (simp add: clear_below_def)

lemma clear_below_iff [simp]: "p \<in> clear_below t n \<longleftrightarrow> p < n \<and> \<not> t p"
  by (simp add: clear_below_def)

lemma n_clear_card: "n_clear t n = card (clear_below t n)"
proof -
  have "distinct (filter (\<lambda>p. \<not> t p) [0..<n])" by simp
  then have "length (filter (\<lambda>p. \<not> t p) [0..<n]) = card (set (filter (\<lambda>p. \<not> t p) [0..<n]))"
    by (simp only: distinct_card)
  then show ?thesis
    by (simp add: n_clear_def clear_below_def)
qed

lemma n_clear_cong: "(\<And>p. p < n \<Longrightarrow> t p = t' p) \<Longrightarrow> n_clear t n = n_clear t' n"
  unfolding n_clear_def by (rule arg_cong [where f = length], rule filter_cong) auto

lemma n_clear_mark:
  assumes "p < n" "\<not> t p" "\<And>q. t' q \<longleftrightarrow> q = p \<or> t q"
  shows "n_clear t n = Suc (n_clear t' n)"
proof -
  have "clear_below t n = insert p (clear_below t' n)" "p \<notin> clear_below t' n"
    using assms by auto
  then show ?thesis by (simp add: n_clear_card)
qed

section \<open>The interface of a bit table\<close>

locale bit_table =
  fixes tst :: "'t \<Rightarrow> nat \<Rightarrow> bool"
    and mark :: "'t \<Rightarrow> nat \<Rightarrow> 't"
    and clr :: "'t \<Rightarrow> nat \<Rightarrow> 't"
    and cap :: "'t \<Rightarrow> nat"
  assumes tst_mark: "p < cap t \<Longrightarrow> tst (mark t p) q \<longleftrightarrow> q = p \<or> tst t q"
    and tst_clr: "p < cap t \<Longrightarrow> tst (clr t p) q \<longleftrightarrow> q \<noteq> p \<and> tst t q"
    and cap_mark: "cap (mark t p) = cap t"
    and cap_clr: "cap (clr t p) = cap t"
begin

lemma clear_count_mark:
  assumes "p < n" "p < cap t" "\<not> tst t p"
  shows "n_clear (tst t) n = Suc (n_clear (tst (mark t p)) n)"
  using assms by (intro n_clear_mark) (auto simp: tst_mark)

lemma clear_count_clr:
  assumes "p < n" "p < cap t" "tst t p"
  shows "n_clear (tst (clr t p)) n = Suc (n_clear (tst t) n)"
  using assms by (intro n_clear_mark) (auto simp: tst_clr)

lemma cap_mark_list [simp]: "cap (fold (\<lambda>p t. mark t p) ps t) = cap t"
  by (induction ps arbitrary: t) (simp_all add: cap_mark)

lemma tst_mark_list:
  "\<forall>p\<in>set ps. p < cap t \<Longrightarrow> tst (fold (\<lambda>p t. mark t p) ps t) q \<longleftrightarrow> q \<in> set ps \<or> tst t q"
  by (induction ps arbitrary: t) (auto simp: tst_mark cap_mark)

lemma clear_count_mark_list:
  assumes "distinct ps" "\<forall>p\<in>set ps. p < n \<and> p < cap t \<and> \<not> tst t p"
  shows "n_clear (tst t) n = n_clear (tst (fold (\<lambda>p t. mark t p) ps t)) n + length ps"
  using assms
proof (induction ps arbitrary: t)
  case (Cons p ps)
  have "n_clear (tst (mark t p)) n =
      n_clear (tst (fold (\<lambda>p t. mark t p) ps (mark t p))) n + length ps"
    using Cons.prems by (intro Cons.IH) (auto simp: tst_mark cap_mark)
  then show ?case
    using Cons.prems clear_count_mark [of p n t] by simp
qed simp

end

section \<open>Byte bitmaps are bit tables\<close>

lemma length_bitmap_set [simp]: "length (bitmap_set bm p) = length bm"
  by (simp add: bitmap_set_def)

lemma length_bitmap_clear [simp]: "length (bitmap_clear bm p) = length bm"
  by (simp add: bitmap_clear_def)

lemma bitmap_test_bit: "bitmap_test bm p = bit (bm ! (p div 8)) (p mod 8)"
  by (auto simp: bitmap_test_def bit_iff_odd_drop_bit and_one_eq odd_iff_mod_2_eq_one)

lemma and_push_bit_one: "((w :: 'a :: len word) AND push_bit n 1 \<noteq> 0) = bit w n"
  by (simp add: push_bit_of_1 and_exp_eq_0_iff_not_bit)

lemma bit_push_one: "m < 8 \<Longrightarrow> n < 8 \<Longrightarrow> bit (push_bit n (1 :: 8 word)) m \<longleftrightarrow> m = n"
  by (auto simp: bit_simps)

lemma same_byte_iff: "(p::nat) = q \<longleftrightarrow> p div 8 = q div 8 \<and> p mod 8 = q mod 8"
  by (metis div_mult_mod_eq)

lemma bitmap_test_set:
  "p < bitmap_bits bm \<Longrightarrow> bitmap_test (bitmap_set bm p) q \<longleftrightarrow> q = p \<or> bitmap_test bm q"
  using bit_push_one [of "q mod 8" "p mod 8"] same_byte_iff [of q p]
  by (auto simp: bitmap_test_bit bitmap_set_def bitmap_bits_def nth_list_update bit_or_iff)

lemma bitmap_test_clear:
  "p < bitmap_bits bm \<Longrightarrow> bitmap_test (bitmap_clear bm p) q \<longleftrightarrow> q \<noteq> p \<and> bitmap_test bm q"
  using bit_push_one [of "q mod 8" "p mod 8"] same_byte_iff [of q p]
  by (auto simp: bitmap_test_bit bitmap_clear_def bitmap_bits_def nth_list_update bit_and_iff
      bit_not_iff)

lemma bitmap_bits_set [simp]: "bitmap_bits (bitmap_set bm p) = bitmap_bits bm"
  by (simp add: bitmap_bits_def)

lemma bitmap_bits_clear [simp]: "bitmap_bits (bitmap_clear bm p) = bitmap_bits bm"
  by (simp add: bitmap_bits_def)

interpretation bmt: bit_table bitmap_test bitmap_set bitmap_clear bitmap_bits
  by unfold_locales (simp_all add: bitmap_test_set bitmap_test_clear)

end
