(* ===== verification/Pmm.thy ===== *)
theory Pmm
  imports Bitmap
begin

text \<open>The physical page allocator, src/kernel/src/mm/pmm.c: boot-time set-up from the memory map
(the x86_64 branch), single-page and contiguous allocation with the moving hint, freeing with
reference counts. Page numbers and table sizes are natural numbers, addresses are 64-bit words,
reference counts 16-bit words that wrap as the C type does, and the free-page counter a 64-bit
word. An access outside the bitmap or the count array is the value None.\<close>

section \<open>State\<close>

definition PAGE_SIZE :: nat where "PAGE_SIZE = 4096"

record pmm =
  pm_bitmap :: bitmap
  pm_total :: nat
  pm_free :: u64
  pm_refs :: "u16 list"
  pm_hint :: nat
  pm_bm_phys :: nat
  pm_rc_phys :: nat

definition page_addr :: "nat \<Rightarrow> u64" where
  "page_addr i = word_of_nat (i * PAGE_SIZE)"

definition addr_page :: "u64 \<Rightarrow> nat" where
  "addr_page a = unat a div PAGE_SIZE"

section \<open>Boot\<close>

datatype boot_error = MissingResponse | NoBitmapRegion | OutOfBounds

record memmap_entry =
  me_base :: u64
  me_length :: u64
  me_type :: nat

definition LIMINE_MEMMAP_USABLE :: nat where "LIMINE_MEMMAP_USABLE = 0"

definition highest_addr :: "memmap_entry list \<Rightarrow> u64" where
  "highest_addr es = fold (\<lambda>e h. let top = me_base e + me_length e in if h < top then top else h) es 0"

fun clear_pages :: "nat list \<Rightarrow> bitmap \<times> u64 \<Rightarrow> (bitmap \<times> u64) option" where
  "clear_pages [] b = Some b"
| "clear_pages (p # ps) (bm, f) =
     (if bitmap_bits bm \<le> p then None else clear_pages ps (bitmap_clear bm p, f + 1))"

fun mark_pages :: "nat list \<Rightarrow> bitmap \<times> u64 \<Rightarrow> (bitmap \<times> u64) option" where
  "mark_pages [] b = Some b"
| "mark_pages (p # ps) (bm, f) =
     (if bitmap_bits bm \<le> p then None
      else if \<not> bitmap_test bm p then mark_pages ps (bitmap_set bm p, f - 1)
      else mark_pages ps (bm, f))"

definition entry_pages :: "memmap_entry \<Rightarrow> nat list" where
  "entry_pages e = (let start_page = unat (me_base e) div PAGE_SIZE;
                        page_count = unat (me_length e) div PAGE_SIZE
                    in [start_page ..< start_page + page_count])"

fun free_regions :: "memmap_entry list \<Rightarrow> bitmap \<times> u64 \<Rightarrow> (bitmap \<times> u64) option" where
  "free_regions [] b = Some b"
| "free_regions (e # es) b =
     (if me_type e \<noteq> LIMINE_MEMMAP_USABLE then free_regions es b
      else case clear_pages (entry_pages e) b of None \<Rightarrow> None | Some b' \<Rightarrow> free_regions es b')"

definition init_refs :: "bitmap \<Rightarrow> nat \<Rightarrow> u16 list" where
  "init_refs bm n = map (\<lambda>i. if 1 \<le> i \<and> bitmap_test bm i then 1 else 0) [0..<n]"

definition pages_up :: "nat \<Rightarrow> nat" where
  "pages_up n = (n + PAGE_SIZE - 1) div PAGE_SIZE"

definition pmm_init :: "memmap_entry list option \<Rightarrow> boot_error + pmm" where
  "pmm_init resp = (case resp of None \<Rightarrow> Inl MissingResponse | Some es \<Rightarrow>
     let total = unat (highest_addr es) div PAGE_SIZE;
         size = (total + 7) div 8
     in case find (\<lambda>e. me_type e = LIMINE_MEMMAP_USABLE \<and> size \<le> unat (me_length e)) es of
       None \<Rightarrow> Inl NoBitmapRegion
     | Some r \<Rightarrow>
        (let bm_phys = unat (me_base r);
             rc_phys = bm_phys + pages_up size * PAGE_SIZE
         in case free_regions es (replicate size 0xFF, 0) of
           None \<Rightarrow> Inl OutOfBounds
         | Some b1 \<Rightarrow>
            (case mark_pages [0] b1 of None \<Rightarrow> Inl OutOfBounds | Some b2 \<Rightarrow>
            (case mark_pages [bm_phys div PAGE_SIZE ..< pages_up (bm_phys + size)] b2 of
               None \<Rightarrow> Inl OutOfBounds
             | Some b3 \<Rightarrow>
            (case mark_pages [rc_phys div PAGE_SIZE ..< pages_up (rc_phys + total * 2)] b3 of
               None \<Rightarrow> Inl OutOfBounds
             | Some (bm, f) \<Rightarrow>
                 Inr \<lparr>pm_bitmap = bm, pm_total = total, pm_free = f, pm_refs = init_refs bm total,
                      pm_hint = 1, pm_bm_phys = bm_phys, pm_rc_phys = rc_phys\<rparr>)))))"

section \<open>Allocation\<close>

definition take_page :: "pmm \<Rightarrow> nat \<Rightarrow> pmm" where
  "take_page m i = m\<lparr>pm_bitmap := bitmap_set (pm_bitmap m) i, pm_free := pm_free m - 1,
                     pm_refs := (pm_refs m)[i := 1]\<rparr>"

definition pmm_alloc_page :: "pmm \<Rightarrow> u64 \<times> pmm" where
  "pmm_alloc_page m =
     (case find (\<lambda>i. \<not> bitmap_test (pm_bitmap m) i) [pm_hint m ..< pm_total m] of
        Some i \<Rightarrow> (page_addr i, (take_page m i)\<lparr>pm_hint := i + 1\<rparr>)
      | None \<Rightarrow>
        (case find (\<lambda>i. \<not> bitmap_test (pm_bitmap m) i) [1 ..< pm_hint m] of
           Some i \<Rightarrow> (page_addr i, (take_page m i)\<lparr>pm_hint := i + 1\<rparr>)
         | None \<Rightarrow> (0, m)))"

fun find_run :: "bitmap \<Rightarrow> nat \<Rightarrow> nat list \<Rightarrow> nat \<Rightarrow> nat \<Rightarrow> nat option" where
  "find_run bm count [] run start = None"
| "find_run bm count (i # is) run start =
     (if \<not> bitmap_test bm i then
        (let start = (if run = 0 then i else start); run = run + 1
         in if run = count then Some start else find_run bm count is run start)
      else find_run bm count is 0 start)"

definition take_run :: "pmm \<Rightarrow> nat \<Rightarrow> nat \<Rightarrow> pmm" where
  "take_run m start count =
     (fold (\<lambda>j m. take_page m j) [start ..< start + count] m)\<lparr>pm_hint := start + count\<rparr>"

definition pmm_alloc_contiguous :: "pmm \<Rightarrow> nat \<Rightarrow> u64 \<times> pmm" where
  "pmm_alloc_contiguous m count =
     (if count = 0 then (0, m)
      else if count = 1 then pmm_alloc_page m
      else let begn = (if 0 < pm_hint m then pm_hint m else 1)
           in case find_run (pm_bitmap m) count [begn ..< pm_total m] 0 0 of
                Some s \<Rightarrow> (page_addr s, take_run m s count)
              | None \<Rightarrow>
                (if 1 < begn then
                   (case find_run (pm_bitmap m) count [1 ..< begn] 0 0 of
                      Some s \<Rightarrow> (page_addr s, take_run m s count)
                    | None \<Rightarrow> (0, m))
                 else (0, m)))"

section \<open>Freeing and reference counts\<close>

definition pmm_mark_used :: "pmm \<Rightarrow> nat \<Rightarrow> pmm" where
  "pmm_mark_used m p =
     (if p = 0 \<or> pm_total m \<le> p then m
      else if \<not> bitmap_test (pm_bitmap m) p then take_page m p else m)"

definition pmm_free_page :: "pmm \<Rightarrow> u64 \<Rightarrow> pmm option" where
  "pmm_free_page m a =
     (let page = addr_page a in
      if page = 0 then Some m
      else if bitmap_bits (pm_bitmap m) \<le> page then None
      else if \<not> bitmap_test (pm_bitmap m) page then Some m
      else if length (pm_refs m) \<le> page then None
      else if 1 < pm_refs m ! page then
        Some (m\<lparr>pm_refs := (pm_refs m)[page := pm_refs m ! page - 1]\<rparr>)
      else Some (m\<lparr>pm_refs := (pm_refs m)[page := 0],
                  pm_bitmap := bitmap_clear (pm_bitmap m) page, pm_free := pm_free m + 1\<rparr>))"

definition pmm_ref_inc :: "pmm \<Rightarrow> u64 \<Rightarrow> pmm" where
  "pmm_ref_inc m a =
     (let page = addr_page a in
      if 0 < page \<and> page < pm_total m
      then m\<lparr>pm_refs := (pm_refs m)[page := pm_refs m ! page + 1]\<rparr> else m)"

definition pmm_ref_dec :: "pmm \<Rightarrow> u64 \<Rightarrow> nat \<times> pmm" where
  "pmm_ref_dec m a =
     (let page = addr_page a in
      if page = 0 \<or> pm_total m \<le> page then (0, m)
      else let m' = (if 0 < pm_refs m ! page
                     then m\<lparr>pm_refs := (pm_refs m)[page := pm_refs m ! page - 1]\<rparr> else m)
           in (unat (pm_refs m' ! page), m'))"

definition pmm_ref_get :: "pmm \<Rightarrow> u64 \<Rightarrow> u16" where
  "pmm_ref_get m a =
     (let page = addr_page a in if pm_total m \<le> page then 0 else pm_refs m ! page)"

definition pmm_get_total_pages :: "pmm \<Rightarrow> nat" where
  "pmm_get_total_pages m = pm_total m"

definition pmm_get_free_pages :: "pmm \<Rightarrow> u64" where
  "pmm_get_free_pages m = pm_free m"

section \<open>Invariant\<close>

text \<open>Page 0 is never free, the tables cover every page, the bits past the last page stay set
and the counter is the number of clear bits.\<close>

definition pmm_used :: "pmm \<Rightarrow> nat \<Rightarrow> bool" where
  "pmm_used m p = bitmap_test (pm_bitmap m) p"

definition free_set :: "pmm \<Rightarrow> nat set" where
  "free_set m = clear_below (bitmap_test (pm_bitmap m)) (pm_total m)"

definition pmm_ok :: "pmm \<Rightarrow> bool" where
  "pmm_ok m \<longleftrightarrow>
     0 < pm_total m \<and> pm_total m \<le> bitmap_bits (pm_bitmap m) \<and> pm_total m < 2 ^ 52
     \<and> length (pm_refs m) = pm_total m
     \<and> bitmap_test (pm_bitmap m) 0
     \<and> (\<forall>p < bitmap_bits (pm_bitmap m). pm_total m \<le> p \<longrightarrow> bitmap_test (pm_bitmap m) p)
     \<and> pm_free m = word_of_nat (n_clear (bitmap_test (pm_bitmap m)) (pm_total m))
     \<and> 1 \<le> pm_hint m \<and> pm_hint m \<le> pm_total m"

section \<open>Operations as one step\<close>

datatype pmm_op =
    Alloc | AllocRun nat | Free u64 | RefInc u64 | RefDec u64 | MarkUsed nat

fun pmm_exec :: "pmm_op \<Rightarrow> pmm \<Rightarrow> pmm option" where
  "pmm_exec Alloc m = Some (snd (pmm_alloc_page m))"
| "pmm_exec (AllocRun n) m = Some (snd (pmm_alloc_contiguous m n))"
| "pmm_exec (Free a) m = pmm_free_page m a"
| "pmm_exec (RefInc a) m = Some (pmm_ref_inc m a)"
| "pmm_exec (RefDec a) m = Some (snd (pmm_ref_dec m a))"
| "pmm_exec (MarkUsed p) m = Some (pmm_mark_used m p)"

fun pmm_run :: "pmm_op list \<Rightarrow> pmm \<Rightarrow> pmm option" where
  "pmm_run [] m = Some m"
| "pmm_run (x # xs) m = (case pmm_exec x m of None \<Rightarrow> None | Some m' \<Rightarrow> pmm_run xs m')"

section \<open>Scans\<close>

lemma find_upt_SomeD: "find P [a..<b] = Some i \<Longrightarrow> a \<le> i \<and> i < b \<and> P i"
  by (auto simp: find_Some_iff)

lemma find_upt_None_iff: "find P [a..<b] = None \<longleftrightarrow> (\<forall>i. a \<le> i \<and> i < b \<longrightarrow> \<not> P i)"
  by (auto simp: find_None_iff)

definition run_free :: "bitmap \<Rightarrow> nat \<Rightarrow> nat \<Rightarrow> bool" where
  "run_free bm s n \<longleftrightarrow> (\<forall>j. s \<le> j \<and> j < s + n \<longrightarrow> \<not> bitmap_test bm j)"

lemma run_free_snoc: "run_free bm s n \<Longrightarrow> \<not> bitmap_test bm (s + n) \<Longrightarrow> run_free bm s (Suc n)"
  by (auto simp: run_free_def less_Suc_eq)

lemma find_run_sound:
  "find_run bm c [i..<e] run start = Some s \<Longrightarrow> run < c
    \<Longrightarrow> 0 < run \<Longrightarrow> start + run = i \<Longrightarrow> run_free bm start run
    \<Longrightarrow> i \<le> s + run \<and> s + c \<le> e \<and> run_free bm s c"
  "find_run bm c [i..<e] 0 start = Some s \<Longrightarrow> 0 < c
    \<Longrightarrow> i \<le> s \<and> s + c \<le> e \<and> run_free bm s c"
proof (induction "e - i" arbitrary: i run start)
  case 0
  { case 1 then show ?case using 0 by simp }
  { case 2 then show ?case using 0 by simp }
next
  case (Suc n)
  have e: "[i..<e] = i # [Suc i..<e]" and n: "n = e - Suc i"
    using Suc.hyps(3) by (simp_all add: upt_conv_Cons)
  { case 1
    show ?case
    proof (cases "bitmap_test bm i")
      case True
      then show ?thesis using 1 Suc.hyps(2) [OF n, of start] by (simp add: e)
    next
      case False
      have "run_free bm start (Suc run)"
        using 1 False run_free_snoc by blast
      then show ?thesis
        using 1 False Suc.hyps(1) [OF n, of "Suc run" start] Suc.hyps(3)
        by (auto simp: e split: if_splits)
    qed }
  { case 2
    show ?case
    proof (cases "bitmap_test bm i")
      case True
      then show ?thesis using 2 Suc.hyps(2) [OF n, of run] by (simp add: e)
    next
      case False
      have "run_free bm i (Suc 0)" using False by (auto simp: run_free_def less_Suc_eq)
      then show ?thesis
        using 2 False Suc.hyps(1) [OF n, of "Suc 0" i] Suc.hyps(3)
        by (auto simp: e split: if_splits)
    qed }
qed

lemma find_run_complete:
  assumes "find_run bm c [i..<e] run start = None" "run < c"
    and "i \<le> s + run" "s + c \<le> e" "run_free bm s c"
  shows False
  using assms
proof (induction "e - i" arbitrary: i run start)
  case 0
  then show ?case by simp
next
  case (Suc n)
  have e: "[i..<e] = i # [Suc i..<e]" and n: "n = e - Suc i"
    using Suc.hyps(2) by (simp_all add: upt_conv_Cons)
  show ?case
  proof (cases "bitmap_test bm i")
    case True
    then have "i < s"
      using Suc.prems(2,3,5) by (auto simp: run_free_def not_less)
    then show ?thesis
      using True Suc.prems Suc.hyps(1) [OF n, of 0 start] by (simp add: e)
  next
    case False
    then show ?thesis
      using Suc.prems Suc.hyps(1) [OF n, of "Suc run"]
      by (auto simp: e Let_def split: if_splits)
  qed
qed

section \<open>Taking pages\<close>

lemma take_page_simps [simp]:
  "pm_total (take_page m i) = pm_total m"
  "pm_hint (take_page m i) = pm_hint m"
  "pm_bitmap (take_page m i) = bitmap_set (pm_bitmap m) i"
  "pm_refs (take_page m i) = (pm_refs m)[i := 1]"
  "pm_free (take_page m i) = pm_free m - 1"
  by (simp_all add: take_page_def)

lemma take_pages_fields:
  "pm_total (fold (\<lambda>j m. take_page m j) ps m) = pm_total m"
  "pm_bitmap (fold (\<lambda>j m. take_page m j) ps m) = fold (\<lambda>p t. bitmap_set t p) ps (pm_bitmap m)"
  "pm_refs (fold (\<lambda>j m. take_page m j) ps m) = fold (\<lambda>p r. r[p := 1]) ps (pm_refs m)"
  "pm_free (fold (\<lambda>j m. take_page m j) ps m) = pm_free m - word_of_nat (length ps)"
  by (induction ps arbitrary: m) simp_all

lemma length_refs_fold [simp]: "length (fold (\<lambda>p r. r[p := v]) ps rs) = length rs"
  by (induction ps arbitrary: rs) simp_all

lemma nth_refs_fold:
  "q < length rs \<Longrightarrow> fold (\<lambda>p r. r[p := v]) ps rs ! q = (if q \<in> set ps then v else rs ! q)"
  by (induction ps arbitrary: rs) (auto simp: nth_list_update)

lemma page_addr_page [simp]: "p < 2 ^ 52 \<Longrightarrow> addr_page (page_addr p) = p"
  by (simp add: addr_page_def page_addr_def PAGE_SIZE_def unat_of_nat del: of_nat_mult)

lemma page_addr_nonzero: "0 < p \<Longrightarrow> p < 2 ^ 52 \<Longrightarrow> page_addr p \<noteq> 0"
  using page_addr_page [of p] by (force simp: addr_page_def PAGE_SIZE_def)

lemma pmm_ok_takes:
  assumes ok: "pmm_ok m" and ps: "distinct ps" "\<forall>p\<in>set ps. p \<in> free_set m"
    and h: "1 \<le> h" "h \<le> pm_total m"
  shows "pmm_ok ((fold (\<lambda>j m. take_page m j) ps m)\<lparr>pm_hint := h\<rparr>)"
proof -
  have in_range: "\<forall>p\<in>set ps. p < pm_total m \<and> p < bitmap_bits (pm_bitmap m)
      \<and> \<not> bitmap_test (pm_bitmap m) p"
    using ok ps(2) by (auto simp: pmm_ok_def free_set_def)
  then show ?thesis
    using ok h bmt.tst_mark_list [of ps "pm_bitmap m"]
      bmt.clear_count_mark_list [OF ps(1), of "pm_total m" "pm_bitmap m"]
    by (simp add: pmm_ok_def take_pages_fields)
qed

lemma pmm_ok_take:
  assumes "pmm_ok m" "i \<in> free_set m" "1 \<le> h" "h \<le> pm_total m"
  shows "pmm_ok ((take_page m i)\<lparr>pm_hint := h\<rparr>)"
  using pmm_ok_takes [of m "[i]" h] assms by simp

lemma free_set_takes:
  assumes "pmm_ok m" "\<forall>p\<in>set ps. p \<in> free_set m"
  shows "free_set ((fold (\<lambda>j m. take_page m j) ps m)\<lparr>pm_hint := h\<rparr>) = free_set m - set ps"
proof -
  have "\<forall>p\<in>set ps. p < bitmap_bits (pm_bitmap m)"
    using assms by (auto simp: pmm_ok_def free_set_def)
  then show ?thesis
    using bmt.tst_mark_list [of ps "pm_bitmap m"]
    by (auto simp: free_set_def take_pages_fields)
qed

lemma free_set_pos: "pmm_ok m \<Longrightarrow> p \<in> free_set m \<Longrightarrow> 0 < p \<and> p < pm_total m \<and> p < 2 ^ 52"
  by (cases "p = 0") (auto simp: pmm_ok_def free_set_def)

section \<open>What each operation does\<close>

lemma alloc_page_cases:
  assumes ok: "pmm_ok m"
  obtains (none) "free_set m = {}" "pmm_alloc_page m = (0, m)"
  | (page) i where "i \<in> free_set m"
      "pmm_alloc_page m = (page_addr i, (take_page m i)\<lparr>pm_hint := i + 1\<rparr>)"
proof (cases "find (\<lambda>i. \<not> bitmap_test (pm_bitmap m) i) [pm_hint m ..< pm_total m]")
  case (Some i)
  then show ?thesis
    using find_upt_SomeD [OF Some] page [of i] by (simp add: pmm_alloc_page_def free_set_def)
next
  case hi: None
  show ?thesis
  proof (cases "find (\<lambda>i. \<not> bitmap_test (pm_bitmap m) i) [1 ..< pm_hint m]")
    case (Some i)
    then show ?thesis
      using find_upt_SomeD [OF Some] page [of i] hi ok
      by (simp add: pmm_alloc_page_def free_set_def pmm_ok_def)
  next
    case None
    have "q \<notin> free_set m" for q
      using hi None free_set_pos [OF ok, of q]
      by (cases "q < pm_hint m") (auto simp: find_upt_None_iff free_set_def)
    then show ?thesis
      using hi None none by (auto simp: pmm_alloc_page_def)
  qed
qed

lemma run_free_set: "pmm_ok m \<Longrightarrow> s + c \<le> pm_total m \<Longrightarrow> run_free (pm_bitmap m) s c
    \<Longrightarrow> \<forall>p\<in>set [s..<s + c]. p \<in> free_set m"
  by (auto simp: run_free_def free_set_def)

definition low_run :: "pmm \<Rightarrow> nat \<Rightarrow> bool" where
  "low_run m c \<longleftrightarrow> (\<exists>s. 1 \<le> s \<and> s + c \<le> pm_hint m \<and> run_free (pm_bitmap m) s c)"

definition high_run :: "pmm \<Rightarrow> nat \<Rightarrow> bool" where
  "high_run m c \<longleftrightarrow> (\<exists>s. pm_hint m \<le> s \<and> s + c \<le> pm_total m \<and> run_free (pm_bitmap m) s c)"

lemma alloc_run_cases:
  assumes ok: "pmm_ok m" and c: "1 < c"
  obtains (none) "\<not> low_run m c" "\<not> high_run m c" "pmm_alloc_contiguous m c = (0, m)"
  | (run) s where "low_run m c \<or> high_run m c" "1 \<le> s" "s + c \<le> pm_total m"
      "run_free (pm_bitmap m) s c" "pmm_alloc_contiguous m c = (page_addr s, take_run m s c)"
proof (cases "find_run (pm_bitmap m) c [pm_hint m ..< pm_total m] 0 0")
  case (Some s)
  then show ?thesis
    using find_run_sound(2) [OF Some] c ok run [of s]
    by (auto simp: pmm_alloc_contiguous_def pmm_ok_def high_run_def)
next
  case hi: None
  have nh: "\<not> high_run m c"
    using find_run_complete [OF hi] c by (auto simp: high_run_def)
  show ?thesis
  proof (cases "find_run (pm_bitmap m) c [1 ..< pm_hint m] 0 0")
    case (Some s)
    then have "1 < pm_hint m"
      by (cases "1 < pm_hint m") auto
    then show ?thesis
      using find_run_sound(2) [OF Some] c ok hi Some run [of s]
      by (auto simp: pmm_alloc_contiguous_def pmm_ok_def low_run_def)
  next
    case None
    have "\<not> low_run m c"
      using find_run_complete [OF None] c by (auto simp: low_run_def)
    then show ?thesis
      using nh hi None c ok none by (auto simp: pmm_alloc_contiguous_def pmm_ok_def Let_def)
  qed
qed

lemma alloc_page_ok:
  assumes ok: "pmm_ok m"
  shows "pmm_ok (snd (pmm_alloc_page m))"
  using ok
proof (cases rule: alloc_page_cases)
  case (page i)
  then show ?thesis
    using pmm_ok_take [OF ok page(1), of "i + 1"] free_set_pos [OF ok page(1)] by simp
qed (simp add: ok)

lemma alloc_page_spec:
  assumes ok: "pmm_ok m"
  obtains (none) "free_set m = {}" "pmm_alloc_page m = (0, m)"
  | (page) p m' where "pmm_alloc_page m = (page_addr p, m')" "page_addr p \<noteq> 0" "p \<in> free_set m"
      "pmm_ok m'" "pm_total m' = pm_total m" "free_set m' = free_set m - {p}"
      "pm_refs m' = (pm_refs m)[p := 1]"
  using ok
proof (cases rule: alloc_page_cases)
  case (page i)
  note b = free_set_pos [OF ok page(1)]
  have "page_addr i \<noteq> 0" using page_addr_nonzero b by blast
  moreover have "pmm_ok ((take_page m i)\<lparr>pm_hint := i + 1\<rparr>)"
    using pmm_ok_take [OF ok page(1), of "i + 1"] b by simp
  moreover have "free_set ((take_page m i)\<lparr>pm_hint := i + 1\<rparr>) = free_set m - {i}"
    using free_set_takes [OF ok, of "[i]" "i + 1"] page(1) by simp
  ultimately show ?thesis
    using page that(2) [of i "(take_page m i)\<lparr>pm_hint := i + 1\<rparr>"] by simp
qed (use that in blast)

lemma take_run_ok:
  assumes "pmm_ok m" "1 \<le> s" "s + c \<le> pm_total m" "run_free (pm_bitmap m) s c"
  shows "pmm_ok (take_run m s c)" "free_set (take_run m s c) = free_set m - {s..<s + c}"
  using pmm_ok_takes [OF assms(1) _ run_free_set [OF assms(1,3,4)], of "s + c"] assms
    free_set_takes [OF assms(1) run_free_set [OF assms(1,3,4)]]
  by (simp_all add: take_run_def)

lemma alloc_run_ok: "pmm_ok m \<Longrightarrow> pmm_ok (snd (pmm_alloc_contiguous m c))"
proof (cases "1 < c")
  case True
  assume ok: "pmm_ok m"
  from ok True show ?thesis
    by (rule alloc_run_cases) (simp_all add: ok take_run_ok)
next
  case False
  assume "pmm_ok m"
  then show ?thesis
    using False alloc_page_ok [of m] by (cases c) (auto simp: pmm_alloc_contiguous_def)
qed

lemma pmm_ok_refs: "pmm_ok m \<Longrightarrow> length rs = length (pm_refs m) \<Longrightarrow> pmm_ok (m\<lparr>pm_refs := rs\<rparr>)"
  by (simp add: pmm_ok_def)

lemma free_page_SomeD:
  assumes "pmm_free_page m a = Some m'" and p: "p = addr_page a"
  obtains (same) "m' = m"
  | (drop) "1 < pm_refs m ! p" "p < length (pm_refs m)"
      "m' = m\<lparr>pm_refs := (pm_refs m)[p := pm_refs m ! p - 1]\<rparr>"
  | (release) "0 < p" "p < bitmap_bits (pm_bitmap m)" "bitmap_test (pm_bitmap m) p"
      "p < length (pm_refs m)" "\<not> 1 < pm_refs m ! p"
      "m' = m\<lparr>pm_refs := (pm_refs m)[p := 0], pm_bitmap := bitmap_clear (pm_bitmap m) p,
              pm_free := pm_free m + 1\<rparr>"
proof (cases "p = 0 \<or> \<not> bitmap_test (pm_bitmap m) p")
  case True
  then have "m' = m"
    using assms(1) by (auto simp: pmm_free_page_def Let_def p [symmetric] split: if_splits)
  then show ?thesis by (rule same)
next
  case False
  then show ?thesis
    using assms(1) drop release
    by (cases "1 < pm_refs m ! p")
      (simp_all add: pmm_free_page_def Let_def p [symmetric] not_le split: if_splits)
qed

lemma free_page_ok:
  assumes ok: "pmm_ok m" and f: "pmm_free_page m a = Some m'"
  shows "pmm_ok m'"
  using f refl
proof (cases rule: free_page_SomeD)
  case release
  then show ?thesis
    using ok bmt.clear_count_clr [of "addr_page a" "pm_total m" "pm_bitmap m"]
      bitmap_test_clear [of "addr_page a" "pm_bitmap m"]
    by (simp add: pmm_ok_def)
qed (use ok in \<open>simp_all add: pmm_ok_refs\<close>)

lemma pmm_exec_ok:
  assumes ok: "pmm_ok m" and x: "pmm_exec x m = Some m'"
  shows "pmm_ok m'"
proof (cases x)
  case (MarkUsed p)
  have "pmm_ok ((take_page m p)\<lparr>pm_hint := pm_hint m\<rparr>)" if "p < pm_total m" "\<not> bitmap_test (pm_bitmap m) p"
    using that ok by (intro pmm_ok_take) (auto simp: free_set_def pmm_ok_def)
  moreover have "(take_page m p)\<lparr>pm_hint := pm_hint m\<rparr> = take_page m p"
    by (simp add: take_page_def)
  ultimately show ?thesis
    using MarkUsed ok x by (auto simp: pmm_mark_used_def split: if_splits)
qed (use assms in \<open>auto simp: alloc_page_ok alloc_run_ok pmm_ref_inc_def pmm_ref_dec_def
      pmm_ok_refs Let_def intro: free_page_ok\<close>)

lemma pmm_run_ok: "pmm_ok m \<Longrightarrow> pmm_run xs m = Some m' \<Longrightarrow> pmm_ok m'"
  by (induction xs arbitrary: m) (auto intro: pmm_exec_ok split: option.splits)

section \<open>Boot establishes the invariant\<close>

definition usable :: "memmap_entry \<Rightarrow> bool" where
  "usable e \<longleftrightarrow> me_type e = LIMINE_MEMMAP_USABLE"

definition usable_pages :: "memmap_entry list \<Rightarrow> nat list" where
  "usable_pages es = concat (map entry_pages (filter usable es))"

text \<open>What the boot protocol promises of its memory map: no entry wraps around the address
space, usable entries are page-aligned and do not overlap.\<close>

definition memmap_ok :: "memmap_entry list \<Rightarrow> bool" where
  "memmap_ok es \<longleftrightarrow> distinct (usable_pages es)
     \<and> (\<forall>e\<in>set es. unat (me_base e) + unat (me_length e) < 2 ^ 64)
     \<and> (\<forall>e\<in>set es. usable e \<longrightarrow>
          PAGE_SIZE dvd unat (me_base e) \<and> PAGE_SIZE dvd unat (me_length e))"

definition bm_ok :: "nat \<Rightarrow> bitmap \<times> u64 \<Rightarrow> bool" where
  "bm_ok n b \<longleftrightarrow> snd b = word_of_nat (n_clear (bitmap_test (fst b)) n)
     \<and> (\<forall>p < bitmap_bits (fst b). n \<le> p \<longrightarrow> bitmap_test (fst b) p)"

lemma clear_pages_append:
  "clear_pages (ps @ qs) b = (case clear_pages ps b of None \<Rightarrow> None | Some b' \<Rightarrow> clear_pages qs b')"
  by (induction ps b rule: clear_pages.induct) simp_all

lemma free_regions_clear: "free_regions es b = clear_pages (usable_pages es) b"
  by (induction es b rule: free_regions.induct)
    (simp_all add: usable_pages_def usable_def clear_pages_append split: option.splits)

lemma clear_pages_ok:
  assumes "distinct ps" "\<forall>p\<in>set ps. p < n \<and> p < bitmap_bits bm \<and> bitmap_test bm p" "bm_ok n (bm, f)"
  shows "\<exists>bm' f'. clear_pages ps (bm, f) = Some (bm', f') \<and> bitmap_bits bm' = bitmap_bits bm
     \<and> bm_ok n (bm', f') \<and> (\<forall>q. bitmap_test bm' q \<longleftrightarrow> q \<notin> set ps \<and> bitmap_test bm q)"
  using assms
proof (induction ps arbitrary: bm f)
  case (Cons p ps)
  have p: "p < n" "p < bitmap_bits bm" "bitmap_test bm p" using Cons.prems(2) by simp_all
  have "bm_ok n (bitmap_clear bm p, f + 1)"
    using Cons.prems(3) p bmt.clear_count_clr [OF p] bitmap_test_clear [OF p(2)]
    by (simp add: bm_ok_def)
  moreover have "\<forall>q\<in>set ps. q < n \<and> q < bitmap_bits (bitmap_clear bm p)
      \<and> bitmap_test (bitmap_clear bm p) q"
    using Cons.prems(1,2) bitmap_test_clear [OF p(2)] by auto
  ultimately show ?case
    using Cons.IH [of "bitmap_clear bm p" "f + 1"] Cons.prems(1) p bitmap_test_clear [OF p(2)]
    by (auto simp: not_le)
qed (simp add: bm_ok_def)

lemma mark_pages_ok:
  assumes "\<forall>p\<in>set ps. p < n" "n \<le> bitmap_bits bm" "bm_ok n (bm, f)"
  shows "\<exists>bm' f'. mark_pages ps (bm, f) = Some (bm', f') \<and> bitmap_bits bm' = bitmap_bits bm
     \<and> bm_ok n (bm', f') \<and> (\<forall>q. bitmap_test bm' q \<longleftrightarrow> q \<in> set ps \<or> bitmap_test bm q)"
  using assms
proof (induction ps arbitrary: bm f)
  case (Cons p ps)
  have p: "p < n" "p < bitmap_bits bm" using Cons.prems(1,2) by auto
  show ?case
  proof (cases "bitmap_test bm p")
    case True
    then show ?thesis using Cons.IH [of bm f] Cons.prems p by (auto simp: not_le)
  next
    case False
    have "bm_ok n (bitmap_set bm p, f - 1)"
      using Cons.prems(3) bmt.clear_count_mark [OF p False] bitmap_test_set [OF p(2)]
      by (simp add: bm_ok_def)
    then show ?thesis
      using Cons.IH [of "bitmap_set bm p" "f - 1"] Cons.prems p False bitmap_test_set [OF p(2)]
      by (auto simp: not_le)
  qed
qed (simp add: bm_ok_def)

lemma mark_pages_append:
  "mark_pages (ps @ qs) b = (case mark_pages ps b of None \<Rightarrow> None | Some b' \<Rightarrow> mark_pages qs b')"
  by (induction ps b rule: mark_pages.induct) simp_all

lemma fold_max_ge:
  fixes f :: "'a \<Rightarrow> 64 word"
  shows "h \<le> fold (\<lambda>e h. if h < f e then f e else h) es h
    \<and> (\<forall>e\<in>set es. f e \<le> fold (\<lambda>e h. if h < f e then f e else h) es h)"
proof (induction es arbitrary: h)
  case (Cons a es)
  show ?case
    using Cons.IH [of "if h < f a then f a else h"] by (auto split: if_splits)
qed simp

lemma highest_ge:
  assumes "e \<in> set es" "unat (me_base e) + unat (me_length e) < 2 ^ 64"
  shows "unat (me_base e) + unat (me_length e) \<le> unat (highest_addr es)"
proof -
  have "me_base e + me_length e \<le> highest_addr es"
    using fold_max_ge [of 0 "\<lambda>e. me_base e + me_length e" es] assms(1)
    by (simp add: highest_addr_def Let_def)
  moreover have "unat (me_base e + me_length e) = unat (me_base e) + unat (me_length e)"
    using assms(2) by (simp add: unat_word_ariths)
  ultimately show ?thesis by (simp add: word_le_nat_alt)
qed

lemma usable_pages_below:
  assumes "memmap_ok es" "p \<in> set (usable_pages es)"
  shows "p < unat (highest_addr es) div PAGE_SIZE"
proof -
  obtain e where e: "e \<in> set es" "p \<in> set (entry_pages e)"
    using assms(2) by (auto simp: usable_pages_def)
  then have "p < (unat (me_base e) + unat (me_length e)) div PAGE_SIZE"
    using div_add1_eq [of "unat (me_base e)" "unat (me_length e)" PAGE_SIZE]
    by (auto simp: entry_pages_def Let_def)
  moreover have "unat (me_base e) + unat (me_length e) \<le> unat (highest_addr es)"
    using highest_ge [OF e(1)] assms(1) e(1) by (simp add: memmap_ok_def)
  ultimately show ?thesis
    by (meson div_le_mono less_le_trans)
qed

lemma pages_up_le: "n \<le> k * PAGE_SIZE \<Longrightarrow> pages_up n \<le> k"
  by (simp add: pages_up_def PAGE_SIZE_def)

lemma pages_up_ge: "n \<le> pages_up n * PAGE_SIZE"
  by (simp add: pages_up_def PAGE_SIZE_def)

lemma word_8_full: "(0xFF :: 8 word) = - 1"
  by simp

lemma bitmap_test_full: "p < 8 * k \<Longrightarrow> bitmap_test (replicate k 0xFF) p"
proof -
  assume "p < 8 * k"
  moreover have "bit (- 1 :: 8 word) (p mod 8)" by simp
  then have "bit (0xFF :: 8 word) (p mod 8)" by (simp only: word_8_full)
  ultimately show ?thesis by (simp add: bitmap_test_bit)
qed

lemma bm_ok_full:
  assumes "n \<le> 8 * k"
  shows "bm_ok n (replicate k 0xFF, 0)"
proof -
  have "clear_below (bitmap_test (replicate k 0xFF)) n = {}"
    using assms bitmap_test_full by auto
  then show ?thesis
    using bitmap_test_full by (simp add: bm_ok_def bitmap_bits_def n_clear_card)
qed

definition table_pages :: "memmap_entry list \<Rightarrow> memmap_entry \<Rightarrow> nat set" where
  "table_pages es r =
     (let total = unat (highest_addr es) div PAGE_SIZE; size = (total + 7) div 8;
          bm_phys = unat (me_base r); rc_phys = bm_phys + pages_up size * PAGE_SIZE
      in {bm_phys div PAGE_SIZE ..< pages_up (bm_phys + size)}
         \<union> {rc_phys div PAGE_SIZE ..< pages_up (rc_phys + total * 2)})"

definition bitmap_region :: "memmap_entry list \<Rightarrow> memmap_entry option" where
  "bitmap_region es =
     (let size = (unat (highest_addr es) div PAGE_SIZE + 7) div 8
      in find (\<lambda>e. me_type e = LIMINE_MEMMAP_USABLE \<and> size \<le> unat (me_length e)) es)"

definition tables_fit :: "memmap_entry list \<Rightarrow> memmap_entry \<Rightarrow> bool" where
  "tables_fit es r =
     (let total = unat (highest_addr es) div PAGE_SIZE; size = (total + 7) div 8
      in 0 < total \<and> pages_up size * PAGE_SIZE + total * 2 \<le> unat (me_length r))"

lemma bitmap_region_SomeD:
  assumes mm: "memmap_ok es" and r: "bitmap_region es = Some r"
  obtains k where "unat (me_base r) + unat (me_length r) = k * PAGE_SIZE"
    "k \<le> unat (highest_addr es) div PAGE_SIZE"
proof -
  have re: "r \<in> set es" "usable r"
    using r by (auto simp: bitmap_region_def Let_def find_Some_iff usable_def)
  then obtain k where k: "unat (me_base r) + unat (me_length r) = k * PAGE_SIZE"
    using mm dvd_add [of PAGE_SIZE "unat (me_base r)" "unat (me_length r)"]
    by (auto simp: memmap_ok_def dvd_def mult.commute)
  have "unat (me_base r) + unat (me_length r) \<le> unat (highest_addr es)"
    using highest_ge [OF re(1)] mm re(1) by (simp add: memmap_ok_def)
  then have "k \<le> unat (highest_addr es) div PAGE_SIZE"
    by (simp add: k PAGE_SIZE_def less_eq_div_iff_mult_less_eq)
  with k show ?thesis by (rule that)
qed

lemma pmm_init_eq:
  assumes r: "bitmap_region es = Some r"
    and tot: "tot = unat (highest_addr es) div PAGE_SIZE" and sz: "sz = (tot + 7) div 8"
    and bmp: "bmp = unat (me_base r)" and rcp: "rcp = bmp + pages_up sz * PAGE_SIZE"
  shows "pmm_init (Some es) =
    (case free_regions es (replicate sz 0xFF, 0) of None \<Rightarrow> Inl OutOfBounds | Some b \<Rightarrow>
     (case mark_pages ([0] @ [bmp div PAGE_SIZE ..< pages_up (bmp + sz)]
             @ [rcp div PAGE_SIZE ..< pages_up (rcp + tot * 2)]) b of
        None \<Rightarrow> Inl OutOfBounds
      | Some (bm, f) \<Rightarrow>
          Inr \<lparr>pm_bitmap = bm, pm_total = tot, pm_free = f, pm_refs = init_refs bm tot,
               pm_hint = 1, pm_bm_phys = bmp, pm_rc_phys = rcp\<rparr>))"
  using r unfolding rcp bmp sz tot mark_pages_append
  by (simp add: pmm_init_def bitmap_region_def Let_def del: mark_pages.simps split: option.split)

lemma pmm_init_result:
  assumes mm: "memmap_ok es" and r: "bitmap_region es = Some r" and fit: "tables_fit es r"
  shows "\<exists>m. pmm_init (Some es) = Inr m \<and> pmm_ok m
           \<and> free_set m = set (usable_pages es) - {0} - table_pages es r"
proof -
  define total where "total = unat (highest_addr es) div PAGE_SIZE"
  define size where "size = (total + 7) div 8"
  define bmp where "bmp = unat (me_base r)"
  define rcp where "rcp = bmp + pages_up size * PAGE_SIZE"
  obtain k where k: "bmp + unat (me_length r) = k * PAGE_SIZE" "k \<le> total"
    using bitmap_region_SomeD [OF mm r] by (auto simp: bmp_def total_def)
  have pos: "0 < total" and room: "pages_up size * PAGE_SIZE + total * 2 \<le> unat (me_length r)"
    using fit by (simp_all add: tables_fit_def total_def size_def Let_def)
  have up1: "pages_up (rcp + total * 2) \<le> total"
    using pages_up_le [of "rcp + total * 2" k] k room by (simp add: rcp_def)
  have up2: "pages_up (bmp + size) \<le> total"
    using pages_up_le [of "bmp + size" k] k room pages_up_ge [of size] by simp
  define tabs where "tabs = [0] @ [bmp div PAGE_SIZE ..< pages_up (bmp + size)]
      @ [rcp div PAGE_SIZE ..< pages_up (rcp + total * 2)]"
  have tabs: "\<forall>p\<in>set tabs. p < total"
    using pos up1 up2 by (auto simp: tabs_def)
  have cover: "total \<le> 8 * size" by (simp add: size_def)
  have up: "\<forall>p\<in>set (usable_pages es). p < total \<and> p < bitmap_bits (replicate size 0xFF)
      \<and> bitmap_test (replicate size 0xFF) p"
  proof
    fix p assume "p \<in> set (usable_pages es)"
    then have "p < total" using usable_pages_below [OF mm] by (simp add: total_def)
    then show "p < total \<and> p < bitmap_bits (replicate size 0xFF)
        \<and> bitmap_test (replicate size 0xFF) p"
      using cover bitmap_test_full [of p size] by (simp add: bitmap_bits_def)
  qed
  have "distinct (usable_pages es)" using mm by (simp add: memmap_ok_def)
  from clear_pages_ok [OF this up bm_ok_full [OF cover]] obtain bm1 f1 where
    b1: "free_regions es (replicate size 0xFF, 0) = Some (bm1, f1)" "bitmap_bits bm1 = 8 * size"
      "bm_ok total (bm1, f1)" "\<And>q. bitmap_test bm1 q \<longleftrightarrow>
          q \<notin> set (usable_pages es) \<and> bitmap_test (replicate size 0xFF) q"
    by (auto simp: free_regions_clear bitmap_bits_def)
  obtain bm f where b2: "mark_pages tabs (bm1, f1) = Some (bm, f)" "bitmap_bits bm = 8 * size"
      "bm_ok total (bm, f)" "\<And>q. bitmap_test bm q \<longleftrightarrow> q \<in> set tabs \<or> bitmap_test bm1 q"
    using mark_pages_ok [OF tabs, of bm1 f1] b1(2,3) cover by auto
  define m where "m = \<lparr>pm_bitmap = bm, pm_total = total, pm_free = f, pm_refs = init_refs bm total,
      pm_hint = 1, pm_bm_phys = bmp, pm_rc_phys = rcp\<rparr>"
  have "pmm_init (Some es) = Inr m"
    using pmm_init_eq [OF r total_def size_def bmp_def rcp_def] b1(1) b2(1)
    by (simp add: m_def tabs_def del: mark_pages.simps)
  moreover have "pmm_ok m"
    using b2 pos cover unsigned_less [where ?'a = nat, of "highest_addr es"]
    by (simp add: pmm_ok_def m_def bm_ok_def init_refs_def total_def PAGE_SIZE_def tabs_def)
  moreover have "bitmap_test (replicate size 0xFF) q" if "q < total" for q
    using that cover bitmap_test_full by simp
  then have "free_set m = set (usable_pages es) - {0} - table_pages es r"
    using up b1(4) b2(4)
    by (auto simp: tabs_def free_set_def m_def table_pages_def Let_def total_def [symmetric]
        size_def [symmetric] bmp_def [symmetric] rcp_def [symmetric])
  ultimately show ?thesis by blast
qed

section \<open>A page belongs to its holder until it is freed\<close>

definition frees_page :: "nat \<Rightarrow> pmm_op \<Rightarrow> bool" where
  "frees_page p x \<longleftrightarrow> (\<exists>a. x = Free a \<and> addr_page a = p)"

lemma pmm_exec_keeps_used:
  assumes ok: "pmm_ok m" and used: "bitmap_test (pm_bitmap m) p" and x: "pmm_exec x m = Some m'"
    and nf: "\<not> frees_page p x"
  shows "bitmap_test (pm_bitmap m') p"
proof -
  have take: "bitmap_test (bitmap_set (pm_bitmap m) i) p" if "i < pm_total m" for i
    using that ok used bitmap_test_set [of i "pm_bitmap m" p] by (simp add: pmm_ok_def)
  have page: "bitmap_test (pm_bitmap (snd (pmm_alloc_page m))) p"
    using ok by (cases rule: alloc_page_cases) (use used take in \<open>auto simp: free_set_def\<close>)
  show ?thesis
  proof (cases x)
    case (AllocRun c)
    show ?thesis
    proof (cases "1 < c")
      case True
      have "p \<notin> free_set m" using used by (simp add: free_set_def)
      with ok True show ?thesis
      proof (cases rule: alloc_run_cases)
        case (run s)
        have "\<forall>q\<in>set [s..<s + c]. q < bitmap_bits (pm_bitmap m)"
          using run ok by (auto simp: pmm_ok_def)
        then show ?thesis
          using used x run AllocRun bmt.tst_mark_list [of "[s..<s + c]" "pm_bitmap m" p]
          by (auto simp: take_run_def take_pages_fields)
      qed (use x used AllocRun in auto)
    next
      case False
      then show ?thesis
        using x used page AllocRun by (cases c) (auto simp: pmm_alloc_contiguous_def)
    qed
  next
    case (Free a)
    then have "pmm_free_page m a = Some m'" "addr_page a \<noteq> p"
      using x nf by (auto simp: frees_page_def)
    then show ?thesis
      using used by (auto simp: bitmap_test_clear elim: free_page_SomeD [OF _ refl])
  qed (use x used page take in \<open>auto simp: pmm_ref_inc_def pmm_ref_dec_def pmm_mark_used_def Let_def
      split: if_splits\<close>)
qed

lemma pmm_run_keeps_used:
  "pmm_ok m \<Longrightarrow> bitmap_test (pm_bitmap m) p \<Longrightarrow> pmm_run xs m = Some m'
    \<Longrightarrow> \<not> (\<exists>x\<in>set xs. frees_page p x) \<Longrightarrow> bitmap_test (pm_bitmap m') p"
proof (induction xs arbitrary: m)
  case (Cons x xs)
  then obtain m1 where m1: "pmm_exec x m = Some m1" "pmm_run xs m1 = Some m'"
    by (auto split: option.splits)
  show ?case
    using Cons.IH [OF pmm_exec_ok [OF Cons.prems(1) m1(1)] pmm_exec_keeps_used [OF Cons.prems(1,2) m1(1)] m1(2)]
      Cons.prems(4) by auto
qed simp

section \<open>Reference counts\<close>

fun free_times :: "nat \<Rightarrow> u64 \<Rightarrow> pmm \<Rightarrow> pmm option" where
  "free_times 0 a m = Some m"
| "free_times (Suc n) a m = (case free_times n a m of None \<Rightarrow> None | Some m' \<Rightarrow> pmm_free_page m' a)"

lemma ref_inc_times:
  assumes "pmm_ok m" "0 < addr_page a" "addr_page a < pm_total m" "pm_refs m ! addr_page a = 1"
  shows "((\<lambda>m. pmm_ref_inc m a) ^^ k) m =
           m\<lparr>pm_refs := (pm_refs m)[addr_page a := word_of_nat (Suc k)]\<rparr>"
proof (induction k)
  case 0
  have "(pm_refs m)[addr_page a := 1] = pm_refs m" using assms(4) by (metis list_update_id)
  then show ?case by simp
next
  case (Suc k)
  then show ?case
    using assms by (simp add: pmm_ref_inc_def Let_def pmm_ok_def add.commute)
qed

lemma free_times_count:
  assumes "pmm_ok m" "0 < p" "p < pm_total m" "p = addr_page a" "bitmap_test (pm_bitmap m) p"
    and r: "pm_refs m ! p = word_of_nat r" "0 < r" "r < 2 ^ 16" "n \<le> r"
  shows "\<exists>m'. free_times n a m = Some m' \<and> pmm_ok m' \<and> pm_total m' = pm_total m
      \<and> (bitmap_test (pm_bitmap m') p \<longleftrightarrow> n < r) \<and> (n < r \<longrightarrow> pm_refs m' ! p = word_of_nat (r - n))"
  using r(4)
proof (induction n)
  case 0
  then show ?case using assms by simp
next
  case (Suc n)
  then obtain m' where m': "free_times n a m = Some m'" "pmm_ok m'" "pm_total m' = pm_total m"
      "bitmap_test (pm_bitmap m') p" "pm_refs m' ! p = word_of_nat (r - n)"
    by auto
  have len: "p < length (pm_refs m')" "p < bitmap_bits (pm_bitmap m')"
    using m' assms(3) by (auto simp: pmm_ok_def)
  have gt: "1 < pm_refs m' ! p \<longleftrightarrow> 1 < r - n"
    using m'(5) r(3) by (simp add: word_less_nat_alt unat_of_nat)
  have dec: "word_of_nat (r - n) - 1 = (word_of_nat (r - Suc n) :: u16)"
    using Suc.prems by (simp add: of_nat_diff)
  show ?case
  proof (cases "1 < r - n")
    case True
    then have "pmm_free_page m' a = Some (m'\<lparr>pm_refs := (pm_refs m')[p := pm_refs m' ! p - 1]\<rparr>)"
      using gt len m'(4) assms(2,4) by (simp add: pmm_free_page_def Let_def)
    then show ?thesis
      using True m' len dec by (simp add: pmm_ok_refs)
  next
    case False
    then obtain m2 where m2: "pmm_free_page m' a = Some m2" "\<not> bitmap_test (pm_bitmap m2) p"
        "pm_total m2 = pm_total m'"
      using gt len m'(4) assms(2,4) bitmap_test_clear [of p "pm_bitmap m'" p]
      by (simp add: pmm_free_page_def Let_def)
    then show ?thesis
      using False Suc.prems m' free_page_ok [OF m'(2) m2(1)] by auto
  qed
qed

section \<open>Examples\<close>

definition demo_map :: "memmap_entry list" where
  "demo_map = [\<lparr>me_base = 0x1000, me_length = 0x10000, me_type = 0\<rparr>,
               \<lparr>me_base = 0x11000, me_length = 0x1000, me_type = 1\<rparr>]"

definition demo_pmm :: pmm where
  "demo_pmm = \<lparr>pm_bitmap = [0x03, 0], pm_total = 16, pm_free = 14,
               pm_refs = [0, 1] @ replicate 14 0, pm_hint = 2, pm_bm_phys = 0, pm_rc_phys = 0\<rparr>"

lemma demo_map_facts:
  "memmap_ok demo_map" "bitmap_region demo_map = Some (hd demo_map)" "tables_fit demo_map (hd demo_map)"
  by (simp_all add: memmap_ok_def bitmap_region_def tables_fit_def demo_map_def usable_pages_def
      usable_def entry_pages_def highest_addr_def pages_up_def PAGE_SIZE_def
      LIMINE_MEMMAP_USABLE_def)

lemma demo_pmm_facts: "pmm_ok demo_pmm" "bitmap_test (pm_bitmap demo_pmm) 1"
  by (simp_all add: pmm_ok_def demo_pmm_def bitmap_bits_def n_clear_def bitmap_test_def
      upt_conv_Cons)

text \<open>Pass 2 of pmm_init asks only for room for the bitmap; the reference counts, sixteen times as
large, follow it. When the first region that takes the bitmap is small, the counts are written
over whatever the memory map has after it, here a reserved region.\<close>

definition tight_map :: "memmap_entry list" where
  "tight_map = [\<lparr>me_base = 0x1000, me_length = 0x1000, me_type = 0\<rparr>,
                \<lparr>me_base = 0x2000, me_length = 0x1000, me_type = 1\<rparr>,
                \<lparr>me_base = 0x3000, me_length = 0x1000, me_type = 0\<rparr>]"

lemma init_counts_overwrite_reserved:
  "memmap_ok tight_map \<and> bitmap_region tight_map = Some (hd tight_map)
   \<and> (case pmm_init (Some tight_map) of Inl _ \<Rightarrow> False
      | Inr m \<Rightarrow> pm_rc_phys m = 0x2000 \<and> me_base (tight_map ! 1) = 0x2000
                 \<and> me_type (tight_map ! 1) \<noteq> LIMINE_MEMMAP_USABLE)"
  by (simp add: memmap_ok_def bitmap_region_def pmm_init_def tight_map_def usable_pages_def
      usable_def entry_pages_def highest_addr_def pages_up_def PAGE_SIZE_def
      LIMINE_MEMMAP_USABLE_def bitmap_bits_def bitmap_set_def bitmap_clear_def bitmap_test_def
      upt_conv_Cons)

section \<open>Properties\<close>



text \<open>C5: A page in use is never handed out again: after any sequence of allocator calls none of
which frees the page, the page is still in use, a single-page allocation does not return it and a
contiguous allocation does not contain it.\<close>

theorem page_exclusive:
  assumes ok: "pmm_ok m" and p: "p < pm_total m" "bitmap_test (pm_bitmap m) p"
    and run: "pmm_run xs m = Some m'" and nf: "\<not> (\<exists>x\<in>set xs. frees_page p x)"
  shows "bitmap_test (pm_bitmap m') p
    \<and> (fst (pmm_alloc_page m') \<noteq> 0 \<longrightarrow> addr_page (fst (pmm_alloc_page m')) \<noteq> p)
    \<and> (\<forall>c. fst (pmm_alloc_contiguous m' c) \<noteq> 0 \<longrightarrow>
          (let s = addr_page (fst (pmm_alloc_contiguous m' c)) in p \<notin> {s..<s + c}))"
proof -
  note ok' = pmm_run_ok [OF ok run] and used = pmm_run_keeps_used [OF ok p(2) run nf]
  have page: "fst (pmm_alloc_page m') \<noteq> 0 \<longrightarrow> addr_page (fst (pmm_alloc_page m')) \<noteq> p"
    using ok'
  proof (cases rule: alloc_page_cases)
    case (page i)
    then show ?thesis using free_set_pos [OF ok' page(1)] used by (auto simp: free_set_def)
  qed simp
  moreover have "p \<notin> {s..<s + c}"
    if nz: "fst (pmm_alloc_contiguous m' c) \<noteq> 0" and s: "s = addr_page (fst (pmm_alloc_contiguous m' c))"
    for c s
  proof (cases "1 < c")
    case True
    with ok' show ?thesis
    proof (cases rule: alloc_run_cases)
      case (run t)
      then have "s = t" using s True ok' by (simp add: pmm_ok_def)
      then show ?thesis using run used by (auto simp: run_free_def)
    qed (use nz in simp)
  next
    case False
    then show ?thesis using nz s page by (cases c) (auto simp: pmm_alloc_contiguous_def)
  qed
  ultimately show ?thesis using used by (simp add: Let_def)
qed

theorem page_exclusive_witness:
  "\<exists>m'. pmm_run [Alloc, AllocRun 3, Free (page_addr 2)] demo_pmm = Some m' \<and> bitmap_test (pm_bitmap m') 1"
proof -
  have nf: "\<not> (\<exists>x\<in>set [Alloc, AllocRun 3, Free (page_addr 2)]. frees_page 1 x)"
    by (simp add: frees_page_def)
  have "pmm_run [Alloc, AllocRun 3, Free (page_addr 2)] demo_pmm \<noteq> None"
    by (simp add: demo_pmm_def pmm_alloc_page_def pmm_alloc_contiguous_def pmm_free_page_def
        take_page_def take_run_def addr_page_def page_addr_def PAGE_SIZE_def bitmap_test_def
        bitmap_set_def bitmap_bits_def upt_conv_Cons)
  then obtain m' where r: "pmm_run [Alloc, AllocRun 3, Free (page_addr 2)] demo_pmm = Some m'" by blast
  have "bitmap_test (pm_bitmap m') 1"
    using page_exclusive [OF demo_pmm_facts(1) _ demo_pmm_facts(2) r nf] by (simp add: demo_pmm_def)
  with r show ?thesis by blast
qed

text \<open>C31: Contiguous allocation of more than one page succeeds exactly when a free run of that length
lies wholly at or above the allocation hint or wholly below it (a run that straddles the hint is
not found). On success the pages of the run, and no others, leave the free set, each with
reference count 1; on failure nothing changes.\<close>

theorem alloc_contiguous_exact:
  assumes ok: "pmm_ok m" and c: "1 < c"
  shows "case pmm_alloc_contiguous m c of (a, m') \<Rightarrow>
      (a \<noteq> 0 \<longleftrightarrow> low_run m c \<or> high_run m c)
      \<and> (a = 0 \<longrightarrow> m' = m)
      \<and> (a \<noteq> 0 \<longrightarrow> (let s = addr_page a in
            {s..<s + c} \<subseteq> free_set m \<and> free_set m' = free_set m - {s..<s + c}
            \<and> (\<forall>q < pm_total m. pm_refs m' ! q = (if q \<in> {s..<s + c} then 1 else pm_refs m ! q))))"
  using ok c
proof (cases rule: alloc_run_cases)
  case (run s)
  have "s < 2 ^ 52" "0 < s" using run c ok by (auto simp: pmm_ok_def)
  then have s: "addr_page (page_addr s) = s" "page_addr s \<noteq> 0"
    using page_addr_nonzero by simp_all
  have "pm_refs (take_run m s c) ! q = (if q \<in> {s..<s + c} then 1 else pm_refs m ! q)"
    if "q < pm_total m" for q
    using that ok nth_refs_fold [of q "pm_refs m" 1 "[s..<s + c]"]
    by (simp add: take_run_def take_pages_fields pmm_ok_def)
  moreover have "{s..<s + c} \<subseteq> free_set m"
    using run_free_set [OF ok run(3,4)] by auto
  ultimately show ?thesis
    using run s take_run_ok [OF ok run(2,3,4)] by (simp add: Let_def)
qed simp

theorem alloc_contiguous_exact_witness:
  "high_run demo_pmm 3 \<and> fst (pmm_alloc_contiguous demo_pmm 3) \<noteq> 0"
proof -
  have "run_free (pm_bitmap demo_pmm) 2 3"
    unfolding run_free_def
  proof safe
    fix j :: nat assume "2 \<le> j" "j < 2 + 3"
    then have "j = 2 \<or> j = 3 \<or> j = 4" by auto
    moreover assume "bitmap_test (pm_bitmap demo_pmm) j"
    ultimately show False by (auto simp: demo_pmm_def bitmap_test_def)
  qed
  then have "high_run demo_pmm 3"
    by (auto simp: high_run_def demo_pmm_def intro!: exI [of _ 2])
  then show ?thesis
    using alloc_contiguous_exact [OF demo_pmm_facts(1), of 3] by (auto split: prod.splits)
qed

text \<open>C32: A page allocated once and shared by k further references survives exactly k of the
k + 1 frees as long as k is below 65535; with 65535 further references the 16-bit count has
wrapped to 0 and the first free releases the page under the other 65535 holders.\<close>

theorem refcount_lifetime:
  assumes ok: "pmm_ok m" and p: "0 < addr_page a" "addr_page a < pm_total m"
    and used: "bitmap_test (pm_bitmap m) (addr_page a)" "pm_refs m ! addr_page a = 1"
  shows "(\<forall>k n. k < 65535 \<and> n \<le> Suc k \<longrightarrow>
           (\<exists>m'. free_times n a (((\<lambda>m. pmm_ref_inc m a) ^^ k) m) = Some m'
              \<and> (bitmap_test (pm_bitmap m') (addr_page a) \<longleftrightarrow> n \<le> k)))
       \<and> (\<exists>m'. pmm_free_page (((\<lambda>m. pmm_ref_inc m a) ^^ 65535) m) a = Some m'
              \<and> \<not> bitmap_test (pm_bitmap m') (addr_page a))"
proof -
  let ?m = "\<lambda>k. ((\<lambda>m. pmm_ref_inc m a) ^^ k) m"
  have eq: "?m k = m\<lparr>pm_refs := (pm_refs m)[addr_page a := word_of_nat (Suc k)]\<rparr>" for k
    using ref_inc_times [OF ok p used(2)] .
  have len: "addr_page a < length (pm_refs m)" "addr_page a < bitmap_bits (pm_bitmap m)"
    using ok p by (auto simp: pmm_ok_def)
  have "\<exists>m'. free_times n a (?m k) = Some m' \<and> (bitmap_test (pm_bitmap m') (addr_page a) \<longleftrightarrow> n \<le> k)"
    if "k < 65535" "n \<le> Suc k" for k n
    using free_times_count [of "?m k" "addr_page a" a "Suc k" n] that ok p used len
    by (auto simp: eq pmm_ok_refs less_Suc_eq_le)
  moreover have "(word_of_nat (Suc 65535) :: u16) = 0"
    by (simp del: of_nat_Suc add: word_of_nat_eq_0_iff)
  then have e: "?m 65535 = m\<lparr>pm_refs := (pm_refs m)[addr_page a := 0]\<rparr>"
    by (simp only: eq)
  then have "\<exists>m'. pmm_free_page (?m 65535) a = Some m' \<and> \<not> bitmap_test (pm_bitmap m') (addr_page a)"
    using len p used(1) bitmap_test_clear [OF len(2), of "addr_page a"]
    by (simp add: e pmm_free_page_def Let_def)
  ultimately show ?thesis by blast
qed

theorem refcount_lifetime_witness:
  "\<exists>m'. pmm_free_page (((\<lambda>m. pmm_ref_inc m (page_addr 1)) ^^ 65535) demo_pmm) (page_addr 1) = Some m'
     \<and> \<not> bitmap_test (pm_bitmap m') 1"
proof -
  have a: "addr_page (page_addr 1) = 1" by simp
  have "1 < pm_total demo_pmm" "pm_refs demo_pmm ! 1 = 1" by (simp_all add: demo_pmm_def)
  from refcount_lifetime [OF demo_pmm_facts(1), of "page_addr 1", unfolded a,
      OF zero_less_one this(1) demo_pmm_facts(2) this(2)]
  show ?thesis by (rule conjunct2)
qed

end
