(* ===== verification/Swap_Slots.thy ===== *)
theory Swap_Slots
  imports Bitmap
begin

text \<open>The slot bitmap of the swap area (src/kernel/src/mm/swap.c) and the encoding of a swapped-out
page in a page-table entry, with the x86_64 entry bits of src/kernel/src/arch/x86_64/pte.h. Moving
pages between memory and the swap area is in the theory of the page fault handler.\<close>

section \<open>Page-table entry bits\<close>

definition PTE_PRESENT :: u64 where "PTE_PRESENT = push_bit 0 1"
definition PTE_TABLE :: u64 where "PTE_TABLE = 0"
definition PTE_WRITABLE :: u64 where "PTE_WRITABLE = push_bit 1 1"
definition PTE_USER :: u64 where "PTE_USER = push_bit 2 1"
definition PTE_ACCESSED :: u64 where "PTE_ACCESSED = push_bit 5 1"
definition PTE_HUGE :: u64 where "PTE_HUGE = push_bit 7 1"
definition PTE_NX :: u64 where "PTE_NX = push_bit 63 1"
definition PTE_COW :: u64 where "PTE_COW = push_bit 9 1"
definition PTE_SWAP :: u64 where "PTE_SWAP = push_bit 10 1"
definition PTE_WAS_WRITABLE :: u64 where "PTE_WAS_WRITABLE = push_bit 11 1"
definition PTE_ADDR_MASK :: u64 where "PTE_ADDR_MASK = 0x000FFFFFFFFFF000"

definition PTE_MAKE_WRITABLE :: "u64 \<Rightarrow> u64" where "PTE_MAKE_WRITABLE f = f OR PTE_WRITABLE"

lemmas pte_bits = PTE_PRESENT_def PTE_TABLE_def PTE_WRITABLE_def PTE_USER_def PTE_ACCESSED_def
  PTE_HUGE_def PTE_NX_def PTE_COW_def PTE_SWAP_def PTE_WAS_WRITABLE_def

definition has :: "u64 \<Rightarrow> u64 \<Rightarrow> bool" where
  "has e b \<longleftrightarrow> e AND b \<noteq> 0"

lemma has_bit: "has e (push_bit n 1) \<longleftrightarrow> bit e n"
  unfolding has_def by (rule and_push_bit_one)

lemma has_iffs:
  "has e PTE_PRESENT \<longleftrightarrow> bit e 0" "has e PTE_WRITABLE \<longleftrightarrow> bit e 1" "has e PTE_USER \<longleftrightarrow> bit e 2"
  "has e PTE_HUGE \<longleftrightarrow> bit e 7" "has e PTE_COW \<longleftrightarrow> bit e 9" "has e PTE_SWAP \<longleftrightarrow> bit e 10"
  "has e PTE_WAS_WRITABLE \<longleftrightarrow> bit e 11"
  by (simp_all only: pte_bits has_bit)

lemma bit_push_one_64: "k < 64 \<Longrightarrow> bit (push_bit k (1 :: u64)) n \<longleftrightarrow> n = k"
  unfolding bit_push_bit_iff by (auto simp: bit_1_iff)

lemma bit_pte:
  "bit PTE_PRESENT n \<longleftrightarrow> n = 0" "bit PTE_WRITABLE n \<longleftrightarrow> n = 1" "bit PTE_USER n \<longleftrightarrow> n = 2"
  "bit PTE_ACCESSED n \<longleftrightarrow> n = 5" "bit PTE_HUGE n \<longleftrightarrow> n = 7" "bit PTE_COW n \<longleftrightarrow> n = 9"
  "bit PTE_SWAP n \<longleftrightarrow> n = 10" "bit PTE_WAS_WRITABLE n \<longleftrightarrow> n = 11" "bit PTE_NX n \<longleftrightarrow> n = 63"
  "\<not> bit PTE_TABLE n"
  unfolding pte_bits by (simp_all only: bit_push_one_64) auto

section \<open>The slot bitmap\<close>

definition SWAP_NUM_PAGES :: nat where "SWAP_NUM_PAGES = 2048"
definition SWAP_SLOT_SHIFT :: nat where "SWAP_SLOT_SHIFT = 12"
definition SWAP_SLOT_MASK :: u64 where "SWAP_SLOT_MASK = 0x7FF"

record swap_area =
  sw_start :: u32
  sw_bitmap :: bitmap
  sw_used :: u32

definition swap_init :: "swap_area \<Rightarrow> swap_area" where
  "swap_init w = w\<lparr>sw_bitmap := replicate (SWAP_NUM_PAGES div 8) 0, sw_used := 0\<rparr>"

definition swap_init_at :: "swap_area \<Rightarrow> u32 \<Rightarrow> swap_area" where
  "swap_init_at w start_block = swap_init (w\<lparr>sw_start := start_block\<rparr>)"

definition slot_bit :: "bitmap \<Rightarrow> nat \<Rightarrow> bool" where
  "slot_bit bm i \<longleftrightarrow> (bm ! (i div 8)) AND push_bit (i mod 8) 1 \<noteq> 0"

definition slot_set :: "bitmap \<Rightarrow> nat \<Rightarrow> bitmap" where
  "slot_set bm i = bm[i div 8 := (bm ! (i div 8)) OR push_bit (i mod 8) 1]"

definition slot_clear :: "bitmap \<Rightarrow> nat \<Rightarrow> bitmap" where
  "slot_clear bm i = bm[i div 8 := (bm ! (i div 8)) AND NOT (push_bit (i mod 8) 1)]"

definition swap_alloc_slot :: "swap_area \<Rightarrow> nat ret \<times> swap_area" where
  "swap_alloc_slot w =
     (case find (\<lambda>i. \<not> slot_bit (sw_bitmap w) i) [0..<SWAP_NUM_PAGES] of
        Some i \<Rightarrow> (Inr i, w\<lparr>sw_bitmap := slot_set (sw_bitmap w) i, sw_used := sw_used w + 1\<rparr>)
      | None \<Rightarrow> (Inl EGENERIC, w))"

definition swap_free_slot :: "swap_area \<Rightarrow> int \<Rightarrow> swap_area" where
  "swap_free_slot w slot =
     (if slot < 0 \<or> int SWAP_NUM_PAGES \<le> slot then w
      else let i = nat slot in
        if slot_bit (sw_bitmap w) i
        then w\<lparr>sw_bitmap := slot_clear (sw_bitmap w) i,
               sw_used := (if 0 < sw_used w then sw_used w - 1 else sw_used w)\<rparr>
        else w)"

definition swap_stat :: "swap_area \<Rightarrow> nat \<times> u32" where
  "swap_stat w = (SWAP_NUM_PAGES, sw_used w)"

section \<open>Swap entries\<close>

definition swap_is_entry :: "u64 \<Rightarrow> bool" where
  "swap_is_entry pte \<longleftrightarrow> \<not> has pte PTE_PRESENT \<and> has pte PTE_SWAP"

definition swap_get_slot :: "u64 \<Rightarrow> nat" where
  "swap_get_slot pte = unat (drop_bit SWAP_SLOT_SHIFT pte AND SWAP_SLOT_MASK)"

definition swap_pte :: "nat \<Rightarrow> u64" where
  "swap_pte slot = PTE_SWAP OR push_bit SWAP_SLOT_SHIFT (word_of_nat slot)"

section \<open>The bitmap is a bit table\<close>

lemma slot_bit_test: "slot_bit bm i = bitmap_test bm i"
  unfolding slot_bit_def bitmap_test_bit by (rule and_push_bit_one)

lemma slot_set_eq: "slot_set bm i = bitmap_set bm i"
  by (simp add: slot_set_def bitmap_set_def)

lemma slot_clear_eq: "slot_clear bm i = bitmap_clear bm i"
  by (simp add: slot_clear_def bitmap_clear_def)

interpretation swt: bit_table slot_bit slot_set slot_clear bitmap_bits
  by unfold_locales
    (simp_all add: slot_bit_test slot_set_eq slot_clear_eq bitmap_test_set bitmap_test_clear)

definition swap_ok :: "swap_area \<Rightarrow> bool" where
  "swap_ok w \<longleftrightarrow> length (sw_bitmap w) = SWAP_NUM_PAGES div 8
     \<and> unat (sw_used w) + n_clear (slot_bit (sw_bitmap w)) SWAP_NUM_PAGES = SWAP_NUM_PAGES"

lemma swap_ok_bits: "swap_ok w \<Longrightarrow> bitmap_bits (sw_bitmap w) = SWAP_NUM_PAGES"
  by (simp add: swap_ok_def bitmap_bits_def SWAP_NUM_PAGES_def)

lemma n_clear_0_if: "(\<And>i. i < n \<Longrightarrow> \<not> t i) \<Longrightarrow> n_clear t n = n"
  by (simp add: n_clear_def)

lemma swap_ok_init: "swap_ok (swap_init w)"
proof -
  have "\<not> slot_bit (replicate (SWAP_NUM_PAGES div 8) 0) i" if "i < SWAP_NUM_PAGES" for i
    using that by (simp add: slot_bit_def SWAP_NUM_PAGES_def)
  then show ?thesis
    by (simp add: swap_ok_def swap_init_def n_clear_0_if)
qed

lemma swap_alloc_InrD:
  assumes ok: "swap_ok w" and a: "swap_alloc_slot w = (Inr i, w')"
  shows "swap_ok w' \<and> i < SWAP_NUM_PAGES \<and> \<not> slot_bit (sw_bitmap w) i
    \<and> (\<forall>j. slot_bit (sw_bitmap w') j \<longleftrightarrow> j = i \<or> slot_bit (sw_bitmap w) j)"
proof -
  have i: "i < SWAP_NUM_PAGES" "\<not> slot_bit (sw_bitmap w) i"
      and w': "w' = w\<lparr>sw_bitmap := slot_set (sw_bitmap w) i, sw_used := sw_used w + 1\<rparr>"
    using a by (auto simp: swap_alloc_slot_def find_Some_iff split: option.splits)
  have c: "n_clear (slot_bit (sw_bitmap w)) SWAP_NUM_PAGES =
      Suc (n_clear (slot_bit (slot_set (sw_bitmap w) i)) SWAP_NUM_PAGES)"
    using i ok by (intro swt.clear_count_mark) (simp_all add: swap_ok_bits)
  have "unat (sw_used w + 1) = Suc (unat (sw_used w))"
    using ok c by (simp add: swap_ok_def SWAP_NUM_PAGES_def unat_word_ariths)
  then show ?thesis
    using i w' ok c swt.tst_mark [of i "sw_bitmap w"] swap_ok_bits [OF ok]
    by (simp add: swap_ok_def slot_set_def)
qed

lemma swap_free_spec:
  assumes ok: "swap_ok w"
  shows "swap_ok (swap_free_slot w (int i))
    \<and> (\<forall>j. slot_bit (sw_bitmap (swap_free_slot w (int i))) j \<longleftrightarrow>
            slot_bit (sw_bitmap w) j \<and> (j \<noteq> i \<or> SWAP_NUM_PAGES \<le> i))"
proof (cases "i < SWAP_NUM_PAGES \<and> slot_bit (sw_bitmap w) i")
  case True
  then have i: "i < SWAP_NUM_PAGES" "i < bitmap_bits (sw_bitmap w)" "slot_bit (sw_bitmap w) i"
    using swap_ok_bits [OF ok] by simp_all
  note c = swt.clear_count_clr [OF i]
  have "n_clear (slot_bit (slot_clear (sw_bitmap w) i)) SWAP_NUM_PAGES \<le> SWAP_NUM_PAGES"
    unfolding n_clear_def by (metis diff_zero length_filter_le length_upt)
  then have pos: "0 < unat (sw_used w)" using ok c by (simp add: swap_ok_def)
  then have "unat (sw_used w - 1) = unat (sw_used w) - 1" "0 < sw_used w"
    by (simp_all add: unat_sub word_le_nat_alt word_less_nat_alt)
  then show ?thesis
    using True i ok c pos swt.tst_clr [OF i(2)]
    by (auto simp: swap_ok_def swap_free_slot_def slot_clear_def)
next
  case False
  then show ?thesis using ok by (auto simp: swap_free_slot_def)
qed

lemma swap_pte_entry: "i < SWAP_NUM_PAGES \<Longrightarrow> swap_is_entry (swap_pte i) \<and> swap_get_slot (swap_pte i) = i"
proof -
  assume i: "i < SWAP_NUM_PAGES"
  define x :: u64 where "x = word_of_nat i"
  have m: "SWAP_SLOT_MASK = mask 11" by (simp add: SWAP_SLOT_MASK_def mask_eq_exp_minus_1)
  have "bit (swap_pte i) 10" "\<not> bit (swap_pte i) 0"
    by (simp_all add: swap_pte_def PTE_SWAP_def SWAP_SLOT_SHIFT_def bit_simps)
  then have "swap_is_entry (swap_pte i)" by (simp add: swap_is_entry_def has_iffs)
  moreover have "drop_bit 12 (swap_pte i) AND SWAP_SLOT_MASK = take_bit 11 x"
    unfolding m by (rule bit_word_eqI)
      (auto simp: swap_pte_def PTE_SWAP_def SWAP_SLOT_SHIFT_def bit_simps x_def)
  moreover have "unat (take_bit 11 x) = i"
    using i by (simp add: x_def unsigned_take_bit_eq unat_of_nat SWAP_NUM_PAGES_def take_bit_nat_eq_self)
  ultimately show ?thesis by (simp add: swap_get_slot_def SWAP_SLOT_SHIFT_def)
qed

end
