(* ===== verification/Vmm.thy ===== *)
theory Vmm
  imports Pmm Swap_Slots
begin

text \<open>The virtual memory manager, src/kernel/src/mm/vmm.c (x86_64 branch): four-level page tables in
physical memory, mapping and unmapping, address-space creation, the copy-on-write clone of fork
and the release of an address space. Physical memory is a function from frame and slot number to
64-bit words, which is how the direct map (PHYS_TO_VIRT) lets the code read and write it; the TLB
is not modelled.\<close>

section \<open>Machine state\<close>

type_synonym phys_mem = "nat \<Rightarrow> nat \<Rightarrow> u64"

record vm =
  vm_pmm :: pmm
  vm_mem :: phys_mem
  vm_kpml4 :: u64
  vm_swap :: swap_area

definition PML4_INDEX :: "u64 \<Rightarrow> nat" where "PML4_INDEX va = unat (drop_bit 39 va AND 0x1FF)"
definition PDPT_INDEX :: "u64 \<Rightarrow> nat" where "PDPT_INDEX va = unat (drop_bit 30 va AND 0x1FF)"
definition PD_INDEX :: "u64 \<Rightarrow> nat" where "PD_INDEX va = unat (drop_bit 21 va AND 0x1FF)"
definition PT_INDEX :: "u64 \<Rightarrow> nat" where "PT_INDEX va = unat (drop_bit 12 va AND 0x1FF)"

definition LEAF_PTE_ARCH_BITS :: u64 where "LEAF_PTE_ARCH_BITS = PTE_TABLE OR PTE_ACCESSED"

definition put :: "phys_mem \<Rightarrow> nat \<Rightarrow> nat \<Rightarrow> u64 \<Rightarrow> phys_mem" where
  "put mem f i v = mem(f := (mem f)(i := v))"

definition zero_page :: "phys_mem \<Rightarrow> nat \<Rightarrow> phys_mem" where
  "zero_page mem f = mem(f := (\<lambda>i. if i < 512 then 0 else mem f i))"

definition next_table :: "u64 \<Rightarrow> nat" where
  "next_table e = addr_page (e AND PTE_ADDR_MASK)"

section \<open>The kernel address space\<close>

definition get_or_create_table :: "vm \<Rightarrow> nat \<Rightarrow> nat \<Rightarrow> bool \<Rightarrow> nat option \<times> vm" where
  "get_or_create_table s table index create =
     (let e = vm_mem s table index in
      if has e PTE_PRESENT then (Some (next_table e), s)
      else if \<not> create then (None, s)
      else case pmm_alloc_page (vm_pmm s) of (new_page, pm) \<Rightarrow>
        if new_page = 0 then (None, s\<lparr>vm_pmm := pm\<rparr>)
        else (Some (addr_page new_page),
              s\<lparr>vm_pmm := pm,
                vm_mem := put (zero_page (vm_mem s) (addr_page new_page)) table index
                            (new_page OR PTE_PRESENT OR PTE_TABLE OR PTE_WRITABLE)\<rparr>))"

definition vmm_init :: "vm \<Rightarrow> u64 \<Rightarrow> vm" where
  "vmm_init s cr3 = s\<lparr>vm_kpml4 := cr3 AND PTE_ADDR_MASK\<rparr>"

definition leaf_pte :: "u64 \<Rightarrow> u64 \<Rightarrow> u64" where
  "leaf_pte phys flags = (phys AND PTE_ADDR_MASK) OR flags OR PTE_PRESENT OR LEAF_PTE_ARCH_BITS"

definition vmm_map_page :: "vm \<Rightarrow> u64 \<Rightarrow> u64 \<Rightarrow> u64 \<Rightarrow> unit ret \<times> vm" where
  "vmm_map_page s virt phys flags =
     (case get_or_create_table s (addr_page (vm_kpml4 s)) (PML4_INDEX virt) True of
        (None, s1) \<Rightarrow> (Inl EGENERIC, s1)
      | (Some pdpt, s1) \<Rightarrow>
     (case get_or_create_table s1 pdpt (PDPT_INDEX virt) True of
        (None, s2) \<Rightarrow> (Inl EGENERIC, s2)
      | (Some pd, s2) \<Rightarrow>
     (case get_or_create_table s2 pd (PD_INDEX virt) True of
        (None, s3) \<Rightarrow> (Inl EGENERIC, s3)
      | (Some pt, s3) \<Rightarrow>
          (Inr (), s3\<lparr>vm_mem := put (vm_mem s3) pt (PT_INDEX virt) (leaf_pte phys flags)\<rparr>))))"

definition kernel_pt :: "vm \<Rightarrow> u64 \<Rightarrow> nat option" where
  "kernel_pt s virt =
     (case fst (get_or_create_table s (addr_page (vm_kpml4 s)) (PML4_INDEX virt) False) of
        None \<Rightarrow> None
      | Some pdpt \<Rightarrow>
     (case fst (get_or_create_table s pdpt (PDPT_INDEX virt) False) of
        None \<Rightarrow> None
      | Some pd \<Rightarrow> fst (get_or_create_table s pd (PD_INDEX virt) False)))"

definition vmm_unmap_page :: "vm \<Rightarrow> u64 \<Rightarrow> vm" where
  "vmm_unmap_page s virt =
     (case kernel_pt s virt of None \<Rightarrow> s
      | Some pt \<Rightarrow> s\<lparr>vm_mem := put (vm_mem s) pt (PT_INDEX virt) 0\<rparr>)"

definition vmm_get_phys :: "vm \<Rightarrow> u64 \<Rightarrow> u64" where
  "vmm_get_phys s virt =
     (case kernel_pt s virt of None \<Rightarrow> 0
      | Some pt \<Rightarrow> let pte = vm_mem s pt (PT_INDEX virt) in
          if \<not> has pte PTE_PRESENT then 0 else (pte AND PTE_ADDR_MASK) OR (virt AND 0xFFF))"

definition vmm_get_kernel_pml4 :: "vm \<Rightarrow> u64" where
  "vmm_get_kernel_pml4 s = vm_kpml4 s"

section \<open>Process address spaces\<close>

definition fill_pml4 :: "phys_mem \<Rightarrow> nat \<Rightarrow> nat \<Rightarrow> phys_mem" where
  "fill_pml4 mem n k = mem(n := (\<lambda>i. if i < 256 then 0 else if i < 512 then mem k i else mem n i))"

definition vmm_create_address_space :: "vm \<Rightarrow> u64 \<times> vm" where
  "vmm_create_address_space s =
     (case pmm_alloc_page (vm_pmm s) of (new_pml4, pm) \<Rightarrow>
        if new_pml4 = 0 then (0, s\<lparr>vm_pmm := pm\<rparr>)
        else (new_pml4, s\<lparr>vm_pmm := pm,
               vm_mem := fill_pml4 (vm_mem s) (addr_page new_pml4) (addr_page (vm_kpml4 s))\<rparr>))"

definition intermediate_flags :: "u64 \<Rightarrow> u64" where
  "intermediate_flags flags =
     (PTE_PRESENT OR PTE_TABLE OR PTE_WRITABLE) OR (if has flags PTE_USER then PTE_USER else 0)"

text \<open>One level of the walk of vmm_map_page_in; the code has it three times.\<close>

definition map_level :: "vm \<Rightarrow> nat \<Rightarrow> nat \<Rightarrow> u64 \<Rightarrow> nat option \<times> vm" where
  "map_level s table idx flags =
     (let e = vm_mem s table idx in
      if \<not> has e PTE_PRESENT then
        (case pmm_alloc_page (vm_pmm s) of (new_page, pm) \<Rightarrow>
           if new_page = 0 then (None, s\<lparr>vm_pmm := pm\<rparr>)
           else let e' = new_page OR intermediate_flags flags in
             (Some (next_table e'),
              s\<lparr>vm_pmm := pm,
                vm_mem := put (zero_page (vm_mem s) (addr_page new_page)) table idx e'\<rparr>))
      else
        let e' = (if has flags PTE_USER \<and> \<not> has e PTE_USER then e OR PTE_USER else e) in
        (Some (next_table e'), s\<lparr>vm_mem := put (vm_mem s) table idx e'\<rparr>))"

definition vmm_map_page_in :: "vm \<Rightarrow> u64 \<Rightarrow> u64 \<Rightarrow> u64 \<Rightarrow> u64 \<Rightarrow> unit ret \<times> vm" where
  "vmm_map_page_in s pml4 virt phys flags =
     (case map_level s (addr_page pml4) (PML4_INDEX virt) flags of
        (None, s1) \<Rightarrow> (Inl EGENERIC, s1)
      | (Some pdpt, s1) \<Rightarrow>
     (case map_level s1 pdpt (PDPT_INDEX virt) flags of
        (None, s2) \<Rightarrow> (Inl EGENERIC, s2)
      | (Some pd, s2) \<Rightarrow>
     (case map_level s2 pd (PD_INDEX virt) flags of
        (None, s3) \<Rightarrow> (Inl EGENERIC, s3)
      | (Some pt, s3) \<Rightarrow>
          (Inr (), s3\<lparr>vm_mem := put (vm_mem s3) pt (PT_INDEX virt) (leaf_pte phys flags)\<rparr>))))"

definition vmm_get_pte :: "phys_mem \<Rightarrow> u64 \<Rightarrow> u64 \<Rightarrow> (nat \<times> nat) option" where
  "vmm_get_pte mem pml4 virt =
     (let e4 = mem (addr_page pml4) (PML4_INDEX virt) in
      if \<not> has e4 PTE_PRESENT then None
      else let e3 = mem (next_table e4) (PDPT_INDEX virt) in
      if \<not> has e3 PTE_PRESENT then None
      else let e2 = mem (next_table e3) (PD_INDEX virt) in
      if \<not> has e2 PTE_PRESENT then None
      else Some (next_table e2, PT_INDEX virt))"

section \<open>Copy-on-write clone\<close>

record mmap_entry =
  mm_virt :: u64
  mm_phys :: u64
  mm_num_pages :: u32
  mm_used :: bool
  mm_shm_id :: int
  mm_demand :: bool
  mm_vfs_node :: int
  mm_file_offset :: u64

definition is_shm_page :: "u64 \<Rightarrow> mmap_entry list \<Rightarrow> bool" where
  "is_shm_page virt table =
     list_ex (\<lambda>e. mm_used e \<and> 0 \<le> mm_shm_id e \<and> mm_virt e \<le> virt
                  \<and> virt < mm_virt e + ucast (mm_num_pages e) * 4096) table"

definition va_of :: "nat \<Rightarrow> nat \<Rightarrow> nat \<Rightarrow> nat \<Rightarrow> u64" where
  "va_of i4 i3 i2 i1 = push_bit 39 (word_of_nat i4) OR push_bit 30 (word_of_nat i3)
     OR push_bit 21 (word_of_nat i2) OR push_bit 12 (word_of_nat i1)"

definition cow_flags_of :: "u64 \<Rightarrow> u64" where
  "cow_flags_of flags = ((flags AND NOT PTE_WRITABLE) OR PTE_COW)
     OR (if has flags PTE_WRITABLE then PTE_WAS_WRITABLE else 0)"

definition clone_leaf ::
  "mmap_entry list \<Rightarrow> u64 \<Rightarrow> nat \<Rightarrow> nat \<Rightarrow> nat \<Rightarrow> nat \<Rightarrow> nat \<Rightarrow> vm \<Rightarrow> vm" where
  "clone_leaf table child pt i4 i3 i2 i1 s =
     (let pte = vm_mem s pt i1 in
      if \<not> has pte PTE_PRESENT then s
      else let phys = pte AND PTE_ADDR_MASK; flags = pte AND NOT PTE_ADDR_MASK;
               virt = va_of i4 i3 i2 i1
           in if is_shm_page virt table then
                let s1 = snd (vmm_map_page_in s child virt phys (flags AND NOT PTE_PRESENT))
                in s1\<lparr>vm_pmm := pmm_ref_inc (vm_pmm s1) phys\<rparr>
              else
                let cow = cow_flags_of flags;
                    s0 = s\<lparr>vm_mem := put (vm_mem s) pt i1 (phys OR cow)\<rparr>;
                    s1 = snd (vmm_map_page_in s0 child virt phys (cow AND NOT PTE_PRESENT))
                in s1\<lparr>vm_pmm := pmm_ref_inc (vm_pmm s1) phys\<rparr>)"

definition clone_pt :: "mmap_entry list \<Rightarrow> u64 \<Rightarrow> nat \<Rightarrow> nat \<Rightarrow> nat \<Rightarrow> nat \<Rightarrow> vm \<Rightarrow> vm" where
  "clone_pt table child pt i4 i3 i2 = fold (\<lambda>i1. clone_leaf table child pt i4 i3 i2 i1) [0..<512]"

definition clone_pd :: "mmap_entry list \<Rightarrow> u64 \<Rightarrow> nat \<Rightarrow> nat \<Rightarrow> nat \<Rightarrow> vm \<Rightarrow> vm" where
  "clone_pd table child pd i4 i3 = fold (\<lambda>i2 s.
     let e = vm_mem s pd i2 in
     if \<not> has e PTE_PRESENT then s else if has e PTE_HUGE then s
     else clone_pt table child (next_table e) i4 i3 i2 s) [0..<512]"

definition clone_pdpt :: "mmap_entry list \<Rightarrow> u64 \<Rightarrow> nat \<Rightarrow> nat \<Rightarrow> vm \<Rightarrow> vm" where
  "clone_pdpt table child pdpt i4 = fold (\<lambda>i3 s.
     let e = vm_mem s pdpt i3 in
     if \<not> has e PTE_PRESENT then s
     else clone_pd table child (next_table e) i4 i3 s) [0..<512]"

definition clone_pml4 :: "mmap_entry list \<Rightarrow> u64 \<Rightarrow> nat \<Rightarrow> vm \<Rightarrow> vm" where
  "clone_pml4 table child pml4 = fold (\<lambda>i4 s.
     let e = vm_mem s pml4 i4 in
     if \<not> has e PTE_PRESENT then s
     else clone_pdpt table child (next_table e) i4 s) [0..<256]"

definition vmm_clone_cow :: "vm \<Rightarrow> u64 \<Rightarrow> mmap_entry list \<Rightarrow> u64 \<times> vm" where
  "vmm_clone_cow s parent table =
     (case vmm_create_address_space s of (child, s1) \<Rightarrow>
        if child = 0 then (0, s1)
        else (child, clone_pml4 table child (addr_page parent) s1))"

section \<open>Releasing an address space\<close>

definition vm_free_page :: "u64 \<Rightarrow> vm \<Rightarrow> vm option" where
  "vm_free_page a s = map_option (\<lambda>pm. s\<lparr>vm_pmm := pm\<rparr>) (pmm_free_page (vm_pmm s) a)"

fun fold_opt :: "('a \<Rightarrow> 's \<Rightarrow> 's option) \<Rightarrow> 'a list \<Rightarrow> 's \<Rightarrow> 's option" where
  "fold_opt f [] s = Some s"
| "fold_opt f (x # xs) s = (case f x s of None \<Rightarrow> None | Some s' \<Rightarrow> fold_opt f xs s')"

definition release_leaf :: "nat \<Rightarrow> nat \<Rightarrow> vm \<Rightarrow> vm option" where
  "release_leaf pt i1 s =
     (let e = vm_mem s pt i1 in
      if has e PTE_PRESENT then
        map_option (\<lambda>s. s\<lparr>vm_mem := put (vm_mem s) pt i1 0\<rparr>) (vm_free_page (e AND PTE_ADDR_MASK) s)
      else if swap_is_entry e then
        Some (s\<lparr>vm_swap := swap_free_slot (vm_swap s) (int (swap_get_slot e)),
                vm_mem := put (vm_mem s) pt i1 0\<rparr>)
      else Some s)"

definition release_pd :: "nat \<Rightarrow> vm \<Rightarrow> vm option" where
  "release_pd pd = fold_opt (\<lambda>i2 s.
     let e = vm_mem s pd i2; pt_phys = e AND PTE_ADDR_MASK in
     if \<not> has e PTE_PRESENT then Some s else if has e PTE_HUGE then Some s
     else case fold_opt (release_leaf (addr_page pt_phys)) [0..<512] s of None \<Rightarrow> None
        | Some s \<Rightarrow> vm_free_page pt_phys (s\<lparr>vm_mem := put (vm_mem s) pd i2 0\<rparr>)) [0..<512]"

definition release_pdpt :: "nat \<Rightarrow> vm \<Rightarrow> vm option" where
  "release_pdpt pdpt = fold_opt (\<lambda>i3 s.
     let e = vm_mem s pdpt i3; pd_phys = e AND PTE_ADDR_MASK in
     if \<not> has e PTE_PRESENT then Some s
     else case release_pd (addr_page pd_phys) s of None \<Rightarrow> None
        | Some s \<Rightarrow> vm_free_page pd_phys (s\<lparr>vm_mem := put (vm_mem s) pdpt i3 0\<rparr>)) [0..<512]"

definition vmm_free_user_pages :: "vm \<Rightarrow> u64 \<Rightarrow> vm option" where
  "vmm_free_user_pages s cr3 =
     (case fold_opt (\<lambda>i4 s.
        let e = vm_mem s (addr_page cr3) i4; pdpt_phys = e AND PTE_ADDR_MASK in
        if \<not> has e PTE_PRESENT then Some s
        else case release_pdpt (addr_page pdpt_phys) s of None \<Rightarrow> None
           | Some s \<Rightarrow> vm_free_page pdpt_phys (s\<lparr>vm_mem := put (vm_mem s) (addr_page cr3) i4 0\<rparr>))
          [0..<256] s of
        None \<Rightarrow> None
      | Some s \<Rightarrow> vm_free_page cr3 s)"

section \<open>Entry arithmetic\<close>

lemma has_zero [simp]: "\<not> has 0 b"
  by (simp add: has_def)

lemma bit_addr_mask [simp]: "bit PTE_ADDR_MASK n \<longleftrightarrow> 12 \<le> n \<and> n < 52"
proof -
  have m: "PTE_ADDR_MASK = push_bit 12 (mask 40)"
    by (simp add: PTE_ADDR_MASK_def mask_eq_exp_minus_1 push_bit_eq_mult)
  show ?thesis unfolding m bit_push_bit_iff bit_mask_iff by auto
qed

lemma page_addr_push: "page_addr p = push_bit 12 (word_of_nat p)"
  by (simp add: page_addr_def PAGE_SIZE_def push_bit_eq_mult mult.commute)

lemma bit_page_addr:
  assumes "p < 2 ^ 40"
  shows "bit (page_addr p) n \<Longrightarrow> 12 \<le> n \<and> n < 52"
proof -
  assume b: "bit (page_addr p) n"
  then have n: "12 \<le> n" "bit p (n - 12)"
    by (auto simp: page_addr_push bit_simps)
  have "take_bit 40 p = p" using assms by (simp add: take_bit_nat_eq_self)
  then have "n - 12 < 40" using n(2) by (metis bit_take_bit_iff)
  then show ?thesis using n by simp
qed

lemma page_addr_masked:
  assumes "p < 2 ^ 40"
  shows "page_addr p AND PTE_ADDR_MASK = page_addr p"
  by (rule bit_word_eqI) (use bit_page_addr [OF assms] in \<open>auto simp: bit_simps\<close>)

lemma mask_flags:
  "intermediate_flags f AND PTE_ADDR_MASK = 0" "PTE_USER AND PTE_ADDR_MASK = 0"
  by (simp_all add: intermediate_flags_def pte_bits PTE_ADDR_MASK_def)

lemma next_table_page:
  assumes "p < 2 ^ 40"
  shows "next_table (page_addr p OR intermediate_flags f) = p"
  using assms page_addr_masked [OF assms]
  by (simp add: next_table_def bit.conj_disj_distrib2 mask_flags)

lemma next_table_user: "next_table (e OR PTE_USER) = next_table e"
  by (simp add: next_table_def bit.conj_disj_distrib2 mask_flags)

lemma present_user: "has (e OR PTE_USER) PTE_PRESENT = has e PTE_PRESENT"
  unfolding has_iffs by (simp add: bit_simps PTE_USER_def)

lemma present_intermediate: "has (e OR intermediate_flags f) PTE_PRESENT"
  unfolding has_iffs by (simp add: bit_simps pte_bits intermediate_flags_def)

section \<open>Walks\<close>

fun walk :: "phys_mem \<Rightarrow> nat \<Rightarrow> nat list \<Rightarrow> nat option" where
  "walk mem r [] = Some r"
| "walk mem r (i # is) =
     (if has (mem r i) PTE_PRESENT then walk mem (next_table (mem r i)) is else None)"

lemma walk_append:
  "walk mem r (ps @ qs) = (case walk mem r ps of None \<Rightarrow> None | Some f \<Rightarrow> walk mem f qs)"
  by (induction ps arbitrary: r) simp_all

definition va_path :: "u64 \<Rightarrow> nat list" where
  "va_path va = [PML4_INDEX va, PDPT_INDEX va, PD_INDEX va]"

definition pte_at :: "phys_mem \<Rightarrow> nat \<Rightarrow> u64 \<Rightarrow> u64" where
  "pte_at mem r va = (case walk mem r (va_path va) of None \<Rightarrow> 0 | Some pt \<Rightarrow> mem pt (PT_INDEX va))"

lemma vmm_get_pte_walk:
  "vmm_get_pte mem cr3 va = map_option (\<lambda>pt. (pt, PT_INDEX va)) (walk mem (addr_page cr3) (va_path va))"
  by (simp add: vmm_get_pte_def va_path_def Let_def)

lemma put_same [simp]: "put mem f i v f i = v"
  by (simp add: put_def)

lemma put_other: "g \<noteq> f \<or> j \<noteq> i \<Longrightarrow> put mem f i v g j = mem g j"
  by (auto simp: put_def)

lemma put_if: "put mem f i v g j = (if g = f \<and> j = i then v else mem g j)"
  by (simp add: put_def)

text \<open>A path of the user half: at most three indices, the first below 256.\<close>

definition upath :: "nat list \<Rightarrow> bool" where
  "upath ps \<longleftrightarrow> length ps \<le> 3 \<and> (\<forall>i\<in>set ps. i < 512) \<and> (ps \<noteq> [] \<longrightarrow> hd ps < 256)"

lemma upath_snoc_prefix: "upath (ps @ [i]) \<Longrightarrow> upath ps"
  by (cases ps) (auto simp: upath_def)

text \<open>Page tables form a forest: each table frame of the user half of an address space is reached
by one path of one root, is in use in the page allocator, and its number fits the address field.\<close>

definition forest :: "nat set \<Rightarrow> vm \<Rightarrow> bool" where
  "forest R s \<longleftrightarrow>
     (\<forall>r\<in>R. \<forall>r'\<in>R. \<forall>ps qs f. upath ps \<and> upath qs \<and> walk (vm_mem s) r ps = Some f
        \<and> walk (vm_mem s) r' qs = Some f \<longrightarrow> r = r' \<and> ps = qs)
     \<and> (\<forall>r\<in>R. \<forall>ps f. upath ps \<and> walk (vm_mem s) r ps = Some f \<longrightarrow> f \<notin> free_set (vm_pmm s))"

definition vm_ok :: "nat set \<Rightarrow> vm \<Rightarrow> bool" where
  "vm_ok R s \<longleftrightarrow> pmm_ok (vm_pmm s) \<and> pm_total (vm_pmm s) \<le> 2 ^ 40 \<and> forest R s"

lemma forest_inj:
  assumes "forest R s" "r \<in> R" "r' \<in> R" "upath ps" "upath qs"
    "walk (vm_mem s) r ps = Some f" "walk (vm_mem s) r' qs = Some f"
  shows "r = r' \<and> ps = qs"
  using assms unfolding forest_def by blast

lemma forest_used:
  assumes "forest R s" "r \<in> R" "upath ps" "walk (vm_mem s) r ps = Some f"
  shows "f \<notin> free_set (vm_pmm s)"
  using assms unfolding forest_def by blast

section \<open>How writes change walks\<close>

lemma walk_retag:
  assumes "has e PTE_PRESENT = has (mem f i) PTE_PRESENT" "next_table e = next_table (mem f i)"
  shows "walk (put mem f i e) r ps = walk mem r ps"
proof (induction ps arbitrary: r)
  case (Cons j ps)
  then show ?case using assms by (cases "r = f \<and> j = i") (auto simp: put_if)
qed simp

lemma walk_snoc_SomeD:
  assumes "walk mem r (qs @ [j]) = Some g"
  obtains f where "walk mem r qs = Some f" "has (mem f j) PTE_PRESENT" "g = next_table (mem f j)"
  using assms by (auto simp: walk_append split: option.splits if_splits)

lemma walk_new:
  assumes fo: "forest R s" and r: "r \<in> R" and up: "upath (ps @ [i])"
    and f: "walk (vm_mem s) r ps = Some f" and abs: "\<not> has (vm_mem s f i) PTE_PRESENT"
    and p: "p \<in> free_set (vm_pmm s)" and e: "has e PTE_PRESENT" "next_table e = p"
    and m: "m = put (zero_page (vm_mem s) p) f i e"
    and r': "r' \<in> R" and qs: "upath qs"
  shows "walk m r' qs = (if r' = r \<and> qs = ps @ [i] then Some p else walk (vm_mem s) r' qs)"
  using qs
proof (induction qs rule: rev_induct)
  case (snoc j qs)
  note up' = upath_snoc_prefix [OF snoc.prems] and upf = upath_snoc_prefix [OF up]
  note ih = snoc.IH [OF up'] and step = walk_append [of _ r' qs "[j]"]
  have pf: "p \<noteq> f" using forest_used [OF fo r upf f] p by auto
  have mv: "m g k = (if g = f \<and> k = i then e else if g = p \<and> k < 512 then 0 else vm_mem s g k)" for g k
    by (simp add: m put_if zero_page_def)
  show ?case
  proof (cases "r' = r \<and> qs = ps @ [i]")
    case True
    have "j < 512" using snoc.prems by (simp add: upath_def)
    then have "walk m r' (qs @ [j]) = None"
      using ih True pf mv [of p j] step [of m] by (simp add: has_def)
    moreover have "walk (vm_mem s) r' qs = None"
      using True f abs walk_append [of "vm_mem s" r ps "[i]"] by simp
    then have "walk (vm_mem s) r' (qs @ [j]) = None" using step [of "vm_mem s"] by simp
    ultimately show ?thesis using True by simp
  next
    case False
    then have w: "walk m r' qs = walk (vm_mem s) r' qs" using ih by auto
    show ?thesis
    proof (cases "walk (vm_mem s) r' qs")
      case None
      then show ?thesis using w f step [of m] step [of "vm_mem s"] by auto
    next
      case (Some g)
      have gp: "g \<noteq> p" using forest_used [OF fo r' up' Some] p by auto
      have "g = f \<Longrightarrow> r' = r \<and> qs = ps"
        using forest_inj [OF fo r' r up' upf Some] f by auto
      moreover have "\<not> (r' = r \<and> qs = ps)" if "g \<noteq> f" using that Some f by auto
      ultimately show ?thesis
        using w Some gp e mv [of g j] step [of m] step [of "vm_mem s"] by (cases "g = f") auto
    qed
  qed
qed simp

lemma walk_leaf_write:
  assumes fo: "forest R s" and r: "r \<in> R" and up: "upath ps" "length ps = 3"
    and f: "walk (vm_mem s) r ps = Some f" and r': "r' \<in> R" and qs: "upath qs"
  shows "walk (put (vm_mem s) f i v) r' qs = walk (vm_mem s) r' qs"
  using qs
proof (induction qs rule: rev_induct)
  case (snoc j qs)
  have up': "upath qs" "length qs < 3"
    using upath_snoc_prefix [OF snoc.prems] snoc.prems by (auto simp: upath_def)
  have "g \<noteq> f" if "walk (vm_mem s) r' qs = Some g" for g
    using forest_inj [OF fo r' r up'(1) up(1) that] f up(2) up'(2) by auto
  then show ?case
    using snoc.IH [OF up'(1)] by (auto simp: walk_append put_if split: option.split)
qed simp

section \<open>Growing an address space\<close>

definition tables :: "nat set \<Rightarrow> vm \<Rightarrow> nat set" where
  "tables R s = {f. \<exists>r\<in>R. \<exists>ps. upath ps \<and> walk (vm_mem s) r ps = Some f}"

text \<open>What every mapping operation keeps: the invariant, the allocator's size, the reference counts
of pages in use, the swap area, and the contents of all pages in use that are not page tables.\<close>

definition grows :: "nat set \<Rightarrow> vm \<Rightarrow> vm \<Rightarrow> bool" where
  "grows R s s' \<longleftrightarrow> vm_ok R s'
     \<and> pm_total (vm_pmm s') = pm_total (vm_pmm s)
     \<and> free_set (vm_pmm s') \<subseteq> free_set (vm_pmm s)
     \<and> tables R s' \<subseteq> tables R s \<union> free_set (vm_pmm s)
     \<and> (\<forall>q < pm_total (vm_pmm s). q \<notin> free_set (vm_pmm s) \<longrightarrow>
          pm_refs (vm_pmm s') ! q = pm_refs (vm_pmm s) ! q)
     \<and> (\<forall>g. g \<notin> free_set (vm_pmm s) \<longrightarrow> g \<notin> tables R s \<longrightarrow> vm_mem s' g = vm_mem s g)
     \<and> vm_swap s' = vm_swap s \<and> vm_kpml4 s' = vm_kpml4 s"

lemma grows_refl: "vm_ok R s \<Longrightarrow> grows R s s"
  by (auto simp: grows_def)

lemma grows_trans: "grows R s t \<Longrightarrow> grows R t u \<Longrightarrow> grows R s u"
  unfolding grows_def
  by (intro conjI; (elim conjE)?) (auto dest: subsetD)

definition uva :: "u64 \<Rightarrow> bool" where
  "uva va \<longleftrightarrow> PML4_INDEX va < 256"

lemma index_bound: "unat (w AND 0x1FF :: u64) < 512"
proof -
  have "w AND 0x1FF = take_bit 9 w"
    by (simp add: take_bit_eq_mask mask_eq_exp_minus_1)
  then show ?thesis
    using take_bit_nat_less_exp [of 9 "unat w"] by (simp add: unsigned_take_bit_eq)
qed

lemma va_path_upath: "uva va \<Longrightarrow> upath (va_path va) \<and> length (va_path va) = 3"
  by (simp add: uva_def va_path_def upath_def PML4_INDEX_def PDPT_INDEX_def PD_INDEX_def index_bound)

lemma PT_INDEX_lt: "PT_INDEX va < 512"
  by (simp add: PT_INDEX_def index_bound)

text \<open>One table entry changed: the leaf entries of every user address stay as they were.\<close>

lemma pte_at_same:
  assumes va: "uva va" and r: "r \<in> R"
    and w: "\<And>qs. upath qs \<Longrightarrow> walk mem' r qs = walk mem r qs \<or>
        (walk mem r qs = None \<and> (\<exists>p. walk mem' r qs = Some p \<and> (\<forall>i<512. mem' p i = 0)))"
    and leaf: "\<And>pt. walk mem r (va_path va) = Some pt \<Longrightarrow> mem' pt (PT_INDEX va) = mem pt (PT_INDEX va)"
  shows "pte_at mem' r va = pte_at mem r va"
  using w [of "va_path va"] va_path_upath [OF va] leaf PT_INDEX_lt [of va]
  by (auto simp: pte_at_def split: option.splits)

lemma vm_put_self: "s\<lparr>vm_pmm := vm_pmm s\<rparr> = s"
  by simp

lemma map_level_present:
  assumes ok: "vm_ok R s" and r: "r \<in> R" and up: "upath (ps @ [i])"
    and f: "walk (vm_mem s) r ps = Some f" and e: "has (vm_mem s f i) PTE_PRESENT"
  obtains g s' where "map_level s f i fl = (Some g, s')" "grows R s s'"
    "walk (vm_mem s') r (ps @ [i]) = Some g"
    "\<And>r' va. r' \<in> R \<Longrightarrow> uva va \<Longrightarrow> pte_at (vm_mem s') r' va = pte_at (vm_mem s) r' va"
    "\<And>r' qs. r' \<in> R \<Longrightarrow> r' \<noteq> r \<Longrightarrow> upath qs \<Longrightarrow> walk (vm_mem s') r' qs = walk (vm_mem s) r' qs"
    "\<And>r' qs g. r' \<in> R \<Longrightarrow> r' \<noteq> r \<Longrightarrow> upath qs \<Longrightarrow> walk (vm_mem s) r' qs = Some g
        \<Longrightarrow> vm_mem s' g = vm_mem s g"
proof -
  define e' where "e' = (if has fl PTE_USER \<and> \<not> has (vm_mem s f i) PTE_USER
      then vm_mem s f i OR PTE_USER else vm_mem s f i)"
  define s' where "s' = s\<lparr>vm_mem := put (vm_mem s) f i e'\<rparr>"
  have e': "has e' PTE_PRESENT = has (vm_mem s f i) PTE_PRESENT"
      "next_table e' = next_table (vm_mem s f i)"
    by (simp_all add: e'_def next_table_user present_user)
  have w: "walk (vm_mem s') r' qs = walk (vm_mem s) r' qs" for r' qs
    using walk_retag [of e' "vm_mem s" f i] e' by (simp add: s'_def)
  have fo: "forest R s" using ok by (simp add: vm_ok_def)
  have "vm_ok R s'" "tables R s' = tables R s"
    using ok by (simp_all add: vm_ok_def forest_def w tables_def) (simp_all add: s'_def)
  moreover have ft: "f \<in> tables R s"
    using r f upath_snoc_prefix [OF up] by (auto simp: tables_def)
  ultimately have g: "grows R s s'"
    by (auto simp: grows_def s'_def put_def)
  have a: "map_level s f i fl = (Some (next_table e'), s')"
    using e by (simp add: map_level_def Let_def e'_def [symmetric] s'_def)
  have c: "walk (vm_mem s') r (ps @ [i]) = Some (next_table e')"
    using w f e e'(2) walk_append [of "vm_mem s" r ps "[i]"] by simp
  have d: "pte_at (vm_mem s') r' va = pte_at (vm_mem s) r' va" if r': "r' \<in> R" and va: "uva va" for r' va
  proof (rule pte_at_same [OF va r'])
    fix pt assume pt: "walk (vm_mem s) r' (va_path va) = Some pt"
    have "pt \<noteq> f"
      using forest_inj [OF fo r' r _ upath_snoc_prefix [OF up] pt] va_path_upath [OF va] f up
      by (auto simp: upath_def)
    then show "vm_mem s' pt (PT_INDEX va) = vm_mem s pt (PT_INDEX va)"
      by (simp add: s'_def put_def)
  qed (simp add: w)
  have h: "vm_mem s' h = vm_mem s h"
    if "r' \<in> R" "r' \<noteq> r" "upath qs" "walk (vm_mem s) r' qs = Some h" for r' qs h
    using forest_inj [OF fo that(1) r that(3) upath_snoc_prefix [OF up] that(4)] f that(2)
    by (auto simp: s'_def put_def)
  show ?thesis by (rule that [OF a g c d w h])
qed

lemma vm_free_page_bound: "vm_ok R s \<Longrightarrow> p \<in> free_set (vm_pmm s) \<Longrightarrow> 0 < p \<and> p < 2 ^ 40 \<and> p < 2 ^ 52"
  using free_set_pos [of "vm_pmm s" p] by (auto simp: vm_ok_def)

lemma forest_extend:
  assumes fo: "forest R s" and p: "p \<in> free_set (vm_pmm s)"
    and w: "\<And>r' qs. r' \<in> R \<Longrightarrow> upath qs \<Longrightarrow> walk (vm_mem s') r' qs =
        (if r' = r \<and> qs = rs then Some p else walk (vm_mem s) r' qs)"
    and fr: "free_set (vm_pmm s') = free_set (vm_pmm s) - {p}"
  shows "forest R s'"
proof -
  have new: "r' = r \<and> qs = rs" if "r' \<in> R" "upath qs" "walk (vm_mem s') r' qs = Some p" for r' qs
    using that w [of r' qs] forest_used [OF fo that(1,2)] p by (auto split: if_splits)
  have old: "walk (vm_mem s) r' qs = Some g"
    if "r' \<in> R" "upath qs" "walk (vm_mem s') r' qs = Some g" "g \<noteq> p" for r' qs g
    using that w [of r' qs] by (auto split: if_splits)
  show ?thesis
    unfolding forest_def
  proof (intro conjI ballI allI impI)
    fix r1 r2 ps qs f
    assume a: "r1 \<in> R" "r2 \<in> R"
      "upath ps \<and> upath qs \<and> walk (vm_mem s') r1 ps = Some f \<and> walk (vm_mem s') r2 qs = Some f"
    show "r1 = r2" "ps = qs"
      using a new old forest_inj [OF fo a(1,2), of ps qs f] by (metis, metis)
  next
    fix r1 ps f assume a: "r1 \<in> R" "upath ps \<and> walk (vm_mem s') r1 ps = Some f"
    show "f \<notin> free_set (vm_pmm s')"
      using a old forest_used [OF fo a(1), of ps f] fr by auto
  qed
qed

lemma forest_cong:
  assumes fo: "forest R s"
    and w: "\<And>r qs. r \<in> R \<Longrightarrow> upath qs \<Longrightarrow> walk (vm_mem s') r qs = walk (vm_mem s) r qs"
    and fr: "free_set (vm_pmm s') \<subseteq> free_set (vm_pmm s)"
  shows "forest R s'"
  unfolding forest_def
proof (intro conjI ballI allI impI)
  fix r r' ps qs f
  assume a: "r \<in> R" "r' \<in> R"
    "upath ps \<and> upath qs \<and> walk (vm_mem s') r ps = Some f \<and> walk (vm_mem s') r' qs = Some f"
  show "r = r'" "ps = qs"
    using a w forest_inj [OF fo a(1,2), of ps qs f] by auto
next
  fix r ps f assume a: "r \<in> R" "upath ps \<and> walk (vm_mem s') r ps = Some f"
  show "f \<notin> free_set (vm_pmm s')"
    using a w fr forest_used [OF fo a(1), of ps f] by auto
qed

lemma map_level_absent:
  assumes ok: "vm_ok R s" and r: "r \<in> R" and up: "upath (ps @ [i])"
    and f: "walk (vm_mem s) r ps = Some f" and e: "\<not> has (vm_mem s f i) PTE_PRESENT"
  obtains (full) "map_level s f i fl = (None, s)" "free_set (vm_pmm s) = {}"
  | (table) g s' where "map_level s f i fl = (Some g, s')" "grows R s s'"
    "walk (vm_mem s') r (ps @ [i]) = Some g"
    "\<And>r' va. r' \<in> R \<Longrightarrow> uva va \<Longrightarrow> pte_at (vm_mem s') r' va = pte_at (vm_mem s) r' va"
    "\<And>r' qs. r' \<in> R \<Longrightarrow> r' \<noteq> r \<Longrightarrow> upath qs \<Longrightarrow> walk (vm_mem s') r' qs = walk (vm_mem s) r' qs"
    "\<And>r' qs g. r' \<in> R \<Longrightarrow> r' \<noteq> r \<Longrightarrow> upath qs \<Longrightarrow> walk (vm_mem s) r' qs = Some g
        \<Longrightarrow> vm_mem s' g = vm_mem s g"
proof -
  have pok: "pmm_ok (vm_pmm s)" and fo: "forest R s" using ok by (simp_all add: vm_ok_def)
  from pok show ?thesis
  proof (cases rule: alloc_page_spec)
    case none
    then show ?thesis using e full by (simp add: map_level_def Let_def)
  next
    case (page p pm)
    define e' where "e' = page_addr p OR intermediate_flags fl"
    note b = vm_free_page_bound [OF ok page(3)]
    have e': "has e' PTE_PRESENT" "next_table e' = p"
      using present_intermediate next_table_page b by (simp_all add: e'_def)
    define m where "m = put (zero_page (vm_mem s) p) f i e'"
    define s' where "s' = s\<lparr>vm_pmm := pm, vm_mem := m\<rparr>"
    have a: "map_level s f i fl = (Some p, s')"
      using e page(1,2) b e'(2)
      by (simp add: map_level_def Let_def e'_def [symmetric] s'_def m_def)
    note w = walk_new [OF fo r up f e page(3) e' m_def]
    have ft: "f \<in> tables R s" "f \<notin> free_set (vm_pmm s)"
      using r f upath_snoc_prefix [OF up] forest_used [OF fo r _ f] by (auto simp: tables_def)
    have zero: "m p k = 0" if "k < 512" for k
      using that ft page(3) by (auto simp: m_def put_if zero_page_def)
    have same: "m g = vm_mem s g" if "g \<noteq> p" "g \<noteq> f" for g
      using that by (simp add: m_def put_def zero_page_def)
    have keep: "m g = vm_mem s g" if "g \<notin> free_set (vm_pmm s)" "g \<notin> tables R s" for g
      using same [of g] that page(3) ft by metis
    have refs: "(pm_refs (vm_pmm s))[p := 1] ! q = pm_refs (vm_pmm s) ! q"
      if "q \<notin> free_set (vm_pmm s)" for q
      using that page(3) by (metis nth_list_update_neq)
    have fo': "forest R s'"
      by (rule forest_extend [OF fo page(3), where r = r and rs = "ps @ [i]"])
        (simp_all add: s'_def w page(6))
    have "tables R s' \<subseteq> tables R s \<union> free_set (vm_pmm s)"
      using w page(3) by (fastforce simp: tables_def s'_def split: if_splits)
    moreover have "vm_ok R s'"
      using ok fo' page by (simp add: vm_ok_def s'_def)
    ultimately have g: "grows R s s'"
      using page(5,6,7) keep refs by (auto simp: grows_def s'_def)
    have c: "walk (vm_mem s') r (ps @ [i]) = Some p"
      using w [OF r up] by (simp add: s'_def)
    have d: "pte_at (vm_mem s') r' va = pte_at (vm_mem s) r' va" if r': "r' \<in> R" and va: "uva va" for r' va
    proof (rule pte_at_same [OF va r'])
      fix qs assume qs: "upath qs"
      have "walk (vm_mem s) r (ps @ [i]) = None"
        using f e walk_append [of "vm_mem s" r ps "[i]"] by simp
      then show "walk (vm_mem s') r' qs = walk (vm_mem s) r' qs \<or>
          walk (vm_mem s) r' qs = None
          \<and> (\<exists>p. walk (vm_mem s') r' qs = Some p \<and> (\<forall>i<512. vm_mem s' p i = 0))"
        using w [OF r' qs] zero by (auto simp: s'_def)
    next
      fix pt assume pt: "walk (vm_mem s) r' (va_path va) = Some pt"
      have "pt \<noteq> f"
        using forest_inj [OF fo r' r _ upath_snoc_prefix [OF up] pt] va_path_upath [OF va] f up
        by (auto simp: upath_def)
      moreover have "pt \<noteq> p"
        using forest_used [OF fo r' _ pt] va_path_upath [OF va] page(3) by auto
      ultimately show "vm_mem s' pt (PT_INDEX va) = vm_mem s pt (PT_INDEX va)"
        using same by (simp add: s'_def)
    qed
    have o: "walk (vm_mem s') r' qs = walk (vm_mem s) r' qs" if "r' \<in> R" "r' \<noteq> r" "upath qs" for r' qs
      using w [OF that(1,3)] that(2) by (simp add: s'_def)
    have h: "vm_mem s' h = vm_mem s h"
      if "r' \<in> R" "r' \<noteq> r" "upath qs" "walk (vm_mem s) r' qs = Some h" for r' qs h
    proof -
      have "h \<noteq> f"
        using forest_inj [OF fo that(1) r that(3) upath_snoc_prefix [OF up] that(4)] f that(2) by auto
      moreover have "h \<noteq> p" using forest_used [OF fo that(1,3,4)] page(3) by auto
      ultimately show ?thesis using same by (simp add: s'_def)
    qed
    show ?thesis by (rule table [OF a g c d o h])
  qed
qed

lemma map_level_step:
  assumes ok: "vm_ok R s" and r: "r \<in> R" and up: "upath (ps @ [i])"
    and f: "walk (vm_mem s) r ps = Some f"
  obtains (full) "map_level s f i fl = (None, s)" "free_set (vm_pmm s) = {}"
  | (table) g s' where "map_level s f i fl = (Some g, s')" "grows R s s'"
    "walk (vm_mem s') r (ps @ [i]) = Some g"
    "\<And>r' va. r' \<in> R \<Longrightarrow> uva va \<Longrightarrow> pte_at (vm_mem s') r' va = pte_at (vm_mem s) r' va"
    "\<And>r' qs. r' \<in> R \<Longrightarrow> r' \<noteq> r \<Longrightarrow> upath qs \<Longrightarrow> walk (vm_mem s') r' qs = walk (vm_mem s) r' qs"
    "\<And>r' qs g. r' \<in> R \<Longrightarrow> r' \<noteq> r \<Longrightarrow> upath qs \<Longrightarrow> walk (vm_mem s) r' qs = Some g
        \<Longrightarrow> vm_mem s' g = vm_mem s g"
proof (cases "has (vm_mem s f i) PTE_PRESENT")
  case True
  from ok r up f True show ?thesis
  proof (cases rule: map_level_present [where fl = fl])
    case (1 g s')
    then show ?thesis by (rule table)
  qed
next
  case False
  from ok r up f False show ?thesis
  proof (cases rule: map_level_absent [where fl = fl])
    case (table g s')
    then show ?thesis by (rule that(2))
  qed (rule full)
qed

definition same_page :: "u64 \<Rightarrow> u64 \<Rightarrow> bool" where
  "same_page a b \<longleftrightarrow> va_path a = va_path b \<and> PT_INDEX a = PT_INDEX b"

lemma write_leaf:
  assumes ok: "vm_ok R s" and r: "r \<in> R" and va: "uva virt"
    and pt: "walk (vm_mem s) r (va_path virt) = Some pt"
    and s': "s' = s\<lparr>vm_mem := put (vm_mem s) pt (PT_INDEX virt) v\<rparr>"
  shows "grows R s s'"
    and "r' \<in> R \<Longrightarrow> uva va \<Longrightarrow> pte_at (vm_mem s') r' va =
          (if r' = r \<and> same_page va virt then v else pte_at (vm_mem s) r' va)"
    and "r' \<in> R \<Longrightarrow> upath qs \<Longrightarrow> walk (vm_mem s') r' qs = walk (vm_mem s) r' qs"
    and "r' \<in> R \<Longrightarrow> upath qs \<Longrightarrow> walk (vm_mem s) r' qs = Some g \<Longrightarrow> r' \<noteq> r \<or> length qs < 3
        \<Longrightarrow> vm_mem s' g = vm_mem s g"
proof -
  have fo: "forest R s" using ok by (simp add: vm_ok_def)
  note up = va_path_upath [OF va]
  show "vm_mem s' g = vm_mem s g"
    if "r' \<in> R" "upath qs" "walk (vm_mem s) r' qs = Some g" "r' \<noteq> r \<or> length qs < 3"
    using forest_inj [OF fo that(1) r that(2) _ that(3)] up pt that(4) by (auto simp: s' put_def)
  have w: "walk (vm_mem s') r' qs = walk (vm_mem s) r' qs" if "r' \<in> R" "upath qs" for r' qs
    using walk_leaf_write [OF fo r _ _ pt that] up by (simp add: s')
  then show "r' \<in> R \<Longrightarrow> upath qs \<Longrightarrow> walk (vm_mem s') r' qs = walk (vm_mem s) r' qs" .
  have "forest R s'"
    using w by (rule forest_cong [OF fo]) (simp_all add: s')
  moreover have "tables R s' = tables R s"
    unfolding tables_def using w by (intro Collect_cong) (metis (no_types))
  moreover have "pt \<in> tables R s" using pt r up by (auto simp: tables_def)
  ultimately show "grows R s s'"
    using ok by (auto simp: grows_def vm_ok_def s' put_def)
  show "pte_at (vm_mem s') r' va = (if r' = r \<and> same_page va virt then v else pte_at (vm_mem s) r' va)"
    if r': "r' \<in> R" and va': "uva va"
  proof (cases "walk (vm_mem s) r' (va_path va)")
    case None
    then have "\<not> (r' = r \<and> same_page va virt)" using pt by (auto simp: same_page_def)
    then show ?thesis
      using None w [OF r', of "va_path va"] va_path_upath [OF va'] by (auto simp: pte_at_def)
  next
    case (Some g)
    have eq: "(r' = r \<and> same_page va virt) = (g = pt \<and> PT_INDEX va = PT_INDEX virt)"
      using forest_inj [OF fo r' r _ _ Some, of "va_path virt"] va_path_upath [OF va'] up pt Some
      unfolding same_page_def by (metis option.inject)
    have "walk (vm_mem s') r' (va_path va) = Some g"
      using Some w [OF r'] va_path_upath [OF va'] by metis
    then show ?thesis
      unfolding eq by (simp add: pte_at_def Some) (simp add: s' put_if)
  qed
qed

lemma vmm_map_page_in_cases:
  assumes ok: "vm_ok R s" and r: "addr_page pml4 \<in> R" and va: "uva virt"
  obtains (fail) s' where "vmm_map_page_in s pml4 virt phys fl = (Inl EGENERIC, s')" "grows R s s'"
    "free_set (vm_pmm s') = {}"
    "\<And>r' va. r' \<in> R \<Longrightarrow> uva va \<Longrightarrow> pte_at (vm_mem s') r' va = pte_at (vm_mem s) r' va"
    "\<And>r' qs. r' \<in> R \<Longrightarrow> r' \<noteq> addr_page pml4 \<Longrightarrow> upath qs \<Longrightarrow> walk (vm_mem s') r' qs = walk (vm_mem s) r' qs"
    "\<And>r' qs g. r' \<in> R \<Longrightarrow> r' \<noteq> addr_page pml4 \<Longrightarrow> upath qs \<Longrightarrow> walk (vm_mem s) r' qs = Some g
        \<Longrightarrow> vm_mem s' g = vm_mem s g"
  | (mapped) s' where "vmm_map_page_in s pml4 virt phys fl = (Inr (), s')" "grows R s s'"
    "\<And>r' va. r' \<in> R \<Longrightarrow> uva va \<Longrightarrow> pte_at (vm_mem s') r' va =
        (if r' = addr_page pml4 \<and> same_page va virt then leaf_pte phys fl else pte_at (vm_mem s) r' va)"
    "\<And>r' qs. r' \<in> R \<Longrightarrow> r' \<noteq> addr_page pml4 \<Longrightarrow> upath qs \<Longrightarrow> walk (vm_mem s') r' qs = walk (vm_mem s) r' qs"
    "\<And>r' qs g. r' \<in> R \<Longrightarrow> r' \<noteq> addr_page pml4 \<Longrightarrow> upath qs \<Longrightarrow> walk (vm_mem s) r' qs = Some g
        \<Longrightarrow> vm_mem s' g = vm_mem s g"
proof -
  let ?r = "addr_page pml4"
  define i4 i3 i2 where "i4 = PML4_INDEX virt" and "i3 = PDPT_INDEX virt" and "i2 = PD_INDEX virt"
  have up: "upath ([] @ [i4])" "upath ([i4] @ [i3])" "upath ([i4, i3] @ [i2])"
    and path: "va_path virt = [i4, i3] @ [i2]"
    using va_path_upath [OF va] by (auto simp: upath_def va_path_def i4_def i3_def i2_def)
  have w0: "walk (vm_mem s) ?r [] = Some ?r" by simp
  from ok r up(1) w0 show ?thesis
  proof (cases rule: map_level_step [where fl = fl])
    case full
    then show ?thesis
      using fail [of s] grows_refl [OF ok] by (simp add: vmm_map_page_in_def i4_def)
  next
    case l4: (table g4 s4)
    have ok4: "vm_ok R s4" using l4(2) by (simp add: grows_def)
    have w4: "walk (vm_mem s4) ?r [i4] = Some g4" using l4(3) by simp
    from ok4 r up(2) w4 show ?thesis
    proof (cases rule: map_level_step [where fl = fl])
      case full
      then show ?thesis
        using fail [of s4] l4 by (simp add: vmm_map_page_in_def i4_def i3_def)
    next
      case l3: (table g3 s3)
      have ok3: "vm_ok R s3" using l3(2) by (simp add: grows_def)
      have w3: "walk (vm_mem s3) ?r [i4, i3] = Some g3" using l3(3) by simp
      from ok3 r up(3) w3 show ?thesis
      proof (cases rule: map_level_step [where fl = fl])
        case full
        then show ?thesis
          using fail [of s3] l4 l3 grows_trans [OF l4(2) l3(2)]
          by (simp add: vmm_map_page_in_def i4_def i3_def i2_def)
      next
        case l2: (table g2 s2)
        have ok2: "vm_ok R s2" using l2(2) by (simp add: grows_def)
        have w2: "walk (vm_mem s2) ?r (va_path virt) = Some g2" using l2(3) path by simp
        note leaf = write_leaf [OF ok2 r va w2 refl, where v = "leaf_pte phys fl"]
        have "vmm_map_page_in s pml4 virt phys fl = (Inr (),
            s2\<lparr>vm_mem := put (vm_mem s2) g2 (PT_INDEX virt) (leaf_pte phys fl)\<rparr>)"
          using l4(1) l3(1) l2(1) by (simp add: vmm_map_page_in_def i4_def i3_def i2_def)
        then show ?thesis
          using mapped leaf(2,3,4) l4(4,5,6) l3(4,5,6) l2(4,5,6)
            grows_trans [OF grows_trans [OF grows_trans [OF l4(2) l3(2)] l2(2)] leaf(1)]
          by simp
      qed
    qed
  qed
qed

section \<open>New address spaces\<close>

lemma walk_frame:
  assumes fo: "forest R s" and r: "r \<in> R" and qs: "upath qs"
    and same: "\<And>g. g \<notin> free_set (vm_pmm s) \<Longrightarrow> mem' g = vm_mem s g"
  shows "walk mem' r qs = walk (vm_mem s) r qs"
  using qs
proof (induction qs rule: rev_induct)
  case (snoc j qs)
  have "mem' g = vm_mem s g" if "walk (vm_mem s) r qs = Some g" for g
    using same forest_used [OF fo r upath_snoc_prefix [OF snoc.prems] that] by blast
  then show ?case
    using snoc.IH [OF upath_snoc_prefix [OF snoc.prems]]
    by (auto simp: walk_append split: option.split)
qed simp

lemma pte_at_frame:
  assumes fo: "forest R s" and r: "r \<in> R" and va: "uva va"
    and same: "\<And>g. g \<notin> free_set (vm_pmm s) \<Longrightarrow> mem' g = vm_mem s g"
  shows "pte_at mem' r va = pte_at (vm_mem s) r va"
proof -
  have up: "upath (va_path va)" using va_path_upath [OF va] by blast
  have "mem' g = vm_mem s g" if "walk (vm_mem s) r (va_path va) = Some g" for g
    using same forest_used [OF fo r up that] by blast
  then show ?thesis
    using walk_frame [OF fo r up same] by (simp add: pte_at_def split: option.split)
qed

lemma create_address_space_cases:
  assumes ok: "vm_ok R s"
  obtains (none) "vmm_create_address_space s = (0, s)" "free_set (vm_pmm s) = {}"
  | (space) n s' where "vmm_create_address_space s = (page_addr n, s')" "page_addr n \<noteq> 0"
      "addr_page (page_addr n) = n" "n \<notin> R" "vm_ok (insert n R) s'"
      "\<And>va. uva va \<Longrightarrow> pte_at (vm_mem s') n va = 0"
      "\<And>r va. r \<in> R \<Longrightarrow> uva va \<Longrightarrow> pte_at (vm_mem s') r va = pte_at (vm_mem s) r va"
      "\<And>r qs. r \<in> R \<Longrightarrow> upath qs \<Longrightarrow> walk (vm_mem s') r qs = walk (vm_mem s) r qs"
      "\<And>g. g \<noteq> n \<Longrightarrow> vm_mem s' g = vm_mem s g"
proof -
  have pok: "pmm_ok (vm_pmm s)" and fo: "forest R s" using ok by (simp_all add: vm_ok_def)
  from pok show ?thesis
  proof (cases rule: alloc_page_spec)
    case none
    then show ?thesis using that(1) by (simp add: vmm_create_address_space_def)
  next
    case (page n pm)
    define s' where "s' = snd (vmm_create_address_space s)"
    have n: "addr_page (page_addr n) = n" using vm_free_page_bound [OF ok page(3)] by simp
    have eq: "vmm_create_address_space s = (page_addr n, s')" and pm: "vm_pmm s' = pm"
      using page(1,2) by (simp_all add: s'_def vmm_create_address_space_def)
    have same: "vm_mem s' g = vm_mem s g" if "g \<noteq> n" for g
      using page(1,2) n that by (simp add: s'_def vmm_create_address_space_def fill_pml4_def)
    have zero: "vm_mem s' n i = 0" if "i < 256" for i
      using page(1,2) n that by (simp add: s'_def vmm_create_address_space_def fill_pml4_def)
    have same': "vm_mem s' g = vm_mem s g" if "g \<notin> free_set (vm_pmm s)" for g
      using that page(3) same [of g] by auto
    have w: "walk (vm_mem s') r qs = walk (vm_mem s) r qs" if "r \<in> R" "upath qs" for r qs
      using walk_frame [OF fo that same'] .
    have wn: "walk (vm_mem s') n qs = (if qs = [] then Some n else None)" if "upath qs" for qs
      using that zero by (cases qs) (auto simp: upath_def has_def)
    have "n \<notin> R" using forest_used [OF fo, of n "[]" n] page(3) by (auto simp: upath_def)
    have free: "free_set (vm_pmm s') = free_set (vm_pmm s) - {n}" by (simp add: pm page(6))
    have used: "f \<notin> free_set (vm_pmm s) " if "r \<in> R" "upath ps" "walk (vm_mem s') r ps = Some f" for r ps f
      using forest_used [OF fo that(1,2)] that w by metis
    have "forest (insert n R) s'"
      unfolding forest_def
    proof (intro conjI ballI allI impI)
      fix r r' ps qs f
      assume a: "r \<in> insert n R" "r' \<in> insert n R"
        "upath ps \<and> upath qs \<and> walk (vm_mem s') r ps = Some f \<and> walk (vm_mem s') r' qs = Some f"
      have "r = n \<longleftrightarrow> f = n" "r' = n \<longleftrightarrow> f = n"
        using a wn used page(3) by (auto split: if_splits)
      then show "r = r'" "ps = qs"
        using a wn w forest_inj [OF fo, of r r' ps qs f] by (auto split: if_splits)
    next
      fix r ps f assume a: "r \<in> insert n R" "upath ps \<and> walk (vm_mem s') r ps = Some f"
      then show "f \<notin> free_set (vm_pmm s')"
        using wn used free by (auto split: if_splits)
    qed
    then have "vm_ok (insert n R) s'" using ok page by (simp add: vm_ok_def pm)
    moreover have "pte_at (vm_mem s') n va = 0" if "uva va" for va
      using wn [of "va_path va"] va_path_upath [OF that] by (auto simp: pte_at_def)
    moreover have "pte_at (vm_mem s') r va = pte_at (vm_mem s) r va" if "r \<in> R" "uva va" for r va
      using pte_at_frame [OF fo that same'] .
    ultimately show ?thesis using that(2) [OF eq page(2) n \<open>n \<notin> R\<close>] w same by blast
  qed
qed

section \<open>Indices of an address\<close>

lemma bit_large:
  assumes "i < 512" "9 \<le> n"
  shows "\<not> bit (i :: nat) n"
proof -
  have "take_bit 9 i = i" using assms(1) by (simp add: take_bit_nat_eq_self)
  then show ?thesis using assms(2) bit_take_bit_iff [of 9 i n] by auto
qed

lemma mask_1FF: "(0x1FF :: u64) = mask 9"
  by (simp add: mask_eq_exp_minus_1)

lemma va_of_words:
  assumes i: "i4 < 512" "i3 < 512" "i2 < 512" "i1 < 512"
  shows "drop_bit 39 (va_of i4 i3 i2 i1) AND 0x1FF = word_of_nat i4"
    "drop_bit 30 (va_of i4 i3 i2 i1) AND 0x1FF = word_of_nat i3"
    "drop_bit 21 (va_of i4 i3 i2 i1) AND 0x1FF = word_of_nat i2"
    "drop_bit 12 (va_of i4 i3 i2 i1) AND 0x1FF = word_of_nat i1"
  unfolding va_of_def mask_1FF
  by ((rule bit_word_eqI, rename_tac n, case_tac "n < 9";
      simp add: bit_simps bit_large [OF i(1)] bit_large [OF i(2)] bit_large [OF i(3)] bit_large [OF i(4)])+)

lemma va_of_index:
  assumes "i4 < 512" "i3 < 512" "i2 < 512" "i1 < 512"
  shows "va_path (va_of i4 i3 i2 i1) = [i4, i3, i2]" "PT_INDEX (va_of i4 i3 i2 i1) = i1"
  using assms
  by (simp_all add: va_path_def PML4_INDEX_def PDPT_INDEX_def PD_INDEX_def PT_INDEX_def
      va_of_words [OF assms] unat_of_nat)

definition entry :: "phys_mem \<Rightarrow> nat \<Rightarrow> nat \<times> nat \<times> nat \<times> nat \<Rightarrow> u64" where
  "entry mem r x = (case x of (i4, i3, i2, i1) \<Rightarrow> pte_at mem r (va_of i4 i3 i2 i1))"

definition uidx :: "nat \<times> nat \<times> nat \<times> nat \<Rightarrow> bool" where
  "uidx x = (case x of (i4, i3, i2, i1) \<Rightarrow> i4 < 256 \<and> i3 < 512 \<and> i2 < 512 \<and> i1 < 512)"

lemma entry_walk:
  assumes "uidx (i4, i3, i2, i1)"
  shows "entry mem r (i4, i3, i2, i1) = (case walk mem r [i4, i3, i2] of None \<Rightarrow> 0 | Some pt \<Rightarrow> mem pt i1)"
proof -
  have i: "i4 < 512" "i3 < 512" "i2 < 512" "i1 < 512" using assms by (simp_all add: uidx_def)
  show ?thesis by (simp only: entry_def prod.case pte_at_def va_of_index [OF i])
qed

lemma uidx_uva: "uidx (i4, i3, i2, i1) \<Longrightarrow> uva (va_of i4 i3 i2 i1)"
  using va_of_index(1) [of i4 i3 i2 i1] by (simp add: uidx_def uva_def va_path_def)

lemma same_page_idx:
  assumes "uidx (i4, i3, i2, i1)" "uidx (j4, j3, j2, j1)"
  shows "same_page (va_of i4 i3 i2 i1) (va_of j4 j3 j2 j1) \<longleftrightarrow> (i4, i3, i2, i1) = (j4, j3, j2, j1)"
  using assms by (auto simp: same_page_def uidx_def va_of_index)

lemma va_of_cover:
  assumes "uva va"
  shows "\<exists>x. uidx x \<and> pte_at mem r va = entry mem r x"
proof (intro exI conjI)
  let ?x = "(PML4_INDEX va, PDPT_INDEX va, PD_INDEX va, PT_INDEX va)"
  show u: "uidx ?x"
    using assms va_path_upath [OF assms] PT_INDEX_lt
    by (simp add: uidx_def uva_def upath_def va_path_def)
  show "pte_at mem r va = entry mem r ?x"
    unfolding entry_walk [OF u] by (simp add: pte_at_def va_path_def del: walk.simps)
qed

section \<open>Example\<close>

text \<open>A process with one page-table path whose only page is in swap slot 5.\<close>

definition demo_mem :: phys_mem where
  "demo_mem f i = (if i = 0 \<and> f \<in> {1, 2, 3} then page_addr (f + 1) OR 7
                   else if i = 0 \<and> f = 4 then swap_pte 5 else 0)"

definition demo_vm :: vm where
  "demo_vm = \<lparr>vm_pmm = demo_pmm\<lparr>pm_bitmap := [0x1F, 0], pm_free := 11, pm_hint := 5,
                pm_refs := [0, 1, 1, 1, 1] @ replicate 11 0\<rparr>,
              vm_mem = demo_mem, vm_kpml4 = 0,
              vm_swap = \<lparr>sw_start = 0, sw_bitmap = [], sw_used = 0\<rparr>\<rparr>"

lemma walk_demo:
  assumes "upath ps"
  shows "walk demo_mem 1 ps = (if set ps \<subseteq> {0} then Some (Suc (length ps)) else None)"
proof -
  have n: "next_table (page_addr k OR 7) = k" "has (page_addr k OR 7) PTE_PRESENT"
    if "k < 2 ^ 40" for k
  proof -
    have "(7 :: u64) = intermediate_flags PTE_USER"
      by (simp add: intermediate_flags_def has_def pte_bits)
    then show "next_table (page_addr k OR 7) = k" "has (page_addr k OR 7) PTE_PRESENT"
      using next_table_page [OF that, of PTE_USER] present_intermediate [of "page_addr k" PTE_USER]
      by simp_all
  qed
  consider "ps = []" | a where "ps = [a]" | a b where "ps = [a, b]" | a b c where "ps = [a, b, c]"
    using assms by (cases ps rule: list.exhaust [case_names N C])
      (auto simp: upath_def le_Suc_eq length_Suc_conv numeral_eq_Suc)
  then show ?thesis
    by cases (auto simp: demo_mem_def n)
qed

lemma demo_vm_ok: "vm_ok {1} demo_vm"
proof -
  have p: "pmm_ok (vm_pmm demo_vm)"
    by (simp add: pmm_ok_def demo_vm_def demo_pmm_def bitmap_bits_def n_clear_def bitmap_test_def
        upt_conv_Cons)
  have fr: "f \<notin> free_set (vm_pmm demo_vm)" if "f \<in> {1, 2, 3, 4}" for f
    using that by (auto simp: free_set_def demo_vm_def demo_pmm_def bitmap_test_def)
  have w: "walk (vm_mem demo_vm) 1 ps = (if set ps \<subseteq> {0} then Some (Suc (length ps)) else None)"
    if "upath ps" for ps
    using walk_demo [OF that] by (simp add: demo_vm_def)
  have eq: "ps = replicate (length ps) 0" if "set ps \<subseteq> {0 :: nat}" for ps
    using that by (induction ps) auto
  have "ps = qs" if "set ps \<subseteq> {0 :: nat}" "set qs \<subseteq> {0}" "length ps = length qs" for ps qs
    using eq [OF that(1)] eq [OF that(2)] that(3) by simp
  moreover have "Suc (length ps) \<in> {1, 2, 3, 4}" if "upath ps" for ps
    using that by (auto simp: upath_def le_Suc_eq numeral_eq_Suc)
  ultimately have "forest {1} demo_vm"
    unfolding forest_def using w fr by (auto split: if_splits)
  then show ?thesis using p by (simp add: vm_ok_def demo_vm_def demo_pmm_def)
qed

section \<open>Properties\<close>

text \<open>C3: Mapping a user page refines a finite-map update: if vmm_map_page_in succeeds, the entry of
that page in that address space becomes the requested one and the entries of all other user
pages in all address spaces stay as they were; if it fails, no entry of any user page changes
and the physical allocator has no free page left. The page tables remain a forest.\<close>

theorem vmm_map_refines:
  assumes "vm_ok R s" "addr_page pml4 \<in> R" "uva virt"
  shows "case vmm_map_page_in s pml4 virt phys fl of (res, s') \<Rightarrow>
      vm_ok R s'
      \<and> (\<forall>r\<in>R. \<forall>va. uva va \<longrightarrow> pte_at (vm_mem s') r va =
           (if res = Inr () \<and> r = addr_page pml4 \<and> same_page va virt then leaf_pte phys fl
            else pte_at (vm_mem s) r va))
      \<and> (res \<noteq> Inr () \<longrightarrow> free_set (vm_pmm s') = {})"
  using assms
  by (cases rule: vmm_map_page_in_cases [where phys = phys and fl = fl])
    (simp_all add: grows_def)

theorem vmm_map_refines_witness:
  "vm_ok {1} demo_vm \<and> uva 0x1000
   \<and> vm_ok {1} (snd (vmm_map_page_in demo_vm (page_addr 1) 0x1000 (page_addr 9) PTE_USER))"
proof -
  have u: "uva 0x1000" by (simp add: uva_def PML4_INDEX_def)
  then show ?thesis
    using vmm_map_refines [OF demo_vm_ok, of "page_addr 1" "0x1000" "page_addr 9" PTE_USER] demo_vm_ok
    by (auto split: prod.splits)
qed

end
