(* ===== verification/User_Pages.thy ===== *)
theory User_Pages
  imports Vmm
begin

text \<open>Pages of the lower half of the address space: how the table indices of an address determine its
page, ranges of pages, and the step that all mapping calls share, allocating a frame, clearing it and
entering it in the page tables.\<close>

section \<open>Addresses and pages\<close>

definition canon :: "u64 \<Rightarrow> bool" where
  "canon va \<longleftrightarrow> unat va < 2 ^ 47"

definition vpn :: "u64 \<Rightarrow> nat" where
  "vpn va = unat va div 4096"

lemma index_nat: "unat (drop_bit k w AND 0x1FF :: u64) = unat w div 2 ^ k mod 2 ^ 9"
proof -
  have "drop_bit k w AND 0x1FF = take_bit 9 (drop_bit k w)"
    by (simp add: mask_1FF take_bit_eq_mask)
  then show ?thesis
    using unsigned_less [where ?'a = nat, of w]
    by (simp only: unsigned_take_bit_eq unsigned_drop_bit_eq) (simp add: take_bit_eq_mod drop_bit_eq_div)
qed

lemma indices_vpn:
  "PT_INDEX va = vpn va mod 512" "PD_INDEX va = vpn va div 512 mod 512"
  "PDPT_INDEX va = vpn va div 512 div 512 mod 512" "PML4_INDEX va = vpn va div 512 div 512 div 512 mod 512"
  unfolding PT_INDEX_def PD_INDEX_def PDPT_INDEX_def PML4_INDEX_def index_nat vpn_def
  by (simp_all flip: div_mult2_eq)

lemma canon_uva: "canon va \<Longrightarrow> uva va"
  unfolding canon_def uva_def indices_vpn vpn_def by (simp flip: div_mult2_eq add: less_mult_imp_div_less)

lemma digits_eq:
  fixes x y :: nat
  assumes "x mod 512 = y mod 512" "x div 512 mod 512 = y div 512 mod 512"
    "x div 512 div 512 mod 512 = y div 512 div 512 mod 512"
    "x div 512 div 512 div 512 mod 512 = y div 512 div 512 div 512 mod 512"
    "x < 2 ^ 36" "y < 2 ^ 36"
  shows "x = y"
proof -
  have top: "z div 512 div 512 div 512 mod 512 = z div 512 div 512 div 512" if "z < 2 ^ 36" for z :: nat
    using that by (simp flip: div_mult2_eq add: less_mult_imp_div_less)
  have "x div 512 div 512 div 512 = y div 512 div 512 div 512" using assms top by metis
  then have "x div 512 div 512 = y div 512 div 512" using assms(3) by (metis div_mult_mod_eq)
  then have "x div 512 = y div 512" using assms(2) by (metis div_mult_mod_eq)
  then show ?thesis using assms(1) by (metis div_mult_mod_eq)
qed

lemma same_page_vpn:
  assumes "canon a" "canon b"
  shows "same_page a b \<longleftrightarrow> vpn a = vpn b"
proof
  assume "same_page a b"
  then show "vpn a = vpn b"
    unfolding same_page_def va_path_def list.inject indices_vpn
    by - (rule digits_eq, use assms in \<open>auto simp: canon_def vpn_def\<close>)
next
  assume "vpn a = vpn b"
  then show "same_page a b" by (simp add: same_page_def va_path_def indices_vpn)
qed

text \<open>A page-aligned range of n pages inside the lower half.\<close>

definition user_range :: "u64 \<Rightarrow> nat \<Rightarrow> bool" where
  "user_range virt n \<longleftrightarrow> unat virt mod 4096 = 0 \<and> unat virt + n * 4096 \<le> 2 ^ 47"

definition in_range :: "u64 \<Rightarrow> u64 \<Rightarrow> nat \<Rightarrow> bool" where
  "in_range va virt n \<longleftrightarrow> unat virt \<le> unat va \<and> unat va < unat virt + n * 4096"

lemma range_page:
  assumes u: "user_range virt n" and i: "i < n"
  shows "unat (virt + word_of_nat i * 4096) = unat virt + i * 4096"
    "canon (virt + word_of_nat i * 4096)" "vpn (virt + word_of_nat i * 4096) = vpn virt + i"
proof -
  have b: "unat virt + i * 4096 < 2 ^ 47" using u i by (simp add: user_range_def)
  have "virt + word_of_nat i * 4096 = word_of_nat (unat virt + i * 4096)" by simp
  then show a: "unat (virt + word_of_nat i * 4096) = unat virt + i * 4096"
    by (simp only: unat_of_nat) (use b in \<open>simp add: take_bit_nat_eq_self\<close>)
  show "canon (virt + word_of_nat i * 4096)" using a b by (simp add: canon_def)
  show "vpn (virt + word_of_nat i * 4096) = vpn virt + i" unfolding vpn_def a by simp
qed

lemma in_range_vpn:
  assumes "user_range virt n"
  shows "in_range va virt n \<longleftrightarrow> vpn virt \<le> vpn va \<and> vpn va < vpn virt + n"
proof -
  obtain k where k: "unat virt = k * 4096" using assms by (auto simp: user_range_def)
  show ?thesis unfolding in_range_def vpn_def k
    by (simp add: less_eq_div_iff_mult_less_eq div_less_iff_less_mult algebra_simps)
qed

lemma in_range_same_page:
  assumes u: "user_range virt n" and va: "canon va"
  shows "in_range va virt n \<longleftrightarrow> (\<exists>i<n. same_page va (virt + word_of_nat i * 4096))"
proof -
  have "same_page va (virt + word_of_nat i * 4096) \<longleftrightarrow> vpn va = vpn virt + i" if "i < n" for i
    using same_page_vpn [OF va] range_page [OF u that] by simp
  then have "(\<exists>i<n. same_page va (virt + word_of_nat i * 4096)) \<longleftrightarrow> (\<exists>i<n. vpn va = vpn virt + i)"
    by blast
  then show ?thesis unfolding in_range_vpn [OF u] by (metis add_less_cancel_left le_add1 le_Suc_ex)
qed

lemma range_pages_distinct:
  assumes "user_range virt n" "i < n" "j < n"
  shows "same_page (virt + word_of_nat i * 4096) (virt + word_of_nat j * 4096) \<longleftrightarrow> i = j"
  using range_page [OF assms(1,2)] range_page [OF assms(1,3)] same_page_vpn by simp

section \<open>A fresh frame\<close>

lemma grows_frame:
  assumes ok: "vm_ok R s" and same: "\<And>g. g \<notin> free_set (vm_pmm s) \<Longrightarrow> mem' g = vm_mem s g"
    and pm: "pmm_ok pm" "pm_total pm = pm_total (vm_pmm s)" "free_set pm \<subseteq> free_set (vm_pmm s)"
    and refs: "\<And>q. q < pm_total (vm_pmm s) \<Longrightarrow> q \<notin> free_set (vm_pmm s) \<Longrightarrow> pm_refs pm ! q = pm_refs (vm_pmm s) ! q"
  shows "grows R s (s\<lparr>vm_pmm := pm, vm_mem := mem'\<rparr>)" "tables R (s\<lparr>vm_pmm := pm, vm_mem := mem'\<rparr>) = tables R s"
    "\<And>r va. r \<in> R \<Longrightarrow> uva va \<Longrightarrow> pte_at mem' r va = pte_at (vm_mem s) r va"
    "\<And>r qs. r \<in> R \<Longrightarrow> upath qs \<Longrightarrow> walk mem' r qs = walk (vm_mem s) r qs"
proof -
  let ?s = "s\<lparr>vm_pmm := pm, vm_mem := mem'\<rparr>"
  have fo: "forest R s" using ok by (simp add: vm_ok_def)
  have w: "walk mem' r qs = walk (vm_mem s) r qs" if "r \<in> R" "upath qs" for r qs
    using walk_frame [OF fo that same] by blast
  then show "\<And>r qs. r \<in> R \<Longrightarrow> upath qs \<Longrightarrow> walk mem' r qs = walk (vm_mem s) r qs" .
  show t: "tables R ?s = tables R s" unfolding tables_def using w by (auto intro!: bexI exI)
  have "forest R ?s" by (rule forest_cong [OF fo]) (use w pm in auto)
  then have "vm_ok R ?s" using ok pm by (simp add: vm_ok_def)
  then show "grows R s ?s" using pm refs same t by (auto simp: grows_def)
  show "pte_at mem' r va = pte_at (vm_mem s) r va" if "r \<in> R" "uva va" for r va
    using pte_at_frame [OF fo that same] by blast
qed

lemma tables_used: "vm_ok R s \<Longrightarrow> f \<in> tables R s \<Longrightarrow> f \<notin> free_set (vm_pmm s)"
  using forest_used unfolding vm_ok_def tables_def by blast

lemma grows_ok: "grows R s s' \<Longrightarrow> vm_ok R s'"
  by (simp add: grows_def)

lemma grows_keeps:
  assumes "grows R s s'" "g \<notin> free_set (vm_pmm s)" "g \<notin> tables R s"
  shows "vm_mem s' g = vm_mem s g" "g \<notin> free_set (vm_pmm s')" "g \<notin> tables R s'"
  using assms unfolding grows_def by auto

text \<open>Allocating a frame, filling it with x and mapping it at virt.\<close>

definition load_page :: "phys_mem \<Rightarrow> nat \<Rightarrow> (nat \<Rightarrow> u64) \<Rightarrow> phys_mem" where
  "load_page mem f x = mem(f := (\<lambda>i. if i < 512 then x i else mem f i))"

lemma zero_page_load: "zero_page mem f = load_page mem f (\<lambda>_. 0)"
  by (simp add: zero_page_def load_page_def)

lemma fresh_fill:
  fixes x :: "nat \<Rightarrow> u64"
  assumes ok: "vm_ok R s" and a: "pmm_alloc_page (vm_pmm s) = (page_addr p, pm)" "p \<in> free_set (vm_pmm s)"
    "pmm_ok pm" "pm_total pm = pm_total (vm_pmm s)" "free_set pm = free_set (vm_pmm s) - {p}"
    "pm_refs pm = (pm_refs (vm_pmm s))[p := 1]"
  defines "s1 \<equiv> s\<lparr>vm_pmm := pm, vm_mem := load_page (vm_mem s) p x\<rparr>"
  shows "grows R s s1" "p \<notin> free_set (vm_pmm s1)" "p \<notin> tables R s1" "\<And>i. i < 512 \<Longrightarrow> vm_mem s1 p i = x i"
    "\<And>r va. r \<in> R \<Longrightarrow> uva va \<Longrightarrow> pte_at (vm_mem s1) r va = pte_at (vm_mem s) r va"
    "tables R s1 = tables R s" "\<And>r qs. r \<in> R \<Longrightarrow> upath qs \<Longrightarrow> walk (vm_mem s1) r qs = walk (vm_mem s) r qs"
proof -
  have same: "load_page (vm_mem s) p x g = vm_mem s g" if "g \<notin> free_set (vm_pmm s)" for g
    using that a(2) by (auto simp: load_page_def)
  have refs: "pm_refs pm ! q = pm_refs (vm_pmm s) ! q" if "q \<notin> free_set (vm_pmm s)" for q
    using that a(2,6) by (metis nth_list_update_neq)
  have sub: "free_set pm \<subseteq> free_set (vm_pmm s)" using a(5) by blast
  note g = grows_frame [OF ok same a(3,4) sub refs]
  show "grows R s s1" "tables R s1 = tables R s" using g(1,2) by (simp_all add: s1_def)
  show "p \<notin> free_set (vm_pmm s1)" using a(5) by (simp add: s1_def)
  show "p \<notin> tables R s1" using g(2) tables_used [OF ok] a(2) by (auto simp: s1_def)
  show "vm_mem s1 p i = x i" if "i < 512" for i using that by (simp add: s1_def load_page_def)
  show "pte_at (vm_mem s1) r va = pte_at (vm_mem s) r va" if "r \<in> R" "uva va" for r va
    using g(3) that by (simp add: s1_def)
  show "walk (vm_mem s1) r qs = walk (vm_mem s) r qs" if "r \<in> R" "upath qs" for r qs
    using g(4) that by (simp add: s1_def)
qed

section \<open>Entries, frames and freed pages\<close>

lemma next_table_or: "b AND PTE_ADDR_MASK = 0 \<Longrightarrow> next_table (a OR b) = next_table a"
  by (simp add: next_table_def bit.conj_disj_distrib2)

lemma next_table_mask: "next_table (e AND PTE_ADDR_MASK) = next_table e"
  by (simp add: next_table_def and.assoc)

lemma next_table_page_addr: "p < 2 ^ 40 \<Longrightarrow> next_table (page_addr p) = p"
  using page_addr_masked by (simp add: next_table_def)

lemma pte_at_SomeD:
  assumes "has (pte_at mem r a) b"
  obtains pt where "walk mem r (va_path a) = Some pt" "pte_at mem r a = mem pt (PT_INDEX a)"
  using assms by (auto simp: pte_at_def split: option.splits)

lemma vm_ok_pmm:
  assumes "vm_ok R v" "pmm_ok pm" "free_set pm \<subseteq> free_set (vm_pmm v)" "pm_total pm = pm_total (vm_pmm v)"
  shows "vm_ok R (v\<lparr>vm_pmm := pm\<rparr>)"
proof -
  have "forest R (v\<lparr>vm_pmm := pm\<rparr>)"
    by (rule forest_cong [of R v]) (use assms in \<open>auto simp: vm_ok_def\<close>)
  then show ?thesis using assms by (simp add: vm_ok_def)
qed

lemma free_page_release:
  assumes ok: "pmm_ok m" and q: "0 < q" "q < pm_total m" "q \<notin> free_set m" "pm_refs m ! q = 1"
  obtains m' where "pmm_free_page m (page_addr q) = Some m'" "pmm_ok m'" "free_set m' = insert q (free_set m)"
    "pm_total m' = pm_total m" "\<And>k. k \<noteq> q \<Longrightarrow> pm_refs m' ! k = pm_refs m ! k"
proof -
  define m' where "m' = m\<lparr>pm_refs := (pm_refs m)[q := 0], pm_bitmap := bitmap_clear (pm_bitmap m) q, pm_free := pm_free m + 1\<rparr>"
  have b: "q < bitmap_bits (pm_bitmap m)" "q < length (pm_refs m)" "q < 2 ^ 52" "pm_total m \<le> bitmap_bits (pm_bitmap m)"
    using ok q(2) by (auto simp: pmm_ok_def)
  have t: "bitmap_test (pm_bitmap m) q" using q(2,3) by (auto simp: free_set_def clear_below_def)
  have f: "pmm_free_page m (page_addr q) = Some m'"
    using q b t by (simp add: pmm_free_page_def Let_def m'_def)
  have "free_set m' = insert q (free_set m)"
    using b q(2) bitmap_test_clear [of q "pm_bitmap m"]
    by (auto simp: m'_def free_set_def clear_below_def)
  then show ?thesis using that [OF f free_page_ok [OF ok f]] by (simp add: m'_def)
qed

lemma vm_ok_release:
  assumes ok: "vm_ok R v" and f: "f \<notin> tables R v"
    and pm: "pmm_ok pm" "free_set pm = insert f (free_set (vm_pmm v))" "pm_total pm = pm_total (vm_pmm v)"
  shows "vm_ok R (v\<lparr>vm_pmm := pm\<rparr>)"
proof -
  have "g \<noteq> f" if "r \<in> R" "upath ps" "walk (vm_mem v) r ps = Some g" for r ps g
    using f that by (auto simp: tables_def)
  then have "forest R (v\<lparr>vm_pmm := pm\<rparr>)"
    using ok pm(2) unfolding forest_def vm_ok_def by auto
  then show ?thesis using ok pm by (simp add: vm_ok_def)
qed

lemma vm_ok_swap: "vm_ok R (v\<lparr>vm_swap := w\<rparr>) = vm_ok R v"
  by (simp add: vm_ok_def forest_def)

section \<open>An example\<close>

lemma demo_alloc:
  "pmm_alloc_page (vm_pmm demo_vm) = (page_addr 5, (take_page (vm_pmm demo_vm) 5)\<lparr>pm_hint := 6\<rparr>)"
  by (simp add: pmm_alloc_page_def demo_vm_def demo_pmm_def bitmap_test_def upt_conv_Cons)

definition demo_cow_vm :: vm where
  "demo_cow_vm = demo_vm\<lparr>vm_pmm := (take_page (vm_pmm demo_vm) 5)\<lparr>pm_hint := 6\<rparr>,
     vm_mem := put (zero_page demo_mem 5) 4 1 (page_addr 5 OR 0xA05)\<rparr>"

lemma demo_cow_facts:
  "vm_ok {1} demo_cow_vm" "5 \<notin> tables {1} demo_cow_vm" "5 \<notin> free_set (vm_pmm demo_cow_vm)"
  "pte_at (vm_mem demo_cow_vm) 1 0x1000 = page_addr 5 OR 0xA05"
proof -
  have dv: "vm_mem demo_vm = demo_mem" by (simp add: demo_vm_def)
  have five: "5 \<in> free_set (vm_pmm demo_vm)"
    by (simp add: free_set_def demo_vm_def demo_pmm_def bitmap_test_def)
  have pok: "pmm_ok (vm_pmm demo_vm)" using demo_vm_ok by (simp add: vm_ok_def)
  define v1 where "v1 = demo_vm\<lparr>vm_pmm := (take_page (vm_pmm demo_vm) 5)\<lparr>pm_hint := 6\<rparr>, vm_mem := zero_page demo_mem 5\<rparr>"
  have al: "\<exists>pm. pmm_alloc_page (vm_pmm demo_vm) = (page_addr 5, pm) \<and> pm = (take_page (vm_pmm demo_vm) 5)\<lparr>pm_hint := 6\<rparr>
      \<and> pmm_ok pm \<and> pm_total pm = pm_total (vm_pmm demo_vm) \<and> free_set pm = free_set (vm_pmm demo_vm) - {5}
      \<and> pm_refs pm = (pm_refs (vm_pmm demo_vm))[5 := 1]"
    using pok
  proof (cases rule: alloc_page_spec)
    case (page p m')
    have "page_addr p = page_addr 5" using page(1) demo_alloc by simp
    then have "addr_page (page_addr p) = addr_page (page_addr 5)" by (rule arg_cong)
    then have "p = 5" using vm_free_page_bound [OF demo_vm_ok page(3)] by simp
    then show ?thesis using page demo_alloc by auto
  qed (use five in auto)
  then have a: "pmm_ok ((take_page (vm_pmm demo_vm) 5)\<lparr>pm_hint := 6\<rparr>)"
    "pm_total ((take_page (vm_pmm demo_vm) 5)\<lparr>pm_hint := 6\<rparr>) = pm_total (vm_pmm demo_vm)"
    "free_set ((take_page (vm_pmm demo_vm) 5)\<lparr>pm_hint := 6\<rparr>) = free_set (vm_pmm demo_vm) - {5}"
    "pm_refs ((take_page (vm_pmm demo_vm) 5)\<lparr>pm_hint := 6\<rparr>) = (pm_refs (vm_pmm demo_vm))[5 := 1]"
    by auto
  note fr = fresh_fill [OF demo_vm_ok demo_alloc five a, where x = "\<lambda>_. 0", folded zero_page_load, unfolded dv, folded v1_def]
  have u: "uva 0x1000" by (simp add: uva_def PML4_INDEX_def)
  have i: "va_path 0x1000 = [0, 0, 0]" "PT_INDEX 0x1000 = 1"
    by (simp_all add: va_path_def PML4_INDEX_def PDPT_INDEX_def PD_INDEX_def PT_INDEX_def)
  have up: "upath [0, 0, 0]" by (simp add: upath_def)
  have w: "walk (vm_mem v1) 1 (va_path 0x1000) = Some 4"
    using fr(7) [of 1 "[0, 0, 0]"] up walk_demo [OF up] unfolding i dv by simp
  have d: "demo_cow_vm = v1\<lparr>vm_mem := put (vm_mem v1) 4 (PT_INDEX 0x1000) (page_addr 5 OR 0xA05)\<rparr>"
    by (simp add: demo_cow_vm_def v1_def i)
  note wl = write_leaf [OF grows_ok [OF fr(1)] insertI1 u w d]
  show "vm_ok {1} demo_cow_vm" using grows_ok wl(1) by blast
  show "5 \<notin> tables {1} demo_cow_vm" "5 \<notin> free_set (vm_pmm demo_cow_vm)"
    using grows_keeps [OF wl(1) fr(2,3)] by auto
  show "pte_at (vm_mem demo_cow_vm) 1 0x1000 = page_addr 5 OR 0xA05"
    using wl(2) [of 1 "0x1000"] u by (simp add: same_page_def)
qed

end
