(* ===== verification/Bcache.thy ===== *)
theory Bcache
  imports Prelude
begin

text \<open>The write-back block cache, src/kernel/src/blk/bcache.c: a fixed array of entries threaded by a
doubly linked LRU list and by singly linked hash chains, over a block device. Block contents are a
type parameter. The device is an array of blocks with a script of faults: a request takes the next
element of the script and fails if that is a fault, which for a read also says what the failed
transfer left in the buffer. The chain walks are partial functions, so that a walk that does not
end is the value None.\<close>

section \<open>State\<close>

definition BCACHE_ENTRIES :: nat where "BCACHE_ENTRIES = 256"
definition HASH_BUCKETS :: nat where "HASH_BUCKETS = 256"

record 'd bcache_entry =
  be_data :: 'd
  be_tag :: u32
  be_valid :: bool
  be_dirty :: bool
  be_prev :: int
  be_next :: int
  be_hnext :: int

record 'd bcache =
  bc_ent :: "'d bcache_entry list"
  bc_head :: int
  bc_tail :: int
  bc_hash :: "int list"
  bc_hits :: u64
  bc_misses :: u64

datatype 'd fault = NoFault | Fault 'd

record 'd bdev =
  bd_disk :: "nat \<Rightarrow> 'd"
  bd_script :: "'d fault list"

definition dev_next :: "'d bdev \<Rightarrow> 'd fault \<times> 'd bdev" where
  "dev_next v = (case bd_script v of [] \<Rightarrow> (NoFault, v) | f # fs \<Rightarrow> (f, v\<lparr>bd_script := fs\<rparr>))"

definition dev_write :: "nat \<Rightarrow> 'd \<Rightarrow> 'd bdev \<Rightarrow> bool \<times> 'd bdev" where
  "dev_write b x v = (case dev_next v of
     (NoFault, v') \<Rightarrow> (True, v'\<lparr>bd_disk := (bd_disk v')(b := x)\<rparr>)
   | (Fault _, v') \<Rightarrow> (False, v'))"

definition dev_read :: "nat \<Rightarrow> 'd bdev \<Rightarrow> ('d + 'd) \<times> 'd bdev" where
  "dev_read b v = (case dev_next v of
     (NoFault, v') \<Rightarrow> (Inr (bd_disk v' b), v')
   | (Fault x, v') \<Rightarrow> (Inl x, v'))"

definition ent :: "'d bcache \<Rightarrow> int \<Rightarrow> 'd bcache_entry" where
  "ent c i = bc_ent c ! nat i"

definition upd :: "int \<Rightarrow> ('d bcache_entry \<Rightarrow> 'd bcache_entry) \<Rightarrow> 'd bcache \<Rightarrow> 'd bcache" where
  "upd i f c = c\<lparr>bc_ent := (bc_ent c)[nat i := f (ent c i)]\<rparr>"

section \<open>The LRU list\<close>

definition dll_unlink :: "int \<Rightarrow> 'd bcache \<Rightarrow> 'd bcache" where
  "dll_unlink idx c =
     (let c1 = (if 0 \<le> be_prev (ent c idx)
                then upd (be_prev (ent c idx)) (\<lambda>x. x\<lparr>be_next := be_next (ent c idx)\<rparr>) c
                else c\<lparr>bc_head := be_next (ent c idx)\<rparr>);
          c2 = (if 0 \<le> be_next (ent c1 idx)
                then upd (be_next (ent c1 idx)) (\<lambda>x. x\<lparr>be_prev := be_prev (ent c1 idx)\<rparr>) c1
                else c1\<lparr>bc_tail := be_prev (ent c1 idx)\<rparr>)
      in upd idx (\<lambda>x. x\<lparr>be_prev := -1, be_next := -1\<rparr>) c2)"

definition dll_push_head :: "int \<Rightarrow> 'd bcache \<Rightarrow> 'd bcache" where
  "dll_push_head idx c =
     (let c1 = upd idx (\<lambda>x. x\<lparr>be_prev := -1, be_next := bc_head c\<rparr>) c;
          c2 = (if 0 \<le> bc_head c1 then upd (bc_head c1) (\<lambda>x. x\<lparr>be_prev := idx\<rparr>) c1 else c1);
          c3 = c2\<lparr>bc_head := idx\<rparr>
      in if bc_tail c3 < 0 then c3\<lparr>bc_tail := idx\<rparr> else c3)"

definition dll_push_tail :: "int \<Rightarrow> 'd bcache \<Rightarrow> 'd bcache" where
  "dll_push_tail idx c =
     (let c1 = upd idx (\<lambda>x. x\<lparr>be_next := -1, be_prev := bc_tail c\<rparr>) c;
          c2 = (if 0 \<le> bc_tail c1 then upd (bc_tail c1) (\<lambda>x. x\<lparr>be_next := idx\<rparr>) c1 else c1);
          c3 = c2\<lparr>bc_tail := idx\<rparr>
      in if bc_head c3 < 0 then c3\<lparr>bc_head := idx\<rparr> else c3)"

section \<open>The hash chains\<close>

definition hash_fn :: "u32 \<Rightarrow> nat" where
  "hash_fn b = unat b mod HASH_BUCKETS"

partial_function (option) chase :: "'d bcache_entry list \<Rightarrow> u32 \<Rightarrow> int \<Rightarrow> int option" where
  "chase es b idx =
     (if idx < 0 then Some (-1)
      else if be_valid (es ! nat idx) \<and> be_tag (es ! nat idx) = b then Some idx
      else chase es b (be_hnext (es ! nat idx)))"

definition hash_find :: "u32 \<Rightarrow> 'd bcache \<Rightarrow> int option" where
  "hash_find b c = chase (bc_ent c) b (bc_hash c ! hash_fn b)"

definition hash_insert :: "int \<Rightarrow> 'd bcache \<Rightarrow> 'd bcache" where
  "hash_insert idx c =
     (let bucket = hash_fn (be_tag (ent c idx));
          c1 = upd idx (\<lambda>x. x\<lparr>be_hnext := bc_hash c ! bucket\<rparr>) c
      in c1\<lparr>bc_hash := (bc_hash c1)[bucket := idx]\<rparr>)"

partial_function (option) find_prev :: "'d bcache_entry list \<Rightarrow> int \<Rightarrow> int \<Rightarrow> int option" where
  "find_prev es idx prev =
     (if 0 \<le> prev \<and> be_hnext (es ! nat prev) \<noteq> idx then find_prev es idx (be_hnext (es ! nat prev))
      else Some prev)"

definition hash_remove :: "int \<Rightarrow> 'd bcache \<Rightarrow> 'd bcache option" where
  "hash_remove idx c =
     (let bucket = hash_fn (be_tag (ent c idx)) in
      map_option (upd idx (\<lambda>x. x\<lparr>be_hnext := -1\<rparr>))
        (if bc_hash c ! bucket = idx then
           Some (c\<lparr>bc_hash := (bc_hash c)[bucket := be_hnext (ent c idx)]\<rparr>)
         else
           map_option (\<lambda>prev. if 0 \<le> prev then upd prev (\<lambda>x. x\<lparr>be_hnext := be_hnext (ent c idx)\<rparr>) c else c)
             (find_prev (bc_ent c) idx (bc_hash c ! bucket))))"

section \<open>Write-back and the interface\<close>

definition writeback_entry :: "int \<Rightarrow> 'd bcache \<times> 'd bdev \<Rightarrow> unit ret \<times> 'd bcache \<times> 'd bdev" where
  "writeback_entry idx s = (case s of (c, v) \<Rightarrow>
     let e = ent c idx in
     if \<not> be_valid e \<or> \<not> be_dirty e then (Inr (), c, v)
     else case dev_write (unat (be_tag e)) (be_data e) v of
       (False, v') \<Rightarrow> (Inl EGENERIC, c, v')
     | (True, v') \<Rightarrow> (Inr (), upd idx (\<lambda>x. x\<lparr>be_dirty := False\<rparr>) c, v'))"

definition bcache_init :: "'d bcache \<Rightarrow> 'd bcache" where
  "bcache_init c =
     (let es = map (\<lambda>e. e\<lparr>be_tag := 0, be_valid := False, be_dirty := False, be_prev := -1,
                         be_next := -1, be_hnext := -1\<rparr>) (bc_ent c);
          c1 = c\<lparr>bc_ent := es, bc_hash := replicate HASH_BUCKETS (-1), bc_head := -1, bc_tail := -1\<rparr>
      in (fold (\<lambda>i. dll_push_head (int i)) [0..<BCACHE_ENTRIES] c1)\<lparr>bc_hits := 0, bc_misses := 0\<rparr>)"

definition promote :: "int \<Rightarrow> 'd bcache \<Rightarrow> 'd bcache" where
  "promote idx c = dll_push_head idx (dll_unlink idx c)"

text \<open>Lines 166 to 172 and 227 to 232: make the victim's slot reusable.\<close>

definition evict :: "int \<Rightarrow> 'd bcache \<times> 'd bdev \<Rightarrow> ('d bcache \<times> 'd bdev) option" where
  "evict victim s =
     (let s1 = (if be_valid (ent (fst s) victim) \<and> be_dirty (ent (fst s) victim)
                then snd (writeback_entry victim s) else s)
      in if be_valid (ent (fst s1) victim)
         then map_option (\<lambda>c. (c, snd s1)) (hash_remove victim (fst s1)) else Some s1)"

definition bcache_read :: "u32 \<Rightarrow> 'd bcache \<times> 'd bdev \<Rightarrow> ('d ret \<times> 'd bcache \<times> 'd bdev) option" where
  "bcache_read b s = (case s of (c, v) \<Rightarrow>
     (case hash_find b c of None \<Rightarrow> None | Some idx \<Rightarrow>
        if 0 \<le> idx then
          let c1 = promote idx (c\<lparr>bc_hits := bc_hits c + 1\<rparr>) in Some (Inr (be_data (ent c1 idx)), c1, v)
        else
          let c1 = c\<lparr>bc_misses := bc_misses c + 1\<rparr>; victim = bc_tail c1 in
          if victim < 0 then Some (Inl EGENERIC, c1, v)
          else case evict victim (c1, v) of None \<Rightarrow> None | Some (c2, v2) \<Rightarrow>
            (case dev_read (unat b) v2 of
               (Inl junk, v3) \<Rightarrow> Some (Inl EGENERIC, upd victim (\<lambda>x. x\<lparr>be_data := junk\<rparr>) c2, v3)
             | (Inr x, v3) \<Rightarrow>
                 let c3 = upd victim (\<lambda>e. e\<lparr>be_data := x, be_tag := b, be_valid := True, be_dirty := False\<rparr>) c2;
                     c4 = promote victim (hash_insert victim c3)
                 in Some (Inr (be_data (ent c4 victim)), c4, v3))))"

definition bcache_write :: "u32 \<Rightarrow> 'd \<Rightarrow> 'd bcache \<times> 'd bdev \<Rightarrow> (unit ret \<times> 'd bcache \<times> 'd bdev) option" where
  "bcache_write b x s = (case s of (c, v) \<Rightarrow>
     (case hash_find b c of None \<Rightarrow> None | Some idx \<Rightarrow>
        if 0 \<le> idx then
          Some (Inr (), promote idx (upd idx (\<lambda>e. e\<lparr>be_data := x, be_dirty := True\<rparr>) c), v)
        else
          let victim = bc_tail c in
          if victim < 0 then
            (case dev_write (unat b) x v of
               (False, v') \<Rightarrow> Some (Inl EGENERIC, c, v') | (True, v') \<Rightarrow> Some (Inr (), c, v'))
          else case evict victim (c, v) of None \<Rightarrow> None | Some (c2, v2) \<Rightarrow>
            let c3 = upd victim (\<lambda>e. e\<lparr>be_data := x, be_tag := b, be_valid := True, be_dirty := True\<rparr>) c2
            in Some (Inr (), promote victim (hash_insert victim c3), v2)))"

definition bcache_invalidate :: "u32 \<Rightarrow> 'd bcache \<times> 'd bdev \<Rightarrow> ('d bcache \<times> 'd bdev) option" where
  "bcache_invalidate b s =
     (case hash_find b (fst s) of None \<Rightarrow> None | Some idx \<Rightarrow>
        if 0 \<le> idx then
          let s1 = (if be_dirty (ent (fst s) idx) then snd (writeback_entry idx s) else s)
          in map_option (\<lambda>c. (dll_push_tail idx (dll_unlink idx
                 (upd idx (\<lambda>x. x\<lparr>be_valid := False, be_dirty := False\<rparr>) c)), snd s1))
               (hash_remove idx (fst s1))
        else Some s)"

definition flush_one :: "nat \<Rightarrow> 'd bcache \<times> 'd bdev \<Rightarrow> 'd bcache \<times> 'd bdev" where
  "flush_one i s =
     (if be_valid (ent (fst s) (int i)) \<and> be_dirty (ent (fst s) (int i))
      then snd (writeback_entry (int i) s) else s)"

definition bcache_flush :: "'d bcache \<times> 'd bdev \<Rightarrow> 'd bcache \<times> 'd bdev" where
  "bcache_flush s = fold flush_one [0..<BCACHE_ENTRIES] s"

definition bcache_dirty_count :: "'d bcache \<Rightarrow> nat" where
  "bcache_dirty_count c = length (filter (\<lambda>e. be_valid e \<and> be_dirty e) (bc_ent c))"

definition bcache_stats :: "'d bcache \<Rightarrow> u64 \<times> u64" where
  "bcache_stats c = (bc_hits c, bc_misses c)"

section \<open>Chains\<close>

fun chain :: "'d bcache_entry list \<Rightarrow> int \<Rightarrow> nat list \<Rightarrow> bool" where
  "chain es h [] \<longleftrightarrow> h < 0"
| "chain es h (x # xs) \<longleftrightarrow> h = int x \<and> x < length es \<and> chain es (be_hnext (es ! x)) xs"

lemma chain_frame: "i \<notin> set xs \<Longrightarrow> chain (es[i := e]) h xs = chain es h xs"
  by (induction xs arbitrary: h) auto

lemma chain_cong:
  "map be_hnext es' = map be_hnext es \<Longrightarrow> chain es' h xs = chain es h xs"
proof (induction xs arbitrary: h)
  case (Cons x xs)
  have len: "length es' = length es" using Cons.prems by (metis length_map)
  have "be_hnext (es' ! x) = be_hnext (es ! x)" if "x < length es"
    using Cons.prems len that by (metis nth_map)
  then show ?case
    by (cases "x < length es") (simp_all add: len Cons.IH [OF Cons.prems])
qed simp

lemma chain_lt: "chain es h xs \<Longrightarrow> x \<in> set xs \<Longrightarrow> x < length es"
  by (induction xs arbitrary: h) auto

lemma chase_chain:
  assumes "chain es h xs" "\<forall>i\<in>set xs. be_valid (es ! i)"
  shows "chase es b h = Some (case find (\<lambda>i. be_tag (es ! i) = b) xs of None \<Rightarrow> -1 | Some i \<Rightarrow> int i)"
  using assms
proof (induction xs arbitrary: h)
  case Nil
  then show ?case by (simp add: chase.simps)
next
  case (Cons x xs)
  then show ?case by (subst chase.simps) simp
qed

lemma find_prev_chain:
  assumes "chain es h (xs @ p # i # ys)" "distinct (xs @ p # i # ys)"
  shows "find_prev es (int i) h = Some (int p)"
  using assms
proof (induction xs arbitrary: h)
  case Nil
  then show ?case by (subst find_prev.simps) simp
next
  case (Cons x xs)
  have "be_hnext (es ! x) \<noteq> int i"
    using Cons.prems by (cases xs) auto
  then show ?case using Cons by (subst find_prev.simps) simp
qed

lemma chain_unlink:
  assumes "chain es h (xs @ p # i # ys)" "distinct (xs @ p # i # ys)"
  shows "chain (es[p := (es ! p)\<lparr>be_hnext := be_hnext (es ! i)\<rparr>]) h (xs @ p # ys)"
  using assms
proof (induction xs arbitrary: h)
  case Nil
  then show ?case by (auto simp: chain_frame)
qed (auto simp: nth_list_update)

section \<open>The hash invariant\<close>

text \<open>H gives the chain of each bucket; the entries in X are outside all chains, every other valid
entry is in the chain of its bucket, and no block has two entries.\<close>

definition hinv :: "nat set \<Rightarrow> 'd bcache_entry list \<Rightarrow> int list \<Rightarrow> (nat \<Rightarrow> nat list) \<Rightarrow> bool" where
  "hinv X es hash H \<longleftrightarrow> length hash = HASH_BUCKETS
     \<and> (\<forall>k < HASH_BUCKETS. chain es (hash ! k) (H k) \<and> distinct (H k)
          \<and> (\<forall>i\<in>set (H k). be_valid (es ! i) \<and> hash_fn (be_tag (es ! i)) = k \<and> i \<notin> X))
     \<and> (\<forall>i < length es. be_valid (es ! i) \<and> i \<notin> X \<longrightarrow> i \<in> set (H (hash_fn (be_tag (es ! i)))))
     \<and> (\<forall>i < length es. \<forall>j < length es. be_valid (es ! i) \<and> be_valid (es ! j) \<and> i \<notin> X \<and> j \<notin> X
          \<and> be_tag (es ! i) = be_tag (es ! j) \<longrightarrow> i = j)"

lemma hash_fn_lt: "hash_fn b < HASH_BUCKETS"
  by (simp add: hash_fn_def HASH_BUCKETS_def)

lemma hinvD:
  assumes "hinv X es hash H"
  shows "length hash = HASH_BUCKETS"
    and "\<And>k. k < HASH_BUCKETS \<Longrightarrow> chain es (hash ! k) (H k)"
    and "\<And>k. k < HASH_BUCKETS \<Longrightarrow> distinct (H k)"
    and "\<And>k i. k < HASH_BUCKETS \<Longrightarrow> i \<in> set (H k) \<Longrightarrow>
           be_valid (es ! i) \<and> hash_fn (be_tag (es ! i)) = k \<and> i \<notin> X \<and> i < length es"
    and "\<And>i. i < length es \<Longrightarrow> be_valid (es ! i) \<Longrightarrow> i \<notin> X \<Longrightarrow> i \<in> set (H (hash_fn (be_tag (es ! i))))"
    and "\<And>i j. i < length es \<Longrightarrow> j < length es \<Longrightarrow> be_valid (es ! i) \<Longrightarrow> be_valid (es ! j) \<Longrightarrow>
           i \<notin> X \<Longrightarrow> j \<notin> X \<Longrightarrow> be_tag (es ! i) = be_tag (es ! j) \<Longrightarrow> i = j"
  using assms chain_lt unfolding hinv_def by blast+

lemma hinvI:
  assumes "length hash = HASH_BUCKETS"
    and "\<And>k. k < HASH_BUCKETS \<Longrightarrow> chain es (hash ! k) (H k) \<and> distinct (H k)"
    and "\<And>k i. k < HASH_BUCKETS \<Longrightarrow> i \<in> set (H k) \<Longrightarrow>
           be_valid (es ! i) \<and> hash_fn (be_tag (es ! i)) = k \<and> i \<notin> X"
    and "\<And>i. i < length es \<Longrightarrow> be_valid (es ! i) \<Longrightarrow> i \<notin> X \<Longrightarrow> i \<in> set (H (hash_fn (be_tag (es ! i))))"
    and "\<And>i j. i < length es \<Longrightarrow> j < length es \<Longrightarrow> be_valid (es ! i) \<Longrightarrow> be_valid (es ! j) \<Longrightarrow>
           i \<notin> X \<Longrightarrow> j \<notin> X \<Longrightarrow> be_tag (es ! i) = be_tag (es ! j) \<Longrightarrow> i = j"
  shows "hinv X es hash H"
  using assms unfolding hinv_def by blast

definition holds :: "'d bcache_entry list \<Rightarrow> u32 \<Rightarrow> nat \<Rightarrow> bool" where
  "holds es b i \<longleftrightarrow> i < length es \<and> be_valid (es ! i) \<and> be_tag (es ! i) = b"

lemma hash_find_cases:
  assumes h: "hinv X (bc_ent c) (bc_hash c) H"
  obtains (hit) i where "hash_find b c = Some (int i)" "holds (bc_ent c) b i" "i \<notin> X"
  | (miss) "hash_find b c = Some (-1)" "\<And>i. i \<notin> X \<Longrightarrow> \<not> holds (bc_ent c) b i"
proof -
  let ?k = "hash_fn b" and ?es = "bc_ent c"
  note d = hinvD [OF h]
  have f: "hash_find b c =
      Some (case find (\<lambda>i. be_tag (?es ! i) = b) (H ?k) of None \<Rightarrow> -1 | Some i \<Rightarrow> int i)"
    unfolding hash_find_def
    using d(4) [OF hash_fn_lt] by (intro chase_chain d(2) hash_fn_lt) blast
  show ?thesis
  proof (cases "find (\<lambda>i. be_tag (?es ! i) = b) (H ?k)")
    case None
    then have "\<not> holds ?es b i" if "i \<notin> X" for i
      using d(5) [of i] that by (auto simp: holds_def find_None_iff)
    then show ?thesis using f None miss by simp
  next
    case (Some i)
    then have "i \<in> set (H ?k)" "be_tag (?es ! i) = b" by (auto simp: find_Some_iff)
    then have "holds ?es b i" "i \<notin> X" using d(4) [OF hash_fn_lt] by (auto simp: holds_def)
    then show ?thesis using f Some hit by simp
  qed
qed

section \<open>What relinking leaves alone\<close>

definition core :: "'d bcache_entry \<Rightarrow> 'd \<times> u32 \<times> bool \<times> bool \<times> int" where
  "core e = (be_data e, be_tag e, be_valid e, be_dirty e, be_hnext e)"

lemma length_upd [simp]: "length (bc_ent (upd i f c)) = length (bc_ent c)"
  by (simp add: upd_def)

lemma upd_fields [simp]:
  "bc_hash (upd i f c) = bc_hash c" "bc_head (upd i f c) = bc_head c" "bc_tail (upd i f c) = bc_tail c"
  by (simp_all add: upd_def)

lemma ent_upd:
  "0 \<le> i \<Longrightarrow> i < int (length (bc_ent c)) \<Longrightarrow> 0 \<le> j \<Longrightarrow>
    ent (upd i f c) j = (if j = i then f (ent c i) else ent c j)"
  by (auto simp: upd_def ent_def nth_list_update)

lemma bc_ent_upd: "bc_ent (upd (int i) f c) = (bc_ent c)[i := f (bc_ent c ! i)]"
  by (simp add: upd_def ent_def)

lemma map_upd:
  assumes "\<And>x. g (f x) = g x"
  shows "map g (bc_ent (upd i f c)) = map g (bc_ent c)"
proof (cases "nat i < length (bc_ent c)")
  case True
  then show ?thesis
    using list_update_id [of "map g (bc_ent c)" "nat i"]
    by (simp add: upd_def map_update assms ent_def)
qed (simp add: upd_def list_update_beyond)

definition range_ok :: "'d bcache \<Rightarrow> bool" where
  "range_ok c \<longleftrightarrow> (let n = int (length (bc_ent c)) in bc_head c < n \<and> bc_tail c < n
     \<and> (\<forall>e\<in>set (bc_ent c). be_prev e < n \<and> be_next e < n))"

lemma range_okD:
  assumes "range_ok c" "0 \<le> i" "i < int (length (bc_ent c))"
  shows "be_prev (ent c i) < int (length (bc_ent c))" "be_next (ent c i) < int (length (bc_ent c))"
proof -
  have "ent c i \<in> set (bc_ent c)" using assms(2,3) by (simp add: ent_def nat_less_iff)
  then show "be_prev (ent c i) < int (length (bc_ent c))" "be_next (ent c i) < int (length (bc_ent c))"
    using assms(1) by (auto simp: range_ok_def Let_def)
qed

lemma range_upd:
  assumes "range_ok c" "0 \<le> i" "i < int (length (bc_ent c))"
    and "\<And>x. x = ent c i \<Longrightarrow> be_prev (f x) < int (length (bc_ent c)) \<and> be_next (f x) < int (length (bc_ent c))"
  shows "range_ok (upd i f c)"
  using assms by (auto simp: range_ok_def Let_def upd_def dest: set_update_subset_insert [THEN subsetD])

text \<open>relinks c c' says that c' differs from c in LRU links only.\<close>

definition relinks :: "'d bcache \<Rightarrow> 'd bcache \<Rightarrow> bool" where
  "relinks c c' \<longleftrightarrow> map core (bc_ent c') = map core (bc_ent c) \<and> bc_hash c' = bc_hash c"

lemma relinks_refl [simp]: "relinks c c"
  by (simp add: relinks_def)

lemma relinks_trans [trans]: "relinks a b \<Longrightarrow> relinks b c \<Longrightarrow> relinks a c"
  by (simp add: relinks_def)

lemma relinks_upd: "(\<And>x. core (f x) = core x) \<Longrightarrow> relinks c (upd i f c)"
  by (simp add: relinks_def map_upd)

lemma relinks_ends [simp]:
  "relinks c (c'\<lparr>bc_head := h\<rparr>) = relinks c c'" "relinks c (c'\<lparr>bc_tail := h\<rparr>) = relinks c c'"
  by (simp_all add: relinks_def)

lemma relinks_length: "relinks c c' \<Longrightarrow> length (bc_ent c') = length (bc_ent c)"
  unfolding relinks_def by (metis length_map)

lemma dll_unlink_spec:
  assumes r: "range_ok c" "0 \<le> i" "i < int (length (bc_ent c))"
  shows "relinks c (dll_unlink i c) \<and> range_ok (dll_unlink i c)"
proof -
  define c1 where "c1 = (if 0 \<le> be_prev (ent c i)
      then upd (be_prev (ent c i)) (\<lambda>x. x\<lparr>be_next := be_next (ent c i)\<rparr>) c
      else c\<lparr>bc_head := be_next (ent c i)\<rparr>)"
  define c2 where "c2 = (if 0 \<le> be_next (ent c1 i)
      then upd (be_next (ent c1 i)) (\<lambda>x. x\<lparr>be_prev := be_prev (ent c1 i)\<rparr>) c1
      else c1\<lparr>bc_tail := be_prev (ent c1 i)\<rparr>)"
  have u: "dll_unlink i c = upd i (\<lambda>x. x\<lparr>be_prev := -1, be_next := -1\<rparr>) c2"
    by (simp add: dll_unlink_def c1_def c2_def Let_def)
  have l1: "relinks c c1" by (auto simp: c1_def core_def intro!: relinks_upd)
  have l2: "relinks c1 c2" by (auto simp: c2_def core_def intro!: relinks_upd)
  have n1: "length (bc_ent c1) = length (bc_ent c)" using relinks_length [OF l1] .
  have n2: "length (bc_ent c2) = length (bc_ent c)" using relinks_length [OF l2] n1 by simp
  have g: "range_ok c1"
  proof (cases "0 \<le> be_prev (ent c i)")
    case True
    then show ?thesis
      unfolding c1_def using range_okD [OF r] range_okD [OF r(1) True] by (auto intro!: range_upd r(1))
  next
    case False
    then show ?thesis using r(1) range_okD [OF r] by (auto simp: c1_def range_ok_def Let_def)
  qed
  have h: "range_ok c2"
  proof (cases "0 \<le> be_next (ent c1 i)")
    case True
    then show ?thesis
      unfolding c2_def using range_okD [OF g r(2)] range_okD [OF g True] r n1
      by (auto intro!: range_upd g)
  next
    case False
    then show ?thesis using g range_okD [OF g r(2)] r n1 by (auto simp: c2_def range_ok_def Let_def)
  qed
  have "relinks c2 (dll_unlink i c)" unfolding u by (rule relinks_upd) (simp add: core_def)
  moreover have "range_ok (dll_unlink i c)"
    unfolding u using r n2 by (intro range_upd h) auto
  ultimately show ?thesis using relinks_trans [OF l1 l2] relinks_trans by blast
qed

lemma dll_push_head_spec:
  assumes r: "range_ok c" "0 \<le> i" "i < int (length (bc_ent c))"
  shows "relinks c (dll_push_head i c) \<and> range_ok (dll_push_head i c) \<and> 0 \<le> bc_tail (dll_push_head i c)"
proof -
  define c1 where "c1 = upd i (\<lambda>x. x\<lparr>be_prev := -1, be_next := bc_head c\<rparr>) c"
  define c2 where "c2 = (if 0 \<le> bc_head c1 then upd (bc_head c1) (\<lambda>x. x\<lparr>be_prev := i\<rparr>) c1 else c1)"
  have u: "dll_push_head i c = (let c3 = c2\<lparr>bc_head := i\<rparr> in if bc_tail c3 < 0 then c3\<lparr>bc_tail := i\<rparr> else c3)"
    by (simp add: dll_push_head_def c1_def c2_def Let_def)
  have l: "relinks c c1" "relinks c1 c2"
    by (auto simp: c1_def c2_def core_def intro!: relinks_upd)
  have n: "length (bc_ent c1) = length (bc_ent c)" by (simp add: c1_def)
  have hd: "bc_head c < int (length (bc_ent c))" using r(1) by (simp add: range_ok_def Let_def)
  have g1: "range_ok c1" unfolding c1_def using r hd by (intro range_upd) auto
  have g2: "range_ok c2"
    unfolding c2_def using g1 r hd n range_okD [OF g1] by (auto simp: c1_def intro!: range_upd)
  show ?thesis
    using relinks_trans [OF l] relinks_length [OF relinks_trans [OF l]] g2 r
    by (auto simp: u Let_def range_ok_def)
qed

lemma dll_push_tail_spec:
  assumes r: "range_ok c" "0 \<le> i" "i < int (length (bc_ent c))"
  shows "relinks c (dll_push_tail i c) \<and> range_ok (dll_push_tail i c) \<and> 0 \<le> bc_tail (dll_push_tail i c)"
proof -
  define c1 where "c1 = upd i (\<lambda>x. x\<lparr>be_next := -1, be_prev := bc_tail c\<rparr>) c"
  define c2 where "c2 = (if 0 \<le> bc_tail c1 then upd (bc_tail c1) (\<lambda>x. x\<lparr>be_next := i\<rparr>) c1 else c1)"
  have u: "dll_push_tail i c = (let c3 = c2\<lparr>bc_tail := i\<rparr> in if bc_head c3 < 0 then c3\<lparr>bc_head := i\<rparr> else c3)"
    by (simp add: dll_push_tail_def c1_def c2_def Let_def)
  have l: "relinks c c1" "relinks c1 c2"
    by (auto simp: c1_def c2_def core_def intro!: relinks_upd)
  have n: "length (bc_ent c1) = length (bc_ent c)" by (simp add: c1_def)
  have tl: "bc_tail c < int (length (bc_ent c))" using r(1) by (simp add: range_ok_def Let_def)
  have g1: "range_ok c1" unfolding c1_def using r tl by (intro range_upd) auto
  have g2: "range_ok c2"
    unfolding c2_def using g1 r tl n range_okD [OF g1] by (auto simp: c1_def intro!: range_upd)
  show ?thesis
    using relinks_trans [OF l] relinks_length [OF relinks_trans [OF l]] g2 r
    by (auto simp: u Let_def range_ok_def)
qed

lemma promote_spec:
  assumes r: "range_ok c" "0 \<le> i" "i < int (length (bc_ent c))"
  shows "relinks c (promote i c) \<and> range_ok (promote i c) \<and> 0 \<le> bc_tail (promote i c)"
proof -
  note u = dll_unlink_spec [OF r]
  have "i < int (length (bc_ent (dll_unlink i c)))" using r(3) relinks_length u by metis
  from dll_push_head_spec [OF _ r(2) this] u show ?thesis
    unfolding promote_def using relinks_trans by blast
qed

section \<open>Hash operations keep the invariant\<close>

lemma hinv_fields:
  assumes h: "hinv X es hash H"
    and m: "map be_hnext es' = map be_hnext es" "map be_valid es' = map be_valid es" "map be_tag es' = map be_tag es"
  shows "hinv X es' hash H"
proof -
  have len: "length es' = length es" using m(1) by (metis length_map)
  note d = hinvD [OF h]
  have v: "be_valid (es' ! i) = be_valid (es ! i)" "be_tag (es' ! i) = be_tag (es ! i)" if "i < length es" for i
    using m(2,3) len that by (metis nth_map)+
  show ?thesis
  proof (rule hinvI)
    show "\<And>k i. k < HASH_BUCKETS \<Longrightarrow> i \<in> set (H k) \<Longrightarrow>
        be_valid (es' ! i) \<and> hash_fn (be_tag (es' ! i)) = k \<and> i \<notin> X"
      using d(4) v by metis
    show "\<And>i. i < length es' \<Longrightarrow> be_valid (es' ! i) \<Longrightarrow> i \<notin> X \<Longrightarrow> i \<in> set (H (hash_fn (be_tag (es' ! i))))"
      using d(5) v len by metis
    show "\<And>i j. i < length es' \<Longrightarrow> j < length es' \<Longrightarrow> be_valid (es' ! i) \<Longrightarrow> be_valid (es' ! j) \<Longrightarrow>
        i \<notin> X \<Longrightarrow> j \<notin> X \<Longrightarrow> be_tag (es' ! i) = be_tag (es' ! j) \<Longrightarrow> i = j"
      using d(6) v len by metis
  qed (use d chain_cong [OF m(1)] in auto)
qed

lemma hinv_core:
  assumes h: "hinv X es hash H" and m: "map core es' = map core es"
  shows "hinv X es' hash H"
proof (rule hinv_fields [OF h])
  have len: "length es' = length es" using m by (metis length_map)
  have "core (es' ! i) = core (es ! i)" if "i < length es" for i
    using m len that by (metis nth_map)
  then show "map be_hnext es' = map be_hnext es" "map be_valid es' = map be_valid es" "map be_tag es' = map be_tag es"
    using len by (simp_all add: list_eq_iff_nth_eq core_def)
qed

definition block :: "'d bcache_entry \<Rightarrow> 'd \<times> u32 \<times> bool \<times> bool" where
  "block e = (be_data e, be_tag e, be_valid e, be_dirty e)"

lemma hinv_remove:
  assumes h: "hinv X es hash H" and k: "k < HASH_BUCKETS" "i \<in> set (H k)"
    and m: "map block es' = map block es" and len: "length hash' = HASH_BUCKETS"
    and ck: "chain es' (hash' ! k) (remove1 i (H k))"
    and co: "\<And>k'. k' < HASH_BUCKETS \<Longrightarrow> k' \<noteq> k \<Longrightarrow> chain es' (hash' ! k') (H k')"
  shows "hinv (insert i X) es' hash' (H(k := remove1 i (H k)))"
proof -
  note d = hinvD [OF h]
  have n: "length es' = length es" using m by (metis length_map)
  have v: "be_valid (es' ! j) = be_valid (es ! j)" "be_tag (es' ! j) = be_tag (es ! j)" if "j < length es" for j
    using m n that by (metis (no_types, lifting) nth_map block_def prod.inject)+
  have s: "set (remove1 i (H k)) = set (H k) - {i}" using d(3) [OF k(1)] by (rule set_remove1_eq)
  have ki: "i \<notin> set (H k')" if "k' < HASH_BUCKETS" "k' \<noteq> k" for k'
    using d(4) [OF k] d(4) [OF that(1)] that(2) by auto
  show ?thesis
  proof (rule hinvI)
    fix k' j assume "k' < HASH_BUCKETS" "j \<in> set ((H(k := remove1 i (H k))) k')"
    then show "be_valid (es' ! j) \<and> hash_fn (be_tag (es' ! j)) = k' \<and> j \<notin> insert i X"
      using d(4) [of k' j] v [of j] s ki [of k'] by (auto split: if_splits)
  next
    fix j assume j: "j < length es'" "be_valid (es' ! j)" "j \<notin> insert i X"
    then show "j \<in> set ((H(k := remove1 i (H k))) (hash_fn (be_tag (es' ! j))))"
      using d(5) [of j] v [of j] n s by auto
  next
    fix j j' assume "j < length es'" "j' < length es'" "be_valid (es' ! j)" "be_valid (es' ! j')"
      "j \<notin> insert i X" "j' \<notin> insert i X" "be_tag (es' ! j) = be_tag (es' ! j')"
    then show "j = j'" using d(6) [of j j'] v n by simp
  qed (use len ck co d(3) in \<open>auto simp: distinct_remove1\<close>)
qed

lemma hash_remove_linked:
  assumes h: "hinv X (bc_ent c) (bc_hash c) H" and i: "i < length (bc_ent c)" "be_valid (bc_ent c ! i)" "i \<notin> X"
  obtains c' H' where "hash_remove (int i) c = Some c'" "hinv (insert i X) (bc_ent c') (bc_hash c') H'"
    "map block (bc_ent c') = map block (bc_ent c)"
    "map be_prev (bc_ent c') = map be_prev (bc_ent c)" "map be_next (bc_ent c') = map be_next (bc_ent c)"
    "bc_head c' = bc_head c" "bc_tail c' = bc_tail c"
proof -
  define k where "k = hash_fn (be_tag (bc_ent c ! i))"
  note d = hinvD [OF h]
  have k: "k < HASH_BUCKETS" "i \<in> set (H k)" using d(5) [OF i] hash_fn_lt by (simp_all add: k_def)
  obtain xs ys where Hk: "H k = xs @ i # ys" using split_list k(2) by metis
  have dist: "distinct (xs @ i # ys)" and ch: "chain (bc_ent c) (bc_hash c ! k) (xs @ i # ys)"
    using d(2,3) [OF k(1)] Hk by simp_all
  have rem: "remove1 i (H k) = xs @ ys" using Hk dist by (simp add: remove1_append)
  have ki: "j \<notin> set (H k')" if "k' < HASH_BUCKETS" "k' \<noteq> k" "j \<in> set (H k)" for k' j
    using d(4) [OF k(1) that(3)] d(4) [OF that(1)] that(2) by auto
  define fin where "fin = (upd (int i) (\<lambda>x :: 'a bcache_entry. x\<lparr>be_hnext := -1\<rparr>))"
  have maps: "map block (bc_ent (fin b)) = map block (bc_ent b)"
      "map be_prev (bc_ent (fin b)) = map be_prev (bc_ent b)"
      "map be_next (bc_ent (fin b)) = map be_next (bc_ent b)" for b
    unfolding fin_def by (rule map_upd; simp add: block_def)+
  have e: "ent c (int i) = bc_ent c ! i" by (simp add: ent_def)
  show ?thesis
  proof (cases xs rule: rev_cases)
    case Nil
    define c1 where "c1 = c\<lparr>bc_hash := (bc_hash c)[k := be_hnext (bc_ent c ! i)]\<rparr>"
    have "bc_hash c ! k = int i" and t: "chain (bc_ent c) (be_hnext (bc_ent c ! i)) ys" "i \<notin> set ys"
      using ch dist Nil by simp_all
    then have r: "hash_remove (int i) c = Some (fin c1)"
      by (simp add: hash_remove_def e k_def c1_def fin_def Let_def)
    have "hinv (insert i X) (bc_ent (fin c1)) (bc_hash (fin c1)) (H(k := remove1 i (H k)))"
    proof (rule hinv_remove [OF h k])
      show "chain (bc_ent (fin c1)) (bc_hash (fin c1) ! k) (remove1 i (H k))"
        using t k(1) d(1) Nil by (simp add: rem fin_def bc_ent_upd chain_frame c1_def)
      show "chain (bc_ent (fin c1)) (bc_hash (fin c1) ! k') (H k')" if "k' < HASH_BUCKETS" "k' \<noteq> k" for k'
        using d(2) [OF that(1)] ki [OF that k(2)] that by (simp add: fin_def bc_ent_upd chain_frame c1_def)
    qed (simp_all add: maps, simp_all add: c1_def fin_def d(1))
    then show ?thesis by (rule that [OF r]) (simp_all add: maps, simp_all add: c1_def fin_def)
  next
    case (snoc zs p)
    define c1 where "c1 = upd (int p) (\<lambda>x. x\<lparr>be_hnext := be_hnext (bc_ent c ! i)\<rparr>) c"
    have ch': "chain (bc_ent c) (bc_hash c ! k) (zs @ p # i # ys)" and dist': "distinct (zs @ p # i # ys)"
      using ch dist snoc by simp_all
    have "bc_hash c ! k \<noteq> int i" using ch' dist' by (cases zs) auto
    then have r: "hash_remove (int i) c = Some (fin c1)"
      using find_prev_chain [OF ch' dist'] by (simp add: hash_remove_def e k_def c1_def fin_def Let_def)
    have m1: "map block (bc_ent c1) = map block (bc_ent c)" "map be_prev (bc_ent c1) = map be_prev (bc_ent c)"
      "map be_next (bc_ent c1) = map be_next (bc_ent c)"
      unfolding c1_def by (rule map_upd; simp add: block_def)+
    have "hinv (insert i X) (bc_ent (fin c1)) (bc_hash (fin c1)) (H(k := remove1 i (H k)))"
    proof (rule hinv_remove [OF h k])
      show "chain (bc_ent (fin c1)) (bc_hash (fin c1) ! k) (remove1 i (H k))"
        using chain_unlink [OF ch' dist'] dist' snoc
        by (simp add: rem fin_def bc_ent_upd chain_frame c1_def)
      show "chain (bc_ent (fin c1)) (bc_hash (fin c1) ! k') (H k')" if "k' < HASH_BUCKETS" "k' \<noteq> k" for k'
        using d(2) [OF that(1)] ki [OF that k(2)] ki [OF that, of p] Hk snoc
        by (simp add: fin_def bc_ent_upd chain_frame c1_def)
    qed (simp_all add: maps m1, simp_all add: c1_def fin_def d(1))
    then show ?thesis by (rule that [OF r]) (simp_all add: maps m1, simp_all add: c1_def fin_def)
  qed
qed

lemma find_prev_absent:
  assumes "chain es h xs" "i \<notin> set xs"
  obtains p where "find_prev es (int i) h = Some p" "p < 0"
proof -
  have "\<exists>p. find_prev es (int i) h = Some p \<and> p < 0"
    using assms
  proof (induction xs arbitrary: h)
    case Nil
    then show ?case by (subst find_prev.simps) simp
  next
    case (Cons x xs)
    have "be_hnext (es ! x) \<noteq> int i" using Cons.prems by (cases xs) auto
    then show ?case using Cons by (subst find_prev.simps) simp
  qed
  then show ?thesis using that by blast
qed

lemma hinv_frame:
  assumes h: "hinv X es hash H" and i: "i \<in> X"
  shows "hinv X (es[i := e]) hash H"
proof -
  note d = hinvD [OF h]
  have ni: "i \<notin> set (H k)" if "k < HASH_BUCKETS" for k using d(4) [OF that] i by blast
  show ?thesis
  proof (rule hinvI)
    fix k j assume "k < HASH_BUCKETS" "j \<in> set (H k)"
    then show "be_valid (es[i := e] ! j) \<and> hash_fn (be_tag (es[i := e] ! j)) = k \<and> j \<notin> X"
      using d(4) i by (metis nth_list_update_neq)
  next
    fix j assume "j < length (es[i := e])" "be_valid (es[i := e] ! j)" "j \<notin> X"
    then show "j \<in> set (H (hash_fn (be_tag (es[i := e] ! j))))"
      using d(5) i by (metis length_list_update nth_list_update_neq)
  next
    fix j j' assume "j < length (es[i := e])" "j' < length (es[i := e])" "be_valid (es[i := e] ! j)"
      "be_valid (es[i := e] ! j')" "j \<notin> X" "j' \<notin> X" "be_tag (es[i := e] ! j) = be_tag (es[i := e] ! j')"
    then show "j = j'" using d(6) i by (metis length_list_update nth_list_update_neq)
  qed (use d ni in \<open>auto simp: chain_frame\<close>)
qed

lemma hash_remove_spec:
  assumes h: "hinv X (bc_ent c) (bc_hash c) H" and i: "i < length (bc_ent c)" "be_valid (bc_ent c ! i)"
  obtains c' H' where "hash_remove (int i) c = Some c'" "hinv (insert i X) (bc_ent c') (bc_hash c') H'"
    "map block (bc_ent c') = map block (bc_ent c)"
    "map be_prev (bc_ent c') = map be_prev (bc_ent c)" "map be_next (bc_ent c') = map be_next (bc_ent c)"
    "bc_head c' = bc_head c" "bc_tail c' = bc_tail c"
proof (cases "i \<in> X")
  case False
  from h i False show ?thesis
    by (rule hash_remove_linked) (rule that)
next
  case True
  define k where "k = hash_fn (be_tag (bc_ent c ! i))"
  define fin where "fin = (upd (int i) (\<lambda>x :: 'a bcache_entry. x\<lparr>be_hnext := -1\<rparr>))"
  note d = hinvD [OF h]
  have k: "k < HASH_BUCKETS" by (simp add: k_def hash_fn_lt)
  have ni: "i \<notin> set (H k)" using d(4) [OF k] True by blast
  obtain p where p: "find_prev (bc_ent c) (int i) (bc_hash c ! k) = Some p" "p < 0"
    using find_prev_absent [OF d(2) [OF k] ni] .
  have "bc_hash c ! k \<noteq> int i" using d(2) [OF k] ni by (cases "H k") auto
  then have r: "hash_remove (int i) c = Some (fin c)"
    using p by (simp add: hash_remove_def ent_def k_def fin_def Let_def)
  have "hinv (insert i X) (bc_ent (fin c)) (bc_hash (fin c)) H"
    using hinv_frame [OF h True] True by (simp add: fin_def bc_ent_upd insert_absorb)
  then show ?thesis
    by (rule that [OF r]) (unfold fin_def, (rule map_upd, simp add: block_def)+, simp_all)
qed

lemma hash_insert_spec:
  assumes h: "hinv (insert i X) (bc_ent c) (bc_hash c) H"
    and i: "i < length (bc_ent c)" "be_valid (bc_ent c ! i)"
    and uniq: "\<And>j. j < length (bc_ent c) \<Longrightarrow> j \<noteq> i \<Longrightarrow> j \<notin> X \<Longrightarrow> be_valid (bc_ent c ! j)
      \<Longrightarrow> be_tag (bc_ent c ! j) \<noteq> be_tag (bc_ent c ! i)"
  defines "c' \<equiv> hash_insert (int i) c"
  obtains H' where "hinv (X - {i}) (bc_ent c') (bc_hash c') H'"
    "map block (bc_ent c') = map block (bc_ent c)"
    "map be_prev (bc_ent c') = map be_prev (bc_ent c)" "map be_next (bc_ent c') = map be_next (bc_ent c)"
    "bc_head c' = bc_head c" "bc_tail c' = bc_tail c"
proof -
  define k where "k = hash_fn (be_tag (bc_ent c ! i))"
  have k: "k < HASH_BUCKETS" by (simp add: k_def hash_fn_lt)
  note d = hinvD [OF h]
  define es' where "es' = (bc_ent c)[i := (bc_ent c ! i)\<lparr>be_hnext := bc_hash c ! k\<rparr>]"
  have c': "bc_ent c' = es'" "bc_hash c' = (bc_hash c)[k := int i]"
    by (simp_all add: c'_def hash_insert_def ent_def bc_ent_upd es'_def k_def Let_def)
  have v: "be_valid (es' ! j) = be_valid (bc_ent c ! j)" "be_tag (es' ! j) = be_tag (bc_ent c ! j)" for j
    by (cases "i = j"; cases "i < length (bc_ent c)"; simp add: es'_def list_update_beyond)+
  have ni: "i \<notin> set (H k')" if "k' < HASH_BUCKETS" for k' using d(4) [OF that] by blast
  have "hinv (X - {i}) es' ((bc_hash c)[k := int i]) (H(k := i # H k))"
  proof (rule hinvI)
    fix k' assume k': "k' < HASH_BUCKETS"
    show "chain es' ((bc_hash c)[k := int i] ! k') ((H(k := i # H k)) k') \<and> distinct ((H(k := i # H k)) k')"
      using d(1,2,3) k k' ni i(1) by (cases "k' = k") (auto simp: es'_def chain_frame)
  next
    fix k' j assume "k' < HASH_BUCKETS" "j \<in> set ((H(k := i # H k)) k')"
    then show "be_valid (es' ! j) \<and> hash_fn (be_tag (es' ! j)) = k' \<and> j \<notin> X - {i}"
      using d(4) i(2) by (auto simp: v k_def split: if_splits)
  next
    fix j assume "j < length es'" "be_valid (es' ! j)" "j \<notin> X - {i}"
    then show "j \<in> set ((H(k := i # H k)) (hash_fn (be_tag (es' ! j))))"
      using d(5) [of j] by (cases "j = i") (auto simp: v es'_def k_def)
  next
    fix j j' assume a: "j < length es'" "j' < length es'" "be_valid (es' ! j)" "be_valid (es' ! j')"
      "j \<notin> X - {i}" "j' \<notin> X - {i}" "be_tag (es' ! j) = be_tag (es' ! j')"
    have "length es' = length (bc_ent c)" by (simp add: es'_def)
    with a show "j = j'"
      unfolding v using d(6) [of j j'] uniq [of j] uniq [of j']
      by (cases "j = i"; cases "j' = i") auto
  qed (simp add: d(1))
  then have hi: "hinv (X - {i}) (bc_ent c') (bc_hash c') (H(k := i # H k))" by (simp add: c')
  have u: "bc_ent c' = bc_ent (upd (int i) (\<lambda>x. x\<lparr>be_hnext := bc_hash c ! k\<rparr>) c)"
    by (simp add: c' es'_def bc_ent_upd)
  show ?thesis
    by (rule that [OF hi]) (unfold u, (rule map_upd, simp add: block_def)+,
      simp_all add: c'_def hash_insert_def Let_def)
qed

end
