(* ===== verification/Bcache_Refine.thy ===== *)
theory Bcache_Refine
  imports Bcache
begin

text \<open>The block cache of theory Bcache seen from its callers: its invariant, that every operation
returns in every reachable state whatever the device does, and that over a device without faults
the cache is indistinguishable from the array of blocks it caches.\<close>

section \<open>Structural invariant\<close>

definition bc_ok :: "nat set \<Rightarrow> 'd bcache \<Rightarrow> bool" where
  "bc_ok X c \<longleftrightarrow> length (bc_ent c) = BCACHE_ENTRIES \<and> range_ok c \<and> 0 \<le> bc_tail c
     \<and> (\<exists>H. hinv X (bc_ent c) (bc_hash c) H)"

lemma bc_ok_tail:
  assumes "bc_ok X c"
  obtains i where "bc_tail c = int i" "i < length (bc_ent c)"
  using assms nonneg_int_cases [of "bc_tail c"] by (auto simp: bc_ok_def range_ok_def Let_def)

lemma range_ok_maps:
  assumes "range_ok c" "map be_prev (bc_ent c') = map be_prev (bc_ent c)"
    "map be_next (bc_ent c') = map be_next (bc_ent c)" "bc_head c' = bc_head c" "bc_tail c' = bc_tail c"
  shows "range_ok c'"
proof -
  have len: "length (bc_ent c') = length (bc_ent c)" using assms(2) by (metis length_map)
  have "be_prev e < int (length (bc_ent c)) \<and> be_next e < int (length (bc_ent c))" if "e \<in> set (bc_ent c')" for e
  proof -
    have "be_prev e \<in> set (map be_prev (bc_ent c))" "be_next e \<in> set (map be_next (bc_ent c))"
      using that assms(2,3) by (metis image_eqI set_map)+
    then show ?thesis using assms(1) by (auto simp: range_ok_def Let_def)
  qed
  then show ?thesis using assms len by (simp add: range_ok_def Let_def)
qed

lemma bc_ok_relinks:
  assumes "bc_ok X c" "relinks c c'" "range_ok c'" "0 \<le> bc_tail c'"
  shows "bc_ok X c'"
  using assms relinks_length [OF assms(2)] hinv_core unfolding bc_ok_def relinks_def by metis

lemma bc_ok_promote:
  assumes "bc_ok X c" "i < length (bc_ent c)"
  shows "bc_ok X (promote (int i) c)" "relinks c (promote (int i) c)"
proof -
  have p: "relinks c (promote (int i) c) \<and> range_ok (promote (int i) c) \<and> 0 \<le> bc_tail (promote (int i) c)"
    using assms by (intro promote_spec) (simp_all add: bc_ok_def)
  then show "relinks c (promote (int i) c)" by blast
  from p show "bc_ok X (promote (int i) c)" using bc_ok_relinks [OF assms(1)] by blast
qed

lemma hinv_invalid:
  assumes h: "hinv X es hash H" and i: "\<not> be_valid (es ! i)"
  shows "hinv (insert i X) es hash H" "hinv (X - {i}) es hash H"
proof -
  note d = hinvD [OF h]
  have ni: "i \<notin> set (H k)" if "k < HASH_BUCKETS" for k using d(4) [OF that, of i] i by blast
  show "hinv (insert i X) es hash H" "hinv (X - {i}) es hash H"
    by (rule hinvI; use d ni i in blast)+
qed

lemma map_block_nth:
  "map block es' = map block es \<Longrightarrow> length es' = length es \<and> (\<forall>j < length es. block (es' ! j) = block (es ! j))"
  by (metis length_map nth_map)

lemma map_core_block: "map core es' = map core es \<Longrightarrow> map block es' = map block es"
  unfolding map_equality_iff by (simp add: core_def block_def)

lemma relinks_block: "relinks c c' \<Longrightarrow> j < length (bc_ent c) \<Longrightarrow> block (bc_ent c' ! j) = block (bc_ent c ! j)"
  using map_block_nth [OF map_core_block] unfolding relinks_def by blast

lemma bc_ok_upd:
  assumes "bc_ok X c"
    and "\<And>e. be_prev (f e) = be_prev e \<and> be_next (f e) = be_next e \<and> be_hnext (f e) = be_hnext e
      \<and> be_valid (f e) = be_valid e \<and> be_tag (f e) = be_tag e"
  shows "bc_ok X (upd i f c)"
proof -
  obtain H where "hinv X (bc_ent c) (bc_hash c) H" using assms(1) by (auto simp: bc_ok_def)
  from hinv_fields [OF this, of "bc_ent (upd i f c)"] have "hinv X (bc_ent (upd i f c)) (bc_hash c) H"
    using assms(2) by (simp add: map_upd)
  moreover have "range_ok (upd i f c)"
    by (rule range_ok_maps [of c]) (use assms in \<open>auto simp: map_upd bc_ok_def\<close>)
  ultimately show ?thesis using assms(1) by (auto simp: bc_ok_def)
qed

section \<open>Write-back and eviction\<close>

lemma writeback_spec:
  assumes "i < length (bc_ent c)"
  obtains c' v' where "snd (writeback_entry (int i) (c, v)) = (c', v')"
    "c' = c \<or> c' = upd (int i) (\<lambda>x. x\<lparr>be_dirty := False\<rparr>) c"
    "bd_script v = [] \<Longrightarrow> be_valid (bc_ent c ! i) \<Longrightarrow> be_dirty (bc_ent c ! i) \<Longrightarrow>
      c' = upd (int i) (\<lambda>x. x\<lparr>be_dirty := False\<rparr>) c
      \<and> v' = v\<lparr>bd_disk := (bd_disk v)(unat (be_tag (bc_ent c ! i)) := be_data (bc_ent c ! i))\<rparr>"
proof -
  obtain c' v' where w: "snd (writeback_entry (int i) (c, v)) = (c', v')" by fastforce
  have a: "c' = c \<or> c' = upd (int i) (\<lambda>x. x\<lparr>be_dirty := False\<rparr>) c"
    using w by (auto simp: writeback_entry_def Let_def split: if_splits prod.splits bool.splits)
  have b: "c' = upd (int i) (\<lambda>x. x\<lparr>be_dirty := False\<rparr>) c
      \<and> v' = v\<lparr>bd_disk := (bd_disk v)(unat (be_tag (bc_ent c ! i)) := be_data (bc_ent c ! i))\<rparr>"
    if "bd_script v = []" "be_valid (bc_ent c ! i)" "be_dirty (bc_ent c ! i)"
    using w that by (simp add: writeback_entry_def dev_write_def dev_next_def ent_def Let_def)
  show ?thesis by (rule that [OF w a b])
qed

definition wb_disk :: "'d bcache_entry \<Rightarrow> (nat \<Rightarrow> 'd) \<Rightarrow> nat \<Rightarrow> 'd" where
  "wb_disk e d = (if be_valid e \<and> be_dirty e then d(unat (be_tag e) := be_data e) else d)"

lemma evict_spec:
  assumes ok: "bc_ok X c" and i: "i < length (bc_ent c)"
  obtains c' v' where "evict (int i) (c, v) = Some (c', v')" "bc_ok (insert i X) c'"
    "\<And>j. j < length (bc_ent c) \<Longrightarrow> j \<noteq> i \<Longrightarrow> block (bc_ent c' ! j) = block (bc_ent c ! j)"
    "bd_script v = [] \<Longrightarrow> bd_script v' = [] \<and> bd_disk v' = wb_disk (bc_ent c ! i) (bd_disk v)"
proof -
  let ?e = "bc_ent c ! i"
  define s1 where "s1 = (if be_valid ?e \<and> be_dirty ?e then snd (writeback_entry (int i) (c, v)) else (c, v))"
  obtain c1 v1 where s1: "s1 = (c1, v1)" by (cases s1)
  obtain cw vw where w: "snd (writeback_entry (int i) (c, v)) = (cw, vw)"
    "cw = c \<or> cw = upd (int i) (\<lambda>x. x\<lparr>be_dirty := False\<rparr>) c"
    "bd_script v = [] \<Longrightarrow> be_valid ?e \<Longrightarrow> be_dirty ?e \<Longrightarrow>
      cw = upd (int i) (\<lambda>x. x\<lparr>be_dirty := False\<rparr>) c
      \<and> vw = v\<lparr>bd_disk := (bd_disk v)(unat (be_tag ?e) := be_data ?e)\<rparr>"
    using writeback_spec [OF i, of v] by blast
  have c1: "c1 = c \<or> c1 = upd (int i) (\<lambda>x. x\<lparr>be_dirty := False\<rparr>) c"
    using w(1,2) s1 by (auto simp: s1_def split: if_splits)
  have dev: "bd_script v1 = [] \<and> bd_disk v1 = wb_disk ?e (bd_disk v)" if "bd_script v = []"
    using w(1,3) that s1 by (auto simp: s1_def wb_disk_def split: if_splits)
  have ent1: "be_valid (bc_ent c1 ! i) = be_valid ?e" "length (bc_ent c1) = length (bc_ent c)"
    "\<And>j. j \<noteq> i \<Longrightarrow> bc_ent c1 ! j = bc_ent c ! j"
    "bc_hash c1 = bc_hash c" "bc_head c1 = bc_head c" "bc_tail c1 = bc_tail c"
    using c1 i by (auto simp: bc_ent_upd)
  have prev: "map be_prev (bc_ent c1) = map be_prev (bc_ent c)" "map be_next (bc_ent c1) = map be_next (bc_ent c)"
    "map be_hnext (bc_ent c1) = map be_hnext (bc_ent c)" "map be_valid (bc_ent c1) = map be_valid (bc_ent c)"
    "map be_tag (bc_ent c1) = map be_tag (bc_ent c)"
    using c1 by (auto simp: map_upd)
  obtain H where H: "hinv X (bc_ent c) (bc_hash c) H" using ok by (auto simp: bc_ok_def)
  have H1: "hinv X (bc_ent c1) (bc_hash c1) H"
    using hinv_fields [OF H] prev(3,4,5) ent1(4) by simp
  have r1: "range_ok c1" using range_ok_maps [OF _ prev(1,2) ent1(5,6)] ok by (simp add: bc_ok_def)
  have ev: "evict (int i) (c, v) = (if be_valid ?e then map_option (\<lambda>c. (c, v1)) (hash_remove (int i) c1) else Some (c1, v1))"
    using ent1(1) s1 by (simp add: evict_def ent_def s1_def Let_def)
  show ?thesis
  proof (cases "be_valid ?e")
    case False
    then have "bc_ok (insert i X) c1"
      using hinv_invalid(1) [OF H1, of i] ent1 r1 ok by (auto simp: bc_ok_def)
    then show ?thesis using ev False ent1(3) dev that [of c1 v1] by simp
  next
    case True
    with H1 i ent1(1,2) obtain c2 H2 where c2: "hash_remove (int i) c1 = Some c2"
      "hinv (insert i X) (bc_ent c2) (bc_hash c2) H2" "map block (bc_ent c2) = map block (bc_ent c1)"
      "map be_prev (bc_ent c2) = map be_prev (bc_ent c1)" "map be_next (bc_ent c2) = map be_next (bc_ent c1)"
      "bc_head c2 = bc_head c1" "bc_tail c2 = bc_tail c1"
      using hash_remove_spec [of X c1 H i] by metis
    have b: "length (bc_ent c2) = length (bc_ent c)" "\<And>j. j < length (bc_ent c) \<Longrightarrow> block (bc_ent c2 ! j) = block (bc_ent c1 ! j)"
      using map_block_nth [OF c2(3)] ent1(2) by auto
    have "bc_ok (insert i X) c2"
      using c2(2,7) b(1) range_ok_maps [OF r1 c2(4-7)] ok ent1(6) by (auto simp: bc_ok_def)
    then show ?thesis using ev True c2(1) b ent1(3) dev that [of c2 v1] by simp
  qed
qed

section \<open>Installing a block in the victim's slot\<close>

definition fill :: "nat \<Rightarrow> 'd \<Rightarrow> u32 \<Rightarrow> bool \<Rightarrow> 'd bcache \<Rightarrow> 'd bcache" where
  "fill i x b d c = upd (int i) (\<lambda>e. e\<lparr>be_data := x, be_tag := b, be_valid := True, be_dirty := d\<rparr>) c"

lemma install_spec:
  fixes c :: "'d bcache" and x :: 'd and d :: bool
  assumes ok: "bc_ok (insert i X) c" and i: "i < length (bc_ent c)"
    and uniq: "\<And>j. j < length (bc_ent c) \<Longrightarrow> j \<noteq> i \<Longrightarrow> j \<notin> X \<Longrightarrow> \<not> holds (bc_ent c) b j"
  defines "c' \<equiv> promote (int i) (hash_insert (int i) (fill i x b d c))"
  shows "bc_ok (X - {i}) c'" "block (bc_ent c' ! i) = (x, b, True, d)"
    "\<And>j. j < length (bc_ent c) \<Longrightarrow> j \<noteq> i \<Longrightarrow> block (bc_ent c' ! j) = block (bc_ent c ! j)"
proof -
  let ?f = "fill i x b d c"
  obtain H where H: "hinv (insert i X) (bc_ent c) (bc_hash c) H" using ok by (auto simp: bc_ok_def)
  have f: "length (bc_ent ?f) = length (bc_ent c)" "bc_ent ?f ! i = (bc_ent c ! i)\<lparr>be_data := x, be_tag := b, be_valid := True, be_dirty := d\<rparr>"
    "\<And>j. j \<noteq> i \<Longrightarrow> bc_ent ?f ! j = bc_ent c ! j"
    using i by (simp_all add: fill_def bc_ent_upd)
  have Hf: "hinv (insert i X) (bc_ent ?f) (bc_hash ?f) H"
    using hinv_frame [OF H, of i] by (simp add: fill_def bc_ent_upd)
  have rf: "range_ok ?f"
    by (rule range_ok_maps [of c]) (use ok in \<open>auto simp: fill_def map_upd bc_ok_def\<close>)
  have u: "be_tag (bc_ent ?f ! j) \<noteq> be_tag (bc_ent ?f ! i)"
    if "j < length (bc_ent ?f)" "j \<noteq> i" "j \<notin> X" "be_valid (bc_ent ?f ! j)" for j
    using uniq [of j] that f by (auto simp: holds_def)
  have i': "i < length (bc_ent ?f)" "be_valid (bc_ent ?f ! i)" using i f by simp_all
  define h where "h = hash_insert (int i) ?f"
  obtain H' where h: "hinv (X - {i}) (bc_ent h) (bc_hash h) H'" "map block (bc_ent h) = map block (bc_ent ?f)"
    "map be_prev (bc_ent h) = map be_prev (bc_ent ?f)" "map be_next (bc_ent h) = map be_next (bc_ent ?f)"
    "bc_head h = bc_head ?f" "bc_tail h = bc_tail ?f"
    by (rule hash_insert_spec [OF Hf i', folded h_def]) (use u in blast, rule that)
  note hb = map_block_nth [OF h(2)]
  have hok: "bc_ok (X - {i}) h"
    using h(1) range_ok_maps [OF rf h(3-6)] hb f(1) ok h(6) by (auto simp: bc_ok_def fill_def)
  have ih: "i < length (bc_ent h)" using hb f(1) i by simp
  note p = bc_ok_promote [OF hok ih]
  have "map block (bc_ent c') = map block (bc_ent h)"
    using p(2) map_core_block unfolding relinks_def c'_def h_def by metis
  note cb = map_block_nth [OF this]
  show "bc_ok (X - {i}) c'" using p(1) by (simp add: c'_def h_def)
  show "block (bc_ent c' ! i) = (x, b, True, d)"
    using cb hb ih f(1,2) i by (simp add: block_def)
  show "block (bc_ent c' ! j) = block (bc_ent c ! j)" if "j < length (bc_ent c)" "j \<noteq> i" for j
    using cb hb f(1,3) that by simp
qed

section \<open>The array of blocks a cache stands for\<close>

definition rep :: "'d bcache_entry list \<Rightarrow> (nat \<Rightarrow> 'd) \<Rightarrow> (nat \<Rightarrow> 'd) \<Rightarrow> bool" where
  "rep es disk A \<longleftrightarrow> (\<forall>j < length es. be_valid (es ! j) \<longrightarrow> be_data (es ! j) = A (unat (be_tag (es ! j))))
     \<and> (\<forall>n. disk n = A n \<or> (\<exists>j < length es. be_valid (es ! j) \<and> be_dirty (es ! j) \<and> unat (be_tag (es ! j)) = n))"

lemma rep_cong:
  assumes "map block es' = map block es"
  shows "rep es' disk A = rep es disk A"
  using map_block_nth [OF assms] by (simp add: rep_def block_def cong: conj_cong)

lemma rep_wb:
  assumes "rep es disk A" "i < length es"
  shows "wb_disk (es ! i) disk n = A n \<or>
    (\<exists>j < length es. j \<noteq> i \<and> be_valid (es ! j) \<and> be_dirty (es ! j) \<and> unat (be_tag (es ! j)) = n)"
proof (cases "be_valid (es ! i) \<and> be_dirty (es ! i) \<and> unat (be_tag (es ! i)) = n")
  case True
  then show ?thesis using assms by (simp add: rep_def wb_disk_def)
next
  case False
  then have "wb_disk (es ! i) disk n = disk n" by (auto simp: wb_disk_def)
  then show ?thesis using assms(1) False by (auto simp: rep_def)
qed

lemma rep_replace:
  assumes r: "rep es disk A" and i: "i < length es" and len: "length es' = length es"
    and same: "\<And>j. j < length es \<Longrightarrow> j \<noteq> i \<Longrightarrow> block (es' ! j) = block (es ! j)"
    and new: "block (es' ! i) = (x, b, True, d)"
    and other: "\<And>j. j < length es \<Longrightarrow> j \<noteq> i \<Longrightarrow> \<not> holds es b j"
    and clean: "d \<or> disk' (unat b) = x"
    and wb: "\<And>n. n \<noteq> unat b \<Longrightarrow> disk' n = wb_disk (es ! i) disk n"
  shows "rep es' disk' (A(unat b := x))"
proof -
  have inj: "t = b" if "unat t = unat b" for t :: u32 using that by (simp add: word_unat_eq_iff)
  have new': "be_data (es' ! i) = x" "be_tag (es' ! i) = b" "be_valid (es' ! i)" "be_dirty (es' ! i) = d"
    using new by (simp_all add: block_def)
  have s: "be_data (es' ! j) = be_data (es ! j) \<and> be_tag (es' ! j) = be_tag (es ! j)
      \<and> be_valid (es' ! j) = be_valid (es ! j) \<and> be_dirty (es' ! j) = be_dirty (es ! j)"
    if "j < length es" "j \<noteq> i" for j
    using same [OF that] by (simp add: block_def)
  have 1: "be_data (es' ! j) = (A(unat b := x)) (unat (be_tag (es' ! j)))"
    if "j < length es'" "be_valid (es' ! j)" for j
  proof (cases "j = i")
    case False
    then have "be_tag (es ! j) \<noteq> b" using that other [of j] s [of j] len by (auto simp: holds_def)
    then have "unat (be_tag (es ! j)) \<noteq> unat b" using inj by blast
    then show ?thesis using r that s [of j] False len by (simp add: rep_def)
  qed (simp add: new')
  have 2: "disk' n = (A(unat b := x)) n \<or>
      (\<exists>j < length es'. be_valid (es' ! j) \<and> be_dirty (es' ! j) \<and> unat (be_tag (es' ! j)) = n)" for n
  proof (cases "n = unat b")
    case True
    then show ?thesis using clean new' i len by auto
  next
    case False
    then show ?thesis using rep_wb [OF r i, of n] wb [OF False] s len by auto
  qed
  show ?thesis using 1 2 by (auto simp: rep_def)
qed

lemma rep_clean:
  assumes r: "rep es disk A" and i: "i < length es" and len: "length es' = length es"
    and same: "\<And>j. j < length es \<Longrightarrow> j \<noteq> i \<Longrightarrow> block (es' ! j) = block (es ! j)"
    and new: "be_valid (es' ! i) \<Longrightarrow>
      be_valid (es ! i) \<and> be_tag (es' ! i) = be_tag (es ! i) \<and> be_data (es' ! i) = be_data (es ! i)"
  shows "rep es' (wb_disk (es ! i) disk) A"
proof -
  have s: "be_data (es' ! j) = be_data (es ! j) \<and> be_tag (es' ! j) = be_tag (es ! j)
      \<and> be_valid (es' ! j) = be_valid (es ! j) \<and> be_dirty (es' ! j) = be_dirty (es ! j)"
    if "j < length es" "j \<noteq> i" for j
    using same [OF that] by (simp add: block_def)
  have "be_data (es' ! j) = A (unat (be_tag (es' ! j)))" if "j < length es'" "be_valid (es' ! j)" for j
    using r that s [of j] new len by (cases "j = i") (auto simp: rep_def)
  moreover have "wb_disk (es ! i) disk n = A n \<or>
      (\<exists>j < length es'. be_valid (es' ! j) \<and> be_dirty (es' ! j) \<and> unat (be_tag (es' ! j)) = n)" for n
    using rep_wb [OF r i, of n] s len by auto
  ultimately show ?thesis by (auto simp: rep_def)
qed

text \<open>A cache and a fault-free device that together stand for the array A.\<close>

definition sync :: "nat set \<Rightarrow> 'd bcache \<Rightarrow> 'd bdev \<Rightarrow> (nat \<Rightarrow> 'd) \<Rightarrow> bool" where
  "sync X c v A \<longleftrightarrow> X = {} \<and> bd_script v = [] \<and> rep (bc_ent c) (bd_disk v) A"

lemma sync_relinks: "sync X c v A \<Longrightarrow> relinks c c' \<Longrightarrow> sync X c' v A"
  using rep_cong map_core_block unfolding sync_def relinks_def by metis

text \<open>A miss: the least recently used slot is evicted and no remaining entry holds the block.\<close>

lemma miss_evict:
  assumes ok: "bc_ok X c" and miss: "\<And>j. j \<notin> X \<Longrightarrow> \<not> holds (bc_ent c) b j"
  obtains i c2 v2 where "bc_tail c = int i" "i < length (bc_ent c)" "length (bc_ent c2) = length (bc_ent c)"
    "evict (int i) (c, v) = Some (c2, v2)" "bc_ok (insert i X) c2"
    "\<And>j. j < length (bc_ent c) \<Longrightarrow> j \<noteq> i \<Longrightarrow> block (bc_ent c2 ! j) = block (bc_ent c ! j)"
    "\<And>j. j < length (bc_ent c2) \<Longrightarrow> j \<noteq> i \<Longrightarrow> j \<notin> X \<Longrightarrow> \<not> holds (bc_ent c2) b j"
    "bd_script v = [] \<Longrightarrow> bd_script v2 = [] \<and> bd_disk v2 = wb_disk (bc_ent c ! i) (bd_disk v)"
proof -
  obtain i where i: "bc_tail c = int i" "i < length (bc_ent c)" using bc_ok_tail [OF ok] by metis
  obtain c2 v2 where e: "evict (int i) (c, v) = Some (c2, v2)" "bc_ok (insert i X) c2"
    "\<And>j. j < length (bc_ent c) \<Longrightarrow> j \<noteq> i \<Longrightarrow> block (bc_ent c2 ! j) = block (bc_ent c ! j)"
    "bd_script v = [] \<Longrightarrow> bd_script v2 = [] \<and> bd_disk v2 = wb_disk (bc_ent c ! i) (bd_disk v)"
    using evict_spec [OF ok i(2), of v] by metis
  have n: "length (bc_ent c2) = length (bc_ent c)" using e(2) ok by (simp add: bc_ok_def)
  have "\<not> holds (bc_ent c2) b j" if "j < length (bc_ent c2)" "j \<noteq> i" "j \<notin> X" for j
    using miss [OF that(3)] e(3) [of j] that n by (auto simp: holds_def block_def)
  then show ?thesis using that [OF i n e(1-3)] e(4) by blast
qed

lemma install_sync:
  assumes ok: "bc_ok (insert i X) c2" and i: "i < length (bc_ent c)" "length (bc_ent c2) = length (bc_ent c)"
    and same: "\<And>j. j < length (bc_ent c) \<Longrightarrow> j \<noteq> i \<Longrightarrow> block (bc_ent c2 ! j) = block (bc_ent c ! j)"
    and uniq: "\<And>j. j < length (bc_ent c2) \<Longrightarrow> j \<noteq> i \<Longrightarrow> j \<notin> X \<Longrightarrow> \<not> holds (bc_ent c2) b j"
    and sy: "sync X c v A"
    and dev: "bd_script v2 = []" "bd_disk v2 = wb_disk (bc_ent c ! i) (bd_disk v)"
    and clean: "d \<or> x = bd_disk v2 (unat b)"
  shows "sync (X - {i}) (promote (int i) (hash_insert (int i) (fill i x b d c2))) v2 (A(unat b := x))"
proof -
  have i2: "i < length (bc_ent c2)" using i by simp
  note ins = install_spec [OF ok i2 uniq, where x = x and d = d]
  have len: "length (bc_ent (promote (int i) (hash_insert (int i) (fill i x b d c2)))) = length (bc_ent c)"
    using ins(1) ok i(2) by (simp add: bc_ok_def)
  have "rep (bc_ent (promote (int i) (hash_insert (int i) (fill i x b d c2)))) (bd_disk v2) (A(unat b := x))"
  proof (rule rep_replace [OF _ i(1) len])
    show "rep (bc_ent c) (bd_disk v) A" using sy by (simp add: sync_def)
    show "\<not> holds (bc_ent c) b j" if "j < length (bc_ent c)" "j \<noteq> i" for j
      using uniq [of j] same [of j] that sy i(2) by (auto simp: holds_def block_def sync_def)
  qed (use ins same i dev clean in auto)
  then show ?thesis using sy dev by (simp add: sync_def)
qed

section \<open>The operations\<close>

lemma read_spec:
  assumes ok: "bc_ok X c"
  shows "\<exists>r c' v' X'. bcache_read b (c, v) = Some (r, c', v') \<and> bc_ok X' c'
    \<and> (sync X c v A \<longrightarrow> r = Inr (A (unat b)) \<and> sync X' c' v' A)"
proof -
  obtain H where H: "hinv X (bc_ent c) (bc_hash c) H" using ok by (auto simp: bc_ok_def)
  from H show ?thesis
  proof (cases rule: hash_find_cases [of X c H b])
    case (hit i)
    let ?c = "c\<lparr>bc_hits := bc_hits c + 1\<rparr>"
    have ok': "bc_ok X ?c" using ok by (auto simp: bc_ok_def range_ok_def)
    have i: "i < length (bc_ent ?c)" using hit by (simp add: holds_def)
    note p = bc_ok_promote [OF ok' i]
    have "relinks c (promote (int i) ?c)" using p(2) by (simp add: relinks_def)
    from sync_relinks [OF _ this] have s: "sync X c v A \<Longrightarrow> sync X (promote (int i) ?c) v A" .
    have "block (bc_ent (promote (int i) ?c) ! i) = block (bc_ent c ! i)"
      using relinks_block [OF p(2) i] by simp
    then have "be_data (ent (promote (int i) ?c) (int i)) = A (unat b)" if "sync X c v A"
      using that hit by (auto simp: ent_def block_def sync_def rep_def holds_def)
    then show ?thesis using hit p(1) s by (auto simp: bcache_read_def Let_def)
  next
    case miss
    let ?c = "c\<lparr>bc_misses := bc_misses c + 1\<rparr>"
    have ok': "bc_ok X ?c" using ok by (auto simp: bc_ok_def range_ok_def)
    have m: "\<And>j. j \<notin> X \<Longrightarrow> \<not> holds (bc_ent ?c) b j" using miss(2) by simp
    obtain i c2 v2 where e: "bc_tail ?c = int i" "i < length (bc_ent ?c)" "length (bc_ent c2) = length (bc_ent ?c)"
      "evict (int i) (?c, v) = Some (c2, v2)" "bc_ok (insert i X) c2"
      "\<And>j. j < length (bc_ent ?c) \<Longrightarrow> j \<noteq> i \<Longrightarrow> block (bc_ent c2 ! j) = block (bc_ent ?c ! j)"
      "\<And>j. j < length (bc_ent c2) \<Longrightarrow> j \<noteq> i \<Longrightarrow> j \<notin> X \<Longrightarrow> \<not> holds (bc_ent c2) b j"
      "bd_script v = [] \<Longrightarrow> bd_script v2 = [] \<and> bd_disk v2 = wb_disk (bc_ent ?c ! i) (bd_disk v)"
      by (rule miss_evict [OF ok', of b v]) (use m in blast, rule that)
    obtain r v3 where r: "dev_read (unat b) v2 = (r, v3)" by fastforce
    have i2: "i < length (bc_ent c2)" using e(2,3) by simp
    show ?thesis
    proof (cases r)
      case (Inl junk)
      have "bc_ok (insert i X) (upd (int i) (\<lambda>x. x\<lparr>be_data := junk\<rparr>) c2)"
        by (rule bc_ok_upd [OF e(5)]) simp
      moreover have "\<not> sync X c v A"
        using e(8) r Inl by (auto simp: sync_def dev_read_def dev_next_def)
      ultimately show ?thesis using miss e(1,4) r Inl by (auto simp: bcache_read_def Let_def)
    next
      case (Inr x)
      let ?c' = "promote (int i) (hash_insert (int i) (fill i x b False c2))"
      note ins = install_spec(1,2) [OF e(5) i2 e(7), where x = x and d = False]
      have s: "x = A (unat b) \<and> sync (X - {i}) ?c' v3 A" if sy: "sync X c v A"
      proof -
        have dv: "bd_script v2 = []" "bd_disk v2 = wb_disk (bc_ent ?c ! i) (bd_disk v)" "v3 = v2" "x = bd_disk v2 (unat b)"
          using e(8) sy r Inr by (auto simp: sync_def dev_read_def dev_next_def)
        have sy': "sync X ?c v A" using sy by (simp add: sync_def)
        have "x = A (unat b)"
          using rep_wb [of "bc_ent ?c" "bd_disk v" A i "unat b"] sy e(2) miss(2) dv
          by (auto simp: sync_def holds_def word_unat_eq_iff)
        moreover have "A(unat b := A (unat b)) = A" by (rule fun_upd_triv)
        ultimately show ?thesis
          using install_sync [OF e(5) e(2,3,6,7) sy' dv(1,2), where d = False and x = x] dv by auto
      qed
      have "be_data (ent ?c' (int i)) = x" using ins(2) by (simp add: ent_def block_def)
      with s ins(1) show ?thesis using miss e(1,4) r Inr by (auto simp: bcache_read_def Let_def fill_def)
    qed
  qed
qed

lemma write_spec:
  assumes ok: "bc_ok X c"
  shows "\<exists>r c' v' X'. bcache_write b x (c, v) = Some (r, c', v') \<and> bc_ok X' c'
    \<and> (sync X c v A \<longrightarrow> r = Inr () \<and> sync X' c' v' (A(unat b := x)))"
proof -
  obtain H where H: "hinv X (bc_ent c) (bc_hash c) H" using ok by (auto simp: bc_ok_def)
  from H show ?thesis
  proof (cases rule: hash_find_cases [of X c H b])
    case (hit i)
    let ?c = "upd (int i) (\<lambda>e. e\<lparr>be_data := x, be_dirty := True\<rparr>) c"
    have i: "i < length (bc_ent c)" "be_valid (bc_ent c ! i)" "be_tag (bc_ent c ! i) = b"
      using hit by (auto simp: holds_def)
    have ok': "bc_ok X ?c" by (rule bc_ok_upd [OF ok]) simp
    have ic: "i < length (bc_ent ?c)" using i by simp
    note p = bc_ok_promote [OF ok' ic]
    have "sync X ?c v (A(unat b := x))" if sy: "sync X c v A"
    proof -
      have "rep (bc_ent ?c) (bd_disk v) (A(unat b := x))"
      proof (rule rep_replace [where i = i and d = True and b = b and x = x])
        show "\<not> holds (bc_ent c) b j" if "j < length (bc_ent c)" "j \<noteq> i" for j
          using hinvD(6) [OF H, of i j] that i sy by (auto simp: holds_def sync_def)
        show "bd_disk v n = wb_disk (bc_ent c ! i) (bd_disk v) n" if "n \<noteq> unat b" for n
          using that i by (simp add: wb_disk_def)
      qed (use sy i in \<open>auto simp: sync_def bc_ent_upd block_def\<close>)
      then show ?thesis using sy by (simp add: sync_def)
    qed
    from sync_relinks [OF this p(2)] p(1) hit show ?thesis by (auto simp: bcache_write_def)
  next
    case miss
    obtain i c2 v2 where e: "bc_tail c = int i" "i < length (bc_ent c)" "length (bc_ent c2) = length (bc_ent c)"
      "evict (int i) (c, v) = Some (c2, v2)" "bc_ok (insert i X) c2"
      "\<And>j. j < length (bc_ent c) \<Longrightarrow> j \<noteq> i \<Longrightarrow> block (bc_ent c2 ! j) = block (bc_ent c ! j)"
      "\<And>j. j < length (bc_ent c2) \<Longrightarrow> j \<noteq> i \<Longrightarrow> j \<notin> X \<Longrightarrow> \<not> holds (bc_ent c2) b j"
      "bd_script v = [] \<Longrightarrow> bd_script v2 = [] \<and> bd_disk v2 = wb_disk (bc_ent c ! i) (bd_disk v)"
      by (rule miss_evict [OF ok, of b v]) (use miss(2) in blast, rule that)
    have i2: "i < length (bc_ent c2)" using e(2,3) by simp
    let ?c' = "promote (int i) (hash_insert (int i) (fill i x b True c2))"
    have "bc_ok (X - {i}) ?c'" by (rule install_spec(1) [OF e(5) i2 e(7)])
    moreover have "sync (X - {i}) ?c' v2 (A(unat b := x))" if sy: "sync X c v A"
      using install_sync [OF e(5) e(2,3,6,7) sy, where ?v2.0 = v2 and d = True and x = x] e(8) sy by (simp add: sync_def)
    ultimately show ?thesis using miss e(1,4) by (auto simp: bcache_write_def Let_def fill_def)
  qed
qed

lemma bc_ok_drop:
  assumes ok: "bc_ok (insert i X) c" and i: "i < length (bc_ent c)" "i \<notin> X"
  defines "c1 \<equiv> upd (int i) (\<lambda>x. x\<lparr>be_valid := False, be_dirty := False\<rparr>) c"
  defines "c' \<equiv> dll_push_tail (int i) (dll_unlink (int i) c1)"
  shows "bc_ok X c'" "relinks c1 c'"
proof -
  obtain H where "hinv (insert i X) (bc_ent c) (bc_hash c) H" using ok by (auto simp: bc_ok_def)
  then have "hinv (insert i X) (bc_ent c1) (bc_hash c1) H"
    unfolding c1_def bc_ent_upd upd_fields by (intro hinv_frame insertI1)
  from hinv_invalid(2) [OF this, of i] i have h: "hinv X (bc_ent c1) (bc_hash c1) H"
    by (simp add: c1_def bc_ent_upd)
  have r: "range_ok c1"
    by (rule range_ok_maps [of c]) (use ok in \<open>auto simp: c1_def map_upd bc_ok_def\<close>)
  have i1: "0 \<le> int i" "int i < int (length (bc_ent c1))" using i by (simp_all add: c1_def)
  note u = dll_unlink_spec [OF r i1]
  have "int i < int (length (bc_ent (dll_unlink (int i) c1)))" using i1 relinks_length u by metis
  from dll_push_tail_spec [OF _ i1(1) this] u
  have p: "relinks c1 c' \<and> range_ok c' \<and> 0 \<le> bc_tail c'"
    unfolding c'_def using relinks_trans by blast
  then show "relinks c1 c'" by simp
  have "bc_ok X c1" using h r ok by (auto simp: bc_ok_def c1_def)
  then show "bc_ok X c'" using bc_ok_relinks p by blast
qed

lemma invalidate_spec:
  assumes ok: "bc_ok X c"
  shows "\<exists>c' v'. bcache_invalidate b (c, v) = Some (c', v') \<and> bc_ok X c' \<and> (sync X c v A \<longrightarrow> sync X c' v' A)"
proof -
  obtain H where H: "hinv X (bc_ent c) (bc_hash c) H" using ok by (auto simp: bc_ok_def)
  from H show ?thesis
  proof (cases rule: hash_find_cases [of X c H b])
    case (hit i)
    have i: "i < length (bc_ent c)" "be_valid (bc_ent c ! i)" using hit by (auto simp: holds_def)
    obtain c2 v2 where e: "evict (int i) (c, v) = Some (c2, v2)" "bc_ok (insert i X) c2"
      "\<And>j. j < length (bc_ent c) \<Longrightarrow> j \<noteq> i \<Longrightarrow> block (bc_ent c2 ! j) = block (bc_ent c ! j)"
      "bd_script v = [] \<Longrightarrow> bd_script v2 = [] \<and> bd_disk v2 = wb_disk (bc_ent c ! i) (bd_disk v)"
      using evict_spec [OF ok i(1), of v] by metis
    have n: "length (bc_ent c2) = length (bc_ent c)" using e(2) ok by (simp add: bc_ok_def)
    then have i2: "i < length (bc_ent c2)" using i by simp
    let ?c1 = "upd (int i) (\<lambda>x. x\<lparr>be_valid := False, be_dirty := False\<rparr>) c2"
    note d = bc_ok_drop [OF e(2) i2 hit(3)]
    have "be_valid (ent (fst (snd (writeback_entry (int i) (c, v)))) (int i))"
      using i by (auto simp: writeback_entry_def ent_def bc_ent_upd Let_def split: prod.splits bool.splits)
    then have inv: "bcache_invalidate b (c, v) =
        map_option (\<lambda>(c, v). (dll_push_tail (int i) (dll_unlink (int i)
           (upd (int i) (\<lambda>x. x\<lparr>be_valid := False, be_dirty := False\<rparr>) c)), v)) (evict (int i) (c, v))"
      using i hit(1) by (simp add: bcache_invalidate_def evict_def ent_def Let_def option.map_comp comp_def)
    have "sync X ?c1 v2 A" if sy: "sync X c v A"
    proof -
      have r: "rep (bc_ent c) (bd_disk v) A" using sy by (simp add: sync_def)
      have "rep (bc_ent ?c1) (wb_disk (bc_ent c ! i) (bd_disk v)) A"
        by (rule rep_clean [OF r i(1)]) (use n e(3) i2 in \<open>auto simp: bc_ent_upd\<close>)
      then show ?thesis using e(4) sy by (simp add: sync_def)
    qed
    then show ?thesis using inv e(1) d sync_relinks [OF _ d(2)] by auto
  next
    case miss
    then show ?thesis using ok by (auto simp: bcache_invalidate_def)
  qed
qed

lemma flush_one_spec:
  assumes ok: "bc_ok X c" and i: "i < length (bc_ent c)"
  obtains c' v' where "flush_one i (c, v) = (c', v')" "bc_ok X c'"
    "c' = c \<or> c' = upd (int i) (\<lambda>x. x\<lparr>be_dirty := False\<rparr>) c"
    "sync X c v A \<Longrightarrow> sync X c' v' A \<and> \<not> (be_valid (bc_ent c' ! i) \<and> be_dirty (bc_ent c' ! i))"
proof -
  let ?e = "bc_ent c ! i" and ?c = "upd (int i) (\<lambda>x. x\<lparr>be_dirty := False\<rparr>) c"
  obtain cw vw where w: "snd (writeback_entry (int i) (c, v)) = (cw, vw)" "cw = c \<or> cw = ?c"
    "bd_script v = [] \<Longrightarrow> be_valid ?e \<Longrightarrow> be_dirty ?e \<Longrightarrow>
      cw = ?c \<and> vw = v\<lparr>bd_disk := (bd_disk v)(unat (be_tag ?e) := be_data ?e)\<rparr>"
    using writeback_spec [OF i, of v] by blast
  have ok': "bc_ok X ?c" by (rule bc_ok_upd [OF ok]) simp
  show ?thesis
  proof (cases "be_valid ?e \<and> be_dirty ?e")
    case True
    have "sync X cw vw A \<and> \<not> (be_valid (bc_ent cw ! i) \<and> be_dirty (bc_ent cw ! i))" if sy: "sync X c v A"
    proof -
      have r: "rep (bc_ent c) (bd_disk v) A" and cw: "cw = ?c"
        "vw = v\<lparr>bd_disk := wb_disk ?e (bd_disk v)\<rparr>"
        using sy w(3) True by (auto simp: sync_def wb_disk_def)
      have "rep (bc_ent ?c) (wb_disk ?e (bd_disk v)) A"
        by (rule rep_clean [OF r i]) (use i True in \<open>auto simp: bc_ent_upd\<close>)
      then show ?thesis using sy cw i by (simp add: sync_def bc_ent_upd)
    qed
    then show ?thesis using True w(1,2) ok ok' that by (auto simp: flush_one_def ent_def)
  next
    case False
    then show ?thesis using ok that [of c v] by (auto simp: flush_one_def ent_def)
  qed
qed

lemma flush_upto:
  assumes ok: "bc_ok X c" and k: "k \<le> length (bc_ent c)"
  shows "\<exists>c' v'. fold flush_one [0..<k] (c, v) = (c', v') \<and> bc_ok X c'
    \<and> (sync X c v A \<longrightarrow> sync X c' v' A \<and> (\<forall>j < k. \<not> (be_valid (bc_ent c' ! j) \<and> be_dirty (bc_ent c' ! j))))"
  using k
proof (induction k)
  case (Suc k)
  then obtain c1 v1 where 1: "fold flush_one [0..<k] (c, v) = (c1, v1)" "bc_ok X c1"
    "sync X c v A \<Longrightarrow> sync X c1 v1 A \<and> (\<forall>j < k. \<not> (be_valid (bc_ent c1 ! j) \<and> be_dirty (bc_ent c1 ! j)))"
    by auto
  have k: "k < length (bc_ent c1)" using Suc.prems 1(2) ok by (simp add: bc_ok_def)
  obtain c2 v2 where 2: "flush_one k (c1, v1) = (c2, v2)" "bc_ok X c2"
    "c2 = c1 \<or> c2 = upd (int k) (\<lambda>x. x\<lparr>be_dirty := False\<rparr>) c1"
    "sync X c1 v1 A \<Longrightarrow> sync X c2 v2 A \<and> \<not> (be_valid (bc_ent c2 ! k) \<and> be_dirty (bc_ent c2 ! k))"
    by (rule flush_one_spec [OF 1(2) k]) (rule that)
  have "bc_ent c2 ! j = bc_ent c1 ! j" if "j < k" for j using 2(3) that by (auto simp: bc_ent_upd)
  then show ?case using 1 2 by (auto simp: less_Suc_eq)
qed (use ok in auto)

lemma flush_spec:
  assumes ok: "bc_ok X c"
  shows "\<exists>c' v'. bcache_flush (c, v) = (c', v') \<and> bc_ok X c' \<and> (sync X c v A \<longrightarrow> sync X c' v' A \<and> bd_disk v' = A)"
proof -
  have n: "length (bc_ent c) = BCACHE_ENTRIES" using ok by (simp add: bc_ok_def)
  obtain c' v' where f: "bcache_flush (c, v) = (c', v')" "bc_ok X c'"
    "sync X c v A \<Longrightarrow> sync X c' v' A \<and> (\<forall>j < BCACHE_ENTRIES. \<not> (be_valid (bc_ent c' ! j) \<and> be_dirty (bc_ent c' ! j)))"
    using flush_upto [OF ok, of BCACHE_ENTRIES v A] n by (auto simp: bcache_flush_def)
  have "bd_disk v' = A" if "sync X c v A"
  proof
    fix n show "bd_disk v' n = A n" using f(2,3) that by (auto simp: sync_def rep_def bc_ok_def)
  qed
  then show ?thesis using f by auto
qed

section \<open>Initialisation\<close>

lemma init_links:
  assumes "range_ok c" "k \<le> length (bc_ent c)"
  shows "let c' = fold (\<lambda>i. dll_push_head (int i)) [0..<k] c in relinks c c' \<and> range_ok c' \<and> (0 < k \<longrightarrow> 0 \<le> bc_tail c')"
  using assms(2)
proof (induction k)
  case (Suc k)
  define d where "d = fold (\<lambda>i. dll_push_head (int i)) [0..<k] c"
  have d: "relinks c d" "range_ok d" using Suc by (auto simp: d_def Let_def)
  have "int k < int (length (bc_ent d))" using relinks_length [OF d(1)] Suc.prems by simp
  from dll_push_head_spec [OF d(2) _ this] show ?case
    using relinks_trans [OF d(1)] by (simp add: d_def)
qed (use assms in simp)

lemma init_ok:
  assumes n: "length (bc_ent c) = BCACHE_ENTRIES"
  shows "bc_ok {} (bcache_init c)" "bd_script v = [] \<Longrightarrow> sync {} (bcache_init c) v (bd_disk v)"
proof -
  define c1 where "c1 = c\<lparr>bc_ent := map (\<lambda>e. e\<lparr>be_tag := 0, be_valid := False, be_dirty := False, be_prev := -1,
      be_next := -1, be_hnext := -1\<rparr>) (bc_ent c), bc_hash := replicate HASH_BUCKETS (-1), bc_head := -1, bc_tail := -1\<rparr>"
  define c2 where "c2 = fold (\<lambda>i. dll_push_head (int i)) [0..<BCACHE_ENTRIES] c1"
  have i: "bcache_init c = c2\<lparr>bc_hits := 0, bc_misses := 0\<rparr>" by (simp add: bcache_init_def c1_def c2_def Let_def)
  have n1: "length (bc_ent c1) = BCACHE_ENTRIES" using n by (simp add: c1_def)
  have "range_ok c1" using n by (auto simp: c1_def range_ok_def BCACHE_ENTRIES_def)
  from init_links [OF this, of BCACHE_ENTRIES] n1
  have l: "relinks c1 c2" "range_ok c2" "0 \<le> bc_tail c2"
    by (auto simp: c2_def Let_def BCACHE_ENTRIES_def)
  have "hinv {} (bc_ent c1) (bc_hash c1) (\<lambda>_. [])"
    by (rule hinvI) (auto simp: c1_def)
  then have h: "hinv {} (bc_ent c2) (bc_hash c2) (\<lambda>_. [])"
    using hinv_core l(1) unfolding relinks_def by metis
  show "bc_ok {} (bcache_init c)"
    using h l(2,3) relinks_length [OF l(1)] n1 by (auto simp: i bc_ok_def range_ok_def Let_def)
  have "rep (bc_ent c1) (bd_disk v) (bd_disk v)" by (auto simp: rep_def c1_def)
  then show "sync {} (bcache_init c) v (bd_disk v)" if "bd_script v = []"
    using that sync_relinks [OF _ l(1)] by (simp add: i sync_def)
qed

section \<open>Sequences of operations\<close>

text \<open>bcache_flush takes the lock for one entry at a time, so the flusher thread interleaves with
other callers between entries: BFlushEntry is one such step.\<close>

datatype 'd bop = BRead u32 | BWrite u32 'd | BInvalidate u32 | BFlush | BFlushEntry nat

datatype 'd bres = RData "'d ret" | RDone "unit ret" | RVoid

definition bexec :: "'d bop \<Rightarrow> 'd bcache \<times> 'd bdev \<Rightarrow> ('d bres \<times> 'd bcache \<times> 'd bdev) option" where
  "bexec p s = (case p of
     BRead b \<Rightarrow> map_option (\<lambda>(r, s'). (RData r, s')) (bcache_read b s)
   | BWrite b x \<Rightarrow> map_option (\<lambda>(r, s'). (RDone r, s')) (bcache_write b x s)
   | BInvalidate b \<Rightarrow> map_option (\<lambda>s'. (RVoid, s')) (bcache_invalidate b s)
   | BFlush \<Rightarrow> Some (RVoid, bcache_flush s)
   | BFlushEntry i \<Rightarrow> Some (RVoid, if i < BCACHE_ENTRIES then flush_one i s else s))"

fun brun :: "'d bop list \<Rightarrow> 'd bcache \<times> 'd bdev \<Rightarrow> ('d bres list \<times> 'd bcache \<times> 'd bdev) option" where
  "brun [] s = Some ([], s)"
| "brun (p # ps) s = (case bexec p s of None \<Rightarrow> None
     | Some (r, s') \<Rightarrow> map_option (\<lambda>(rs, s''). (r # rs, s'')) (brun ps s'))"

text \<open>The specification: an array of blocks, on which invalidation and flushing do nothing.\<close>

fun aexec :: "'d bop \<Rightarrow> (nat \<Rightarrow> 'd) \<Rightarrow> 'd bres \<times> (nat \<Rightarrow> 'd)" where
  "aexec (BRead b) A = (RData (Inr (A (unat b))), A)"
| "aexec (BWrite b x) A = (RDone (Inr ()), A(unat b := x))"
| "aexec (BInvalidate b) A = (RVoid, A)"
| "aexec BFlush A = (RVoid, A)"
| "aexec (BFlushEntry i) A = (RVoid, A)"

fun arun :: "'d bop list \<Rightarrow> (nat \<Rightarrow> 'd) \<Rightarrow> 'd bres list \<times> (nat \<Rightarrow> 'd)" where
  "arun [] A = ([], A)"
| "arun (p # ps) A = (case aexec p A of (r, A') \<Rightarrow> case arun ps A' of (rs, A'') \<Rightarrow> (r # rs, A''))"

lemma bexec_spec:
  assumes "bc_ok X c"
  obtains r c' v' X' where "bexec p (c, v) = Some (r, c', v')" "bc_ok X' c'"
    "sync X c v A \<Longrightarrow> r = fst (aexec p A) \<and> sync X' c' v' (snd (aexec p A))"
proof (cases p)
  case (BRead b)
  then show ?thesis using read_spec [OF assms, of b v A] that by (auto simp: bexec_def)
next
  case (BWrite b x)
  then show ?thesis using write_spec [OF assms, of b x v A] that by (auto simp: bexec_def)
next
  case (BInvalidate b)
  then show ?thesis using invalidate_spec [OF assms, of b v A] that by (auto simp: bexec_def)
next
  case BFlush
  then show ?thesis using flush_spec [OF assms, of v A] that by (auto simp: bexec_def)
next
  case (BFlushEntry i)
  show ?thesis
  proof (cases "i < BCACHE_ENTRIES")
    case True
    then have i: "i < length (bc_ent c)" using assms by (simp add: bc_ok_def)
    show ?thesis
      by (rule flush_one_spec [OF assms i, of v A]) (use True BFlushEntry that in \<open>auto simp: bexec_def\<close>)
  qed (use assms BFlushEntry that in \<open>auto simp: bexec_def\<close>)
qed

lemma brun_spec:
  assumes "bc_ok X c"
  shows "\<exists>rs c' v' X'. brun ps (c, v) = Some (rs, c', v') \<and> bc_ok X' c'
    \<and> (sync X c v A \<longrightarrow> rs = fst (arun ps A) \<and> sync X' c' v' (snd (arun ps A)))"
  using assms
proof (induction ps arbitrary: X c v A)
  case (Cons p ps)
  obtain r c1 v1 X1 where e: "bexec p (c, v) = Some (r, c1, v1)" "bc_ok X1 c1"
    "sync X c v A \<Longrightarrow> r = fst (aexec p A) \<and> sync X1 c1 v1 (snd (aexec p A))"
    by (rule bexec_spec [OF Cons.prems, of p v A]) (rule that)
  from Cons.IH [OF e(2), of v1 "snd (aexec p A)"] e show ?case
    by (cases "aexec p A"; cases "arun ps (snd (aexec p A))") fastforce
qed auto

text \<open>C4: Over a device without faults the cache is transparent. Every sequence of reads, writes,
invalidations, flushes and single steps of a concurrent flush after bcache_init returns, each operation gives exactly the result it would
give on the plain array of blocks the disk held at the start, whatever was evicted, written back or
found in the cache on the way, and a final bcache_flush leaves on the disk exactly the array the
sequence of writes produces.\<close>

theorem bcache_refines_disk:
  assumes "length (bc_ent c) = BCACHE_ENTRIES" "bd_script v = []"
  shows "\<exists>c' v'. brun ps (bcache_init c, v) = Some (fst (arun ps (bd_disk v)), c', v')
    \<and> bd_disk (snd (bcache_flush (c', v'))) = snd (arun ps (bd_disk v))"
proof -
  obtain c' v' X where r: "brun ps (bcache_init c, v) = Some (fst (arun ps (bd_disk v)), c', v')" "bc_ok X c'"
    "sync X c' v' (snd (arun ps (bd_disk v)))"
    using brun_spec [OF init_ok(1) [OF assms(1)], of ps v "bd_disk v"] init_ok(2) [OF assms] by blast
  then show ?thesis using flush_spec [OF r(2), of v' "snd (arun ps (bd_disk v))"] by auto
qed

text \<open>C35: The walks of the hash chains end. After bcache_init every sequence of operations returns,
whatever requests the device fails on the way and whatever a failed transfer leaves in the buffer: no
operation meets a cyclic chain, even after a failed read has left a valid entry outside its chain.\<close>

theorem bcache_returns:
  assumes "length (bc_ent c) = BCACHE_ENTRIES"
  shows "\<exists>rs c' v'. brun ps (bcache_init c, v) = Some (rs, c', v')"
  using brun_spec [OF init_ok(1) [OF assms], of ps v] by blast

definition demo_cache :: "nat bcache" where
  "demo_cache = \<lparr>bc_ent = replicate 256 \<lparr>be_data = 0, be_tag = 0, be_valid = True, be_dirty = True, be_prev = 5,
      be_next = 7, be_hnext = 0\<rparr>, bc_head = 3, bc_tail = 4, bc_hash = [], bc_hits = 9, bc_misses = 9\<rparr>"

theorem bcache_refines_disk_witness:
  "\<exists>c' v'. brun [BWrite 3 7, BRead 3, BFlushEntry 255, BInvalidate 3, BRead 3, BRead 259] (bcache_init demo_cache, \<lparr>bd_disk = \<lambda>n. n, bd_script = []\<rparr>)
     = Some ([RDone (Inr ()), RData (Inr 7), RVoid, RVoid, RData (Inr 7), RData (Inr 259)], c', v')
   \<and> bd_disk (snd (bcache_flush (c', v'))) = (\<lambda>n. n)(3 := 7)"
  using bcache_refines_disk [of demo_cache "\<lparr>bd_disk = \<lambda>n. n, bd_script = []\<rparr>"
      "[BWrite 3 7, BRead 3, BFlushEntry 255, BInvalidate 3, BRead 3, BRead 259]"]
  by (simp add: demo_cache_def BCACHE_ENTRIES_def)

theorem bcache_returns_witness:
  "\<exists>rs c' v'. brun [BWrite 3 7, BRead 9, BRead 3, BFlush] (bcache_init demo_cache,
      \<lparr>bd_disk = \<lambda>n. n, bd_script = [Fault 5, NoFault, Fault 6]\<rparr>) = Some (rs, c', v')"
  by (rule bcache_returns) (simp add: demo_cache_def BCACHE_ENTRIES_def)

end
