(* ===== verification/Swap_Io.thy ===== *)
theory Swap_Io
  imports User_Pages Bcache_Refine
begin

text \<open>Swapping and demand paging, src/kernel/src/mm/swap.c: moving a page between a frame and its
slot of the swap area through the block cache, and the zero-filled page of an anonymous demand
mapping. A block of the disk holds the 512 words of a page. None stands for an access outside the
tables of the page allocator.\<close>

section \<open>Definitions\<close>

type_synonym page = "nat \<Rightarrow> u64"

record swapper =
  sp_vm :: vm
  sp_cache :: "page bcache"
  sp_dev :: "page bdev"

definition page_data :: "phys_mem \<Rightarrow> nat \<Rightarrow> page" where
  "page_data mem f = (\<lambda>i. if i < 512 then mem f i else 0)"

definition swap_block :: "swap_area \<Rightarrow> nat \<Rightarrow> u32" where
  "swap_block w slot = sw_start w + word_of_nat slot"

definition swap_out :: "u64 \<Rightarrow> u64 \<Rightarrow> swapper \<Rightarrow> (unit ret \<times> swapper) option" where
  "swap_out pml4 virt s =
     (let mem = vm_mem (sp_vm s) in
      case vmm_get_pte mem pml4 virt of
        None \<Rightarrow> Some (Inl EGENERIC, s)
      | Some (pt, i) \<Rightarrow>
          if \<not> has (mem pt i) PTE_PRESENT then Some (Inl EGENERIC, s)
          else case swap_alloc_slot (vm_swap (sp_vm s)) of
            (Inl _, w) \<Rightarrow> Some (Inl EGENERIC, s\<lparr>sp_vm := (sp_vm s)\<lparr>vm_swap := w\<rparr>\<rparr>)
          | (Inr slot, w) \<Rightarrow>
              let phys = mem pt i AND PTE_ADDR_MASK in
              case bcache_write (swap_block w slot) (page_data mem (addr_page phys)) (sp_cache s, sp_dev s) of
                None \<Rightarrow> None
              | Some (_, c, d) \<Rightarrow>
                  map_option (\<lambda>vm. (Inr (), \<lparr>sp_vm = vm, sp_cache = c, sp_dev = d\<rparr>))
                    (vm_free_page phys ((sp_vm s)\<lparr>vm_swap := w, vm_mem := put mem pt i (swap_pte slot)\<rparr>)))"

definition swapped_in_pte :: "u64 \<Rightarrow> u64" where
  "swapped_in_pte new_phys = new_phys OR PTE_PRESENT OR PTE_WRITABLE OR PTE_USER"

definition swap_in :: "u64 \<Rightarrow> u64 \<Rightarrow> swapper \<Rightarrow> (unit ret \<times> swapper) option" where
  "swap_in pml4 virt s =
     (let mem = vm_mem (sp_vm s); w = vm_swap (sp_vm s) in
      case vmm_get_pte mem pml4 virt of
        None \<Rightarrow> Some (Inl EGENERIC, s)
      | Some (pt, i) \<Rightarrow>
          if \<not> swap_is_entry (mem pt i) then Some (Inl EGENERIC, s)
          else let slot = swap_get_slot (mem pt i) in
          case pmm_alloc_page (vm_pmm (sp_vm s)) of (new_phys, pm) \<Rightarrow>
            if new_phys = 0 then Some (Inl EGENERIC, s\<lparr>sp_vm := (sp_vm s)\<lparr>vm_pmm := pm\<rparr>\<rparr>)
            else case bcache_read (swap_block w slot) (sp_cache s, sp_dev s) of
              None \<Rightarrow> None
            | Some (r, c, d) \<Rightarrow>
                let mem1 = (case r of Inr x \<Rightarrow> load_page mem (addr_page new_phys) x | Inl _ \<Rightarrow> mem) in
                Some (Inr (), \<lparr>sp_vm = (sp_vm s)\<lparr>vm_pmm := pm, vm_mem := put mem1 pt i (swapped_in_pte new_phys),
                                         vm_swap := swap_free_slot w (int slot)\<rparr>,
                               sp_cache = c, sp_dev = d\<rparr>))"

definition MAP_FLAGS :: u64 where
  "MAP_FLAGS = PTE_USER OR PTE_WRITABLE OR PTE_NX"

definition page_base :: "u64 \<Rightarrow> u64" where
  "page_base a = a AND NOT 0xFFF"

definition demand_page_fault :: "u64 \<Rightarrow> u64 \<Rightarrow> vm \<Rightarrow> unit ret \<times> vm" where
  "demand_page_fault pml4 virt s =
     (case pmm_alloc_page (vm_pmm s) of (new_phys, pm) \<Rightarrow>
        if new_phys = 0 then (Inl EGENERIC, s\<lparr>vm_pmm := pm\<rparr>)
        else vmm_map_page_in (s\<lparr>vm_pmm := pm, vm_mem := zero_page (vm_mem s) (addr_page new_phys)\<rparr>)
               pml4 (page_base virt) new_phys MAP_FLAGS)"

section \<open>Swapping a page out and in again\<close>

lemma swapped_in_facts:
  assumes "q < 2 ^ 40"
  shows "next_table (swapped_in_pte (page_addr q)) = q" "has (swapped_in_pte (page_addr q)) PTE_PRESENT"
    "has (swapped_in_pte (page_addr q)) PTE_WRITABLE"
proof -
  have "(PTE_PRESENT OR PTE_WRITABLE OR PTE_USER) AND PTE_ADDR_MASK = 0" by (simp add: pte_bits PTE_ADDR_MASK_def)
  then show "next_table (swapped_in_pte (page_addr q)) = q"
    unfolding swapped_in_pte_def using next_table_or next_table_page_addr [OF assms] by simp
  show "has (swapped_in_pte (page_addr q)) PTE_PRESENT" "has (swapped_in_pte (page_addr q)) PTE_WRITABLE"
    unfolding has_iffs by (simp_all add: swapped_in_pte_def bit_simps bit_pte)
qed

text \<open>The state after swapping out the page at address a, whose contents were x, into a slot.\<close>

definition swapped_out :: "nat set \<Rightarrow> nat \<Rightarrow> u64 \<Rightarrow> nat \<Rightarrow> page \<Rightarrow> (nat \<Rightarrow> page) \<Rightarrow> swapper \<Rightarrow> bool" where
  "swapped_out R r a slot x A s \<longleftrightarrow> vm_ok R (sp_vm s) \<and> pte_at (vm_mem (sp_vm s)) r a = swap_pte slot
     \<and> slot < SWAP_NUM_PAGES \<and> swap_ok (vm_swap (sp_vm s)) \<and> slot_bit (sw_bitmap (vm_swap (sp_vm s))) slot
     \<and> bc_ok {} (sp_cache s) \<and> sync {} (sp_cache s) (sp_dev s) A
     \<and> A (unat (swap_block (vm_swap (sp_vm s)) slot)) = x \<and> free_set (vm_pmm (sp_vm s)) \<noteq> {}"

lemma bc_sync_empty: "bc_ok X c \<Longrightarrow> sync X c v A \<Longrightarrow> bc_ok {} c \<and> sync {} c v A"
  by (auto simp: sync_def)

lemma swap_out_spec:
  assumes ok: "vm_ok R (sp_vm s)" and r: "addr_page cr3 \<in> R" and a: "uva a"
    and sw: "swap_ok (vm_swap (sp_vm s))" and bc: "bc_ok {} (sp_cache s)" "sync {} (sp_cache s) (sp_dev s) A"
    and f: "f = next_table (pte_at (vm_mem (sp_vm s)) (addr_page cr3) a)" "0 < f" "f < pm_total (vm_pmm (sp_vm s))"
      "f \<notin> free_set (vm_pmm (sp_vm s))" "f \<notin> tables R (sp_vm s)" "pm_refs (vm_pmm (sp_vm s)) ! f = 1"
    and run: "swap_out cr3 a s = Some (Inr (), s1)"
  obtains slot A' where "\<not> slot_bit (sw_bitmap (vm_swap (sp_vm s))) slot"
    "swapped_out R (addr_page cr3) a slot (page_data (vm_mem (sp_vm s)) f) A' s1"
    "free_set (vm_pmm (sp_vm s1)) = insert f (free_set (vm_pmm (sp_vm s)))"
    "\<And>j. slot_bit (sw_bitmap (vm_swap (sp_vm s1))) j \<longleftrightarrow> j = slot \<or> slot_bit (sw_bitmap (vm_swap (sp_vm s))) j"
    "\<And>r' va. r' \<in> R \<Longrightarrow> uva va \<Longrightarrow> \<not> (r' = addr_page cr3 \<and> same_page va a) \<Longrightarrow>
       pte_at (vm_mem (sp_vm s1)) r' va = pte_at (vm_mem (sp_vm s)) r' va"
proof -
  let ?v = "sp_vm s" and ?r = "addr_page cr3"
  obtain pt where pt: "walk (vm_mem ?v) ?r (va_path a) = Some pt"
    using run by (auto simp: swap_out_def vmm_get_pte_walk Let_def split: option.splits)
  let ?i = "PT_INDEX a"
  have pe: "pte_at (vm_mem ?v) ?r a = vm_mem ?v pt ?i" using pt by (simp add: pte_at_def)
  have g: "vmm_get_pte (vm_mem ?v) cr3 a = Some (pt, ?i)" using pt by (simp add: vmm_get_pte_walk)
  have pres: "has (vm_mem ?v pt ?i) PTE_PRESENT"
    using run g by (auto simp: swap_out_def Let_def split: if_splits)
  obtain x w where al: "swap_alloc_slot (vm_swap ?v) = (x, w)" by fastforce
  obtain slot where slot: "x = Inr slot" using run g pres al by (cases x) (auto simp: swap_out_def Let_def)
  note sl = swap_alloc_InrD [OF sw al [unfolded slot]]
  have fb: "f < 2 ^ 52" "pmm_ok (vm_pmm ?v)" using ok f(3) by (auto simp: vm_ok_def)
  have af: "addr_page (vm_mem ?v pt ?i AND PTE_ADDR_MASK) = f" using f(1) pe by (simp add: next_table_def)
  let ?b = "swap_block w slot" and ?x = "page_data (vm_mem ?v) f"
  obtain rr c d X' where bw: "bcache_write ?b ?x (sp_cache s, sp_dev s) = Some (rr, c, d)" "bc_ok X' c" "sync X' c d (A(unat ?b := ?x))"
    using write_spec [OF bc(1), of ?b ?x "sp_dev s" A] bc(2) by blast
  obtain m' where m': "pmm_free_page (vm_pmm ?v) (page_addr f) = Some m'" "pmm_ok m'" "free_set m' = insert f (free_set (vm_pmm ?v))"
    "pm_total m' = pm_total (vm_pmm ?v)" "\<And>k. k \<noteq> f \<Longrightarrow> pm_refs m' ! k = pm_refs (vm_pmm ?v) ! k"
    by (rule free_page_release [OF fb(2) f(2,3,4,6)]) (rule that)
  have fp: "pmm_free_page (vm_pmm ?v) (vm_mem ?v pt ?i AND PTE_ADDR_MASK) = Some m'"
    using m'(1) af fb(1) by (simp add: pmm_free_page_def)
  define v1 where "v1 = ?v\<lparr>vm_mem := put (vm_mem ?v) pt ?i (swap_pte slot)\<rparr>"
  note wl = write_leaf [OF ok r a pt v1_def]
  have e: "?v\<lparr>vm_swap := w, vm_mem := put (vm_mem ?v) pt ?i (swap_pte slot), vm_pmm := m'\<rparr> = v1\<lparr>vm_pmm := m'\<rparr>\<lparr>vm_swap := w\<rparr>"
    by (rule vm.equality) (simp_all add: v1_def)
  have s1: "s1 = \<lparr>sp_vm = v1\<lparr>vm_pmm := m'\<rparr>\<lparr>vm_swap := w\<rparr>, sp_cache = c, sp_dev = d\<rparr>"
    using run g pres al slot bw(1) af fp unfolding e [symmetric] by (auto simp: swap_out_def Let_def vm_free_page_def)
  have ft: "f \<notin> tables R v1" using wl(1) f(4,5) by (auto simp: grows_def)
  have "vm_ok R (v1\<lparr>vm_pmm := m'\<rparr>)"
    by (rule vm_ok_release [OF grows_ok [OF wl(1)] ft m'(2)]) (simp_all add: v1_def m')
  then have "swapped_out R ?r a slot ?x (A(unat ?b := ?x)) s1"
    using s1 sl bc_sync_empty [OF bw(2,3)] wl(2) [OF r a] m'(3)
    by (simp add: swapped_out_def vm_ok_swap same_page_def)
  moreover have "pte_at (vm_mem (sp_vm s1)) r' va = pte_at (vm_mem ?v) r' va"
    if "r' \<in> R" "uva va" "\<not> (r' = ?r \<and> same_page va a)" for r' va
    using wl(2) [OF that(1,2)] that(3) s1 by auto
  ultimately show ?thesis using that [of slot] sl m'(3) s1 by auto
qed

lemma swap_in_spec:
  assumes so: "swapped_out R (addr_page cr3) a slot x A s" and r: "addr_page cr3 \<in> R" and a: "uva a"
  obtains s2 q where "swap_in cr3 a s = Some (Inr (), s2)" "q \<in> free_set (vm_pmm (sp_vm s))" "q < 2 ^ 40"
    "pte_at (vm_mem (sp_vm s2)) (addr_page cr3) a = swapped_in_pte (page_addr q)"
    "\<And>j. j < 512 \<Longrightarrow> vm_mem (sp_vm s2) q j = x j" "vm_ok R (sp_vm s2)"
    "\<And>j. slot_bit (sw_bitmap (vm_swap (sp_vm s2))) j \<longleftrightarrow> j \<noteq> slot \<and> slot_bit (sw_bitmap (vm_swap (sp_vm s))) j"
    "\<And>r' va. r' \<in> R \<Longrightarrow> uva va \<Longrightarrow> \<not> (r' = addr_page cr3 \<and> same_page va a) \<Longrightarrow>
       pte_at (vm_mem (sp_vm s2)) r' va = pte_at (vm_mem (sp_vm s)) r' va"
proof -
  let ?v = "sp_vm s" and ?r = "addr_page cr3" and ?w = "vm_swap (sp_vm s)" and ?i = "PT_INDEX a"
  have so': "vm_ok R ?v" "pte_at (vm_mem ?v) ?r a = swap_pte slot" "slot < SWAP_NUM_PAGES" "swap_ok ?w"
    "bc_ok {} (sp_cache s)" "sync {} (sp_cache s) (sp_dev s) A" "A (unat (swap_block ?w slot)) = x" "free_set (vm_pmm ?v) \<noteq> {}"
    using so by (auto simp: swapped_out_def)
  note se = swap_pte_entry [OF so'(3)]
  have "has (pte_at (vm_mem ?v) ?r a) PTE_SWAP" using se so'(2) by (simp add: swap_is_entry_def)
  then obtain pt where pt: "walk (vm_mem ?v) ?r (va_path a) = Some pt" "pte_at (vm_mem ?v) ?r a = vm_mem ?v pt ?i"
    using pte_at_SomeD by metis
  have g: "vmm_get_pte (vm_mem ?v) cr3 a = Some (pt, ?i)" using pt by (simp add: vmm_get_pte_walk)
  obtain rr c d X' where br: "bcache_read (swap_block ?w slot) (sp_cache s, sp_dev s) = Some (rr, c, d)" "rr = Inr x"
    using read_spec [OF so'(5), of "swap_block ?w slot" "sp_dev s" A] so'(6,7) by blast
  have pok: "pmm_ok (vm_pmm ?v)" using so'(1) by (simp add: vm_ok_def)
  from pok show ?thesis
  proof (cases rule: alloc_page_spec)
    case none
    then show ?thesis using so'(8) by simp
  next
    case (page q pm)
    have qb: "q < 2 ^ 40" "addr_page (page_addr q) = q" using vm_free_page_bound [OF so'(1) page(3)] by simp_all
    define v1 where "v1 = ?v\<lparr>vm_pmm := pm, vm_mem := load_page (vm_mem ?v) q x\<rparr>"
    note fr = fresh_fill [OF so'(1) page(1,3-7), where x = x, folded v1_def]
    have pt1: "walk (vm_mem v1) ?r (va_path a) = Some pt" using fr(7) [OF r] va_path_upath [OF a] pt(1) by simp
    define v2 where "v2 = v1\<lparr>vm_mem := put (vm_mem v1) pt ?i (swapped_in_pte (page_addr q))\<rparr>"
    note wl = write_leaf [OF grows_ok [OF fr(1)] r a pt1 v2_def]
    let ?s2 = "\<lparr>sp_vm = v2\<lparr>vm_swap := swap_free_slot ?w (int slot)\<rparr>, sp_cache = c, sp_dev = d\<rparr>"
    have run: "swap_in cr3 a s = Some (Inr (), ?s2)"
      using g se pt(2) so'(2) page(1,2) qb(2) br by (simp add: swap_in_def Let_def v2_def v1_def)
    have "vm_mem v2 q j = x j" if "j < 512" for j
      using grows_keeps(1) [OF wl(1) fr(2,3)] fr(4) [OF that] by simp
    moreover have "pte_at (vm_mem v2) r' va = pte_at (vm_mem ?v) r' va"
      if "r' \<in> R" "uva va" "\<not> (r' = ?r \<and> same_page va a)" for r' va
      using wl(2) [OF that(1,2)] that(3) fr(5) [OF that(1,2)] by auto
    moreover have "pte_at (vm_mem v2) ?r a = swapped_in_pte (page_addr q)" using wl(2) [OF r a] by (simp add: same_page_def)
    ultimately show ?thesis
      using that [OF run page(3) qb(1)] grows_ok [OF wl(1)] swap_free_spec [OF so'(4), of slot] so'(3) by (auto simp: vm_ok_swap)
  qed
qed


definition demo_swapper :: swapper where
  "demo_swapper = \<lparr>sp_vm = demo_cow_vm\<lparr>vm_swap := swap_init \<lparr>sw_start = 63488, sw_bitmap = [], sw_used = 0\<rparr>\<rparr>,
     sp_cache = bcache_init \<lparr>bc_ent = replicate 256 \<lparr>be_data = \<lambda>_. 0, be_tag = 0, be_valid = False, be_dirty = False,
        be_prev = 0, be_next = 0, be_hnext = 0\<rparr>, bc_head = 0, bc_tail = 0, bc_hash = [], bc_hits = 0, bc_misses = 0\<rparr>,
     sp_dev = \<lparr>bd_disk = \<lambda>_ _. 0, bd_script = []\<rparr>\<rparr>"


end
