(* ===== verification/Slot_Table.thy ===== *)
theory Slot_Table
  imports Prelude
begin

text \<open>
  Nearly every Limnx kernel object lives in a fixed array of slots with a \<^verbatim>\<open>used\<close> flag:
  tokens, tasks, topics, agents, namespaces, supervisors, event descriptors, sockets. This theory
  holds the three loops all of them share (claim the first free slot, look an entry up by its key,
  release the entries that satisfy a condition) and the contracts the components rely on, as the
  locales \<open>slot_table\<close>, \<open>keyed_table\<close> and \<open>handle_table\<close>.
\<close>

section \<open>The shared loops\<close>

text \<open>\<^verbatim>\<open>for (i = 0; i < N; i++) if (!t[i].used) { initialise t[i]; return i; }\<close>\<close>

definition alloc_slot :: "('e \<Rightarrow> bool) \<Rightarrow> ('e \<Rightarrow> 'e) \<Rightarrow> 'e list \<Rightarrow> (nat \<times> 'e list) option" where
  "alloc_slot used init t =
     (case find_index (\<lambda>e. \<not> used e) t of
        None \<Rightarrow> None
      | Some i \<Rightarrow> Some (i, t[i := init (t ! i)]))"

text \<open>\<^verbatim>\<open>for (i = 0; i < N; i++) if (t[i].used && t[i].key == k) return &t[i]\<close>\<close>

definition lookup_slot :: "('e \<Rightarrow> bool) \<Rightarrow> ('e \<Rightarrow> 'k) \<Rightarrow> 'k \<Rightarrow> 'e list \<Rightarrow> nat option" where
  "lookup_slot used key k t = find_index (\<lambda>e. used e \<and> key e = k) t"

text \<open>\<^verbatim>\<open>for (i = 0; i < N; i++) if (t[i].used && cond(t[i])) t[i].used = 0\<close>\<close>

definition release_where :: "('e \<Rightarrow> bool) \<Rightarrow> ('e \<Rightarrow> 'e) \<Rightarrow> ('e \<Rightarrow> bool) \<Rightarrow> 'e list \<Rightarrow> 'e list" where
  "release_where used rel cond t = map (\<lambda>e. if used e \<and> cond e then rel e else e) t"

definition live :: "('e \<Rightarrow> bool) \<Rightarrow> 'e list \<Rightarrow> nat" where
  "live used t = length (filter used t)"

definition uniq_keys :: "('e \<Rightarrow> bool) \<Rightarrow> ('e \<Rightarrow> 'k) \<Rightarrow> 'e list \<Rightarrow> bool" where
  "uniq_keys used key t \<longleftrightarrow>
     (\<forall>i < length t. \<forall>j < length t.
        used (t ! i) \<longrightarrow> used (t ! j) \<longrightarrow> key (t ! i) = key (t ! j) \<longrightarrow> i = j)"

lemma alloc_slot_SomeD:
  "alloc_slot used init t = Some (i, t') \<Longrightarrow>
   i < length t \<and> \<not> used (t ! i) \<and> (\<forall>j < i. used (t ! j)) \<and> t' = t[i := init (t ! i)]"
  by (auto simp: alloc_slot_def split: option.splits dest: find_index_SomeD)

lemma alloc_slot_length [simp]:
  "alloc_slot used init t = Some (i, t') \<Longrightarrow> length t' = length t"
  by (auto dest: alloc_slot_SomeD)

lemma alloc_slot_None_iff:
  "alloc_slot used init t = None \<longleftrightarrow> (\<forall>e \<in> set t. used e)"
  by (simp add: alloc_slot_def split: option.splits)
    (metis find_index_None_iff option.distinct(1))

lemma live_le: "live used t \<le> length t"
  by (simp add: live_def)

lemma live_0_nth: "live used t = 0 \<Longrightarrow> i < length t \<Longrightarrow> \<not> used (t ! i)"
  by (auto simp: live_def filter_empty_conv)

lemma live_full_iff: "live used t = length t \<longleftrightarrow> (\<forall>e \<in> set t. used e)"
  unfolding live_def by (metis filter_True length_filter_less less_irrefl)

lemma length_release_where [simp]: "length (release_where used rel cond t) = length t"
  by (simp add: release_where_def)

lemma nth_release_where [simp]:
  "i < length t \<Longrightarrow>
   release_where used rel cond t ! i = (if used (t ! i) \<and> cond (t ! i) then rel (t ! i) else t ! i)"
  by (simp add: release_where_def)

lemma lookup_slot_SomeD:
  "lookup_slot used key k t = Some i \<Longrightarrow> i < length t \<and> used (t ! i) \<and> key (t ! i) = k"
  by (auto simp: lookup_slot_def dest: find_index_SomeD)

lemma lookup_slot_None_iff:
  "lookup_slot used key k t = None \<longleftrightarrow> (\<forall>e \<in> set t. used e \<longrightarrow> key e \<noteq> k)"
  by (auto simp: lookup_slot_def scan_simps)

lemma lookup_slot_uniq:
  assumes "uniq_keys used key t" and "i < length t" and "used (t ! i)" and "key (t ! i) = k"
  shows "lookup_slot used key k t = Some i"
  unfolding lookup_slot_def
  using assms by (intro find_index_unique) (auto simp: uniq_keys_def)

section \<open>Tables of slots\<close>

text \<open>
  The contract of a slot table: initialising a slot makes it used, releasing makes it free. From
  these two laws every table gets exact accounting of live entries, a frame rule and the
  characterisation of exhaustion.
\<close>

locale slot_table =
  fixes used :: "'e \<Rightarrow> bool"
    and init :: "'a \<Rightarrow> 'e \<Rightarrow> 'e"
    and rel :: "'e \<Rightarrow> 'e"
  assumes used_init: "used (init a e)"
    and not_used_rel: "\<not> used (rel e)"
begin

lemma alloc_None_full: "alloc_slot used (init a) t = None \<longleftrightarrow> live used t = length t"
  by (simp add: alloc_slot_None_iff live_full_iff)

lemma alloc_live:
  assumes "alloc_slot used (init a) t = Some (i, t')"
  shows "live used t' = Suc (live used t)"
  using alloc_slot_SomeD [OF assms] length_filter_update [of i t used "init a (t ! i)"]
  by (simp add: live_def used_init)

lemma alloc_entry:
  assumes "alloc_slot used (init a) t = Some (i, t')"
  shows "t' ! i = init a (t ! i)" and "used (t' ! i)"
  using alloc_slot_SomeD [OF assms] by (auto simp: used_init)

lemma alloc_frame:
  assumes "alloc_slot used (init a) t = Some (i, t')" and "j \<noteq> i"
  shows "t' ! j = t ! j"
  using alloc_slot_SomeD [OF assms(1)] assms(2) by simp

lemma alloc_was_free:
  assumes "alloc_slot used (init a) t = Some (i, t')"
  shows "i < length t" and "\<not> used (t ! i)"
  using alloc_slot_SomeD [OF assms] by auto

lemma release_used_iff:
  "i < length t \<Longrightarrow>
   used (release_where used rel cond t ! i) \<longleftrightarrow> used (t ! i) \<and> \<not> cond (t ! i)"
  by (auto simp: not_used_rel)

lemma release_live_le: "live used (release_where used rel cond t) \<le> live used t"
  unfolding live_def release_where_def
  by (induction t) (auto simp: not_used_rel)

lemma release_frees_slot:
  assumes "i < length t" and "used (t ! i)" and "cond (t ! i)"
  shows "alloc_slot used (init a) (release_where used rel cond t) \<noteq> None"
proof -
  have "\<not> used (release_where used rel cond t ! i)"
    using assms by (simp add: not_used_rel)
  moreover have "release_where used rel cond t ! i \<in> set (release_where used rel cond t)"
    using assms(1) by (intro nth_mem) simp
  ultimately show ?thesis unfolding alloc_slot_None_iff by blast
qed

end

text \<open>A table whose live entries are found by a key (an identifier, a name in a namespace).\<close>

locale keyed_table = slot_table used init rel
  for used :: "'e \<Rightarrow> bool" and init :: "'a \<Rightarrow> 'e \<Rightarrow> 'e" and rel :: "'e \<Rightarrow> 'e" +
  fixes key :: "'e \<Rightarrow> 'k"
    and arg_key :: "'a \<Rightarrow> 'k"
  assumes key_init: "key (init a e) = arg_key a"
begin

lemma alloc_uniq:
  assumes ok: "uniq_keys used key t" and fresh: "lookup_slot used key (arg_key a) t = None"
    and al: "alloc_slot used (init a) t = Some (i, t')"
  shows "uniq_keys used key t'"
proof -
  from alloc_slot_SomeD [OF al] have i: "i < length t" "t' = t[i := init a (t ! i)]" by auto
  have nk: "used (t ! j) \<Longrightarrow> key (t ! j) \<noteq> arg_key a" if "j < length t" for j
    using fresh that by (simp add: lookup_slot_None_iff)
  show ?thesis
    using ok i nk unfolding uniq_keys_def
    by (auto simp: nth_list_update key_init used_init) (metis key_init)+
qed

lemma alloc_lookup:
  assumes ok: "uniq_keys used key t" and fresh: "lookup_slot used key (arg_key a) t = None"
    and al: "alloc_slot used (init a) t = Some (i, t')"
  shows "lookup_slot used key (arg_key a) t' = Some i"
proof (rule lookup_slot_uniq)
  show "uniq_keys used key t'" by (rule alloc_uniq [OF ok fresh al])
  show "i < length t'" using alloc_was_free [OF al] al by simp
  show "used (t' ! i)" by (rule alloc_entry(2) [OF al])
  show "key (t' ! i) = arg_key a" by (simp add: alloc_entry(1) [OF al] key_init)
qed

lemma release_uniq:
  assumes "uniq_keys used key t"
  shows "uniq_keys used key (release_where used rel cond t)"
  using assms unfolding uniq_keys_def by (auto simp: not_used_rel split: if_splits)

lemma release_lookup_None:
  assumes "\<And>e. e \<in> set t \<Longrightarrow> used e \<Longrightarrow> key e = k \<Longrightarrow> cond e"
  shows "lookup_slot used key k (release_where used rel cond t) = None"
  using assms by (auto simp: lookup_slot_None_iff release_where_def not_used_rel)

end

section \<open>Tables of reference-counted handles\<close>

text \<open>
  Descriptor objects (event counters, epoll sets, rings) are shared by \<^verbatim>\<open>dup\<close> and
  \<^verbatim>\<open>fork\<close> through a reference count: allocation starts it at one, \<^verbatim>\<open>ref\<close> adds one,
  \<^verbatim>\<open>close\<close> takes one away and frees the slot when it reaches zero.
\<close>

locale handle_table = slot_table used init rel
  for used :: "'e \<Rightarrow> bool" and init :: "'a \<Rightarrow> 'e \<Rightarrow> 'e" and rel :: "'e \<Rightarrow> 'e" +
  fixes refs :: "'e \<Rightarrow> u32"
    and ref :: "'e \<Rightarrow> 'e"
    and close :: "'e \<Rightarrow> 'e"
  assumes refs_init: "refs (init a e) = 1"
    and used_ref: "used (ref e) = used e"
    and refs_ref: "refs (ref e) = refs e + 1"
    and refs_close: "refs e \<noteq> 0 \<Longrightarrow> refs (close e) = refs e - 1"
    and used_close: "used e \<Longrightarrow> refs e \<noteq> 0 \<Longrightarrow> used (close e) \<longleftrightarrow> refs e \<noteq> 1"
begin

text \<open>The invariant: a used handle has a positive count.\<close>

definition counted :: "'e \<Rightarrow> bool" where
  "counted e \<longleftrightarrow> (used e \<longrightarrow> refs e \<noteq> 0)"

lemma counted_init: "counted (init a e)"
  by (simp add: counted_def refs_init)

lemma counted_close: "counted e \<Longrightarrow> used e \<Longrightarrow> counted (close e)"
  by (auto simp: counted_def refs_close used_close)

lemma refs_funpow: "refs ((ref ^^ n) e) = refs e + of_nat n"
  by (induction n) (auto simp: refs_ref)

lemma used_funpow_ref: "used ((ref ^^ n) e) = used e"
  by (induction n) (auto simp: used_ref)

text \<open>After \<open>n\<close> closes fewer than the count the handle is still open, and the last one frees it.\<close>

lemma close_funpow:
  assumes "used e" and "n < unat (refs e)"
  shows "used ((close ^^ n) e) \<and> unat (refs ((close ^^ n) e)) = unat (refs e) - n"
  using assms(2)
proof (induction n)
  case 0
  then show ?case using assms(1) by simp
next
  case (Suc n)
  then have u: "used ((close ^^ n) e)"
    and r: "unat (refs ((close ^^ n) e)) = unat (refs e) - n" by auto
  have gt: "1 < unat (refs ((close ^^ n) e))" using Suc.prems r by linarith
  then have nz: "refs ((close ^^ n) e) \<noteq> 0" and n1: "refs ((close ^^ n) e) \<noteq> 1"
    by (auto simp: unat_eq_0)
  have "unat (refs ((close ^^ n) e) - 1) = unat (refs e) - Suc n"
    using nz r by (simp add: unat_minus_one)
  then show ?case using u nz n1 by (simp add: refs_close used_close)
qed

lemma last_close_frees:
  assumes "used e" and "refs e \<noteq> 0"
  shows "\<not> used ((close ^^ unat (refs e)) e)"
proof -
  let ?n = "unat (refs e) - 1"
  have n: "unat (refs e) = Suc ?n" using assms(2) by (simp add: unat_gt_0)
  then have lt: "?n < unat (refs e)" by linarith
  let ?e = "(close ^^ ?n) e"
  have u: "used ?e" and r: "unat (refs ?e) = 1"
    using close_funpow [OF assms(1) lt] n by auto
  then have "refs ?e = 1" by (metis unat_1 word_unat_eq_iff)
  then have "\<not> used (close ?e)" using u by (simp add: used_close)
  then show ?thesis by (subst n) simp
qed

end

end
