(* ===== verification/Cap_Token.thy ===== *)
theory Cap_Token
  imports Slot_Table
begin

text \<open>
  Capability tokens, \<^verbatim>\<open>kernel/src/ipc/cap_token.{h,c}\<close>: a table of 32 bearer or targeted
  tokens, each granting capability bits on a resource prefix, with delegation chains of depth at
  most four and cascading revocation. Each function body under \<^verbatim>\<open>token_lock\<close> is one atomic
  definition; \<^verbatim>\<open>cap_token_delegate\<close>, which takes the lock three times, is the composition of
  its three critical sections.
\<close>

section \<open>State\<close>

record cap_token =
  ct_id :: u32
  ct_owner_pid :: u64
  ct_target_pid :: u64
  ct_perms :: u32
  ct_resource :: string
  ct_parent_id :: u32
  ct_depth :: u8
  ct_used :: bool

record token_info =
  ti_id :: u32
  ti_target_pid :: u64
  ti_perms :: u32
  ti_resource :: string

record token_state =
  tokens :: "cap_token list"
  next_token_id :: u32

definition MAX_TOKENS :: nat where "MAX_TOKENS = 32"
definition TOKEN_PATH_MAX :: nat where "TOKEN_PATH_MAX = 64"
definition TOKEN_MAX_DEPTH :: u8 where "TOKEN_MAX_DEPTH = 4"

text \<open>The zero-initialised static table.\<close>

definition token_zero :: cap_token where
  "token_zero = \<lparr>ct_id = 0, ct_owner_pid = 0, ct_target_pid = 0, ct_perms = 0,
     ct_resource = replicate TOKEN_PATH_MAX NUL, ct_parent_id = 0, ct_depth = 0, ct_used = False\<rparr>"

definition token_boot :: token_state where
  "token_boot = \<lparr>tokens = replicate MAX_TOKENS token_zero, next_token_id = 1\<rparr>"

section \<open>Operations\<close>

text \<open>A \<^verbatim>\<open>const char *\<close> that may be NULL.\<close>

definition opt_str :: "string option \<Rightarrow> string" where
  "opt_str r = (case r of None \<Rightarrow> [] | Some s \<Rightarrow> s)"

fun token_init :: "u32 \<times> u64 \<times> u64 \<times> u32 \<times> string option \<Rightarrow> cap_token \<Rightarrow> cap_token" where
  "token_init (tid, owner, target, perms, resource) t =
     t\<lparr>ct_used := True, ct_id := tid, ct_owner_pid := owner, ct_target_pid := target,
       ct_perms := perms, ct_parent_id := 0, ct_depth := 0,
       ct_resource := str_copy (ct_resource t) (opt_str resource) TOKEN_PATH_MAX\<rparr>"

definition token_clear :: "cap_token \<Rightarrow> cap_token" where
  "token_clear t = t\<lparr>ct_used := False\<rparr>"

definition cap_token_create ::
  "u64 \<Rightarrow> u32 \<Rightarrow> u32 \<Rightarrow> u64 \<Rightarrow> string option \<Rightarrow> token_state \<Rightarrow> u32 ret \<times> token_state" where
  "cap_token_create owner_pid owner_caps perms target_pid resource s =
     (if perms AND NOT owner_caps \<noteq> 0 then (Inl EPERM, s)
      else case alloc_slot ct_used
                  (token_init (next_token_id s, owner_pid, target_pid, perms, resource)) (tokens s) of
             None \<Rightarrow> (Inl ENOMEM, s)
           | Some (i, ts) \<Rightarrow>
               (Inr (next_token_id s), s\<lparr>tokens := ts, next_token_id := next_token_id s + 1\<rparr>))"

text \<open>
  \<^verbatim>\<open>revoke_cascade_locked\<close> recurses through the children it finds while it rescans the table.
  The recursion is on a fuel argument that counts nested calls; \<open>None\<close> would be a recursion
  deeper than the fuel, and \<open>revoke_cascade_returns\<close> shows that the table size is enough.
\<close>

definition revoke_one :: "u32 \<Rightarrow> cap_token list \<Rightarrow> cap_token list" where
  "revoke_one token_id ts =
     (case lookup_slot ct_used ct_id token_id ts of
        None \<Rightarrow> ts
      | Some i \<Rightarrow> ts[i := token_clear (ts ! i)])"

fun revoke_scan ::
  "(u32 \<Rightarrow> cap_token list \<Rightarrow> cap_token list option) \<Rightarrow> u32 \<Rightarrow> nat list \<Rightarrow> bool
     \<Rightarrow> cap_token list \<Rightarrow> (bool \<times> cap_token list) option" where
  "revoke_scan cascade token_id [] found ts = Some (found, ts)"
| "revoke_scan cascade token_id (i # is) found ts =
     (if ct_used (ts ! i) \<and> ct_parent_id (ts ! i) = token_id
      then case cascade (ct_id (ts ! i)) ts of
             None \<Rightarrow> None
           | Some ts' \<Rightarrow> revoke_scan cascade token_id is True ts'
      else revoke_scan cascade token_id is found ts)"

fun revoke_passes ::
  "(u32 \<Rightarrow> cap_token list \<Rightarrow> cap_token list option) \<Rightarrow> u32 \<Rightarrow> nat \<Rightarrow> cap_token list
     \<Rightarrow> cap_token list option" where
  "revoke_passes cascade token_id 0 ts = Some ts"
| "revoke_passes cascade token_id (Suc p) ts =
     (case revoke_scan cascade token_id [0..<length ts] False ts of
        None \<Rightarrow> None
      | Some (found, ts') \<Rightarrow> if \<not> found then Some ts' else revoke_passes cascade token_id p ts')"

fun revoke_cascade_locked :: "nat \<Rightarrow> u32 \<Rightarrow> cap_token list \<Rightarrow> cap_token list option" where
  "revoke_cascade_locked 0 token_id ts = None"
| "revoke_cascade_locked (Suc fuel) token_id ts =
     revoke_passes (revoke_cascade_locked fuel) token_id MAX_TOKENS (revoke_one token_id ts)"

definition cap_token_revoke :: "u32 \<Rightarrow> u64 \<Rightarrow> token_state \<Rightarrow> (unit ret \<times> token_state) option" where
  "cap_token_revoke token_id caller_pid s =
     (case lookup_slot ct_used ct_id token_id (tokens s) of
        None \<Rightarrow> Some (Inl ENOENT, s)
      | Some i \<Rightarrow>
          if ct_owner_pid (tokens s ! i) \<noteq> caller_pid then Some (Inl EPERM, s)
          else map_option (\<lambda>ts. (Inr (), s\<lparr>tokens := ts\<rparr>))
                 (revoke_cascade_locked MAX_TOKENS token_id (tokens s)))"

definition token_matches :: "u64 \<Rightarrow> u32 \<Rightarrow> string option \<Rightarrow> cap_token \<Rightarrow> bool" where
  "token_matches pid needed_cap resource t \<longleftrightarrow>
     ct_used t \<and>
     \<not> (ct_target_pid t \<noteq> 0 \<and> ct_target_pid t \<noteq> pid) \<and>
     ct_perms t AND needed_cap \<noteq> 0 \<and>
     (case resource of
        None \<Rightarrow> True
      | Some r \<Rightarrow> cstr (ct_resource t) \<noteq> [] \<longrightarrow> prefix_match (ct_resource t) r)"

definition cap_token_check :: "u64 \<Rightarrow> u32 \<Rightarrow> string option \<Rightarrow> token_state \<Rightarrow> bool" where
  "cap_token_check pid needed_cap resource s =
     (find_index (token_matches pid needed_cap resource) (tokens s) \<noteq> None)"

definition token_info_of :: "cap_token \<Rightarrow> token_info" where
  "token_info_of t = \<lparr>ti_id = ct_id t, ti_target_pid = ct_target_pid t, ti_perms = ct_perms t,
     ti_resource = ct_resource t\<rparr>"

fun token_list_loop :: "u64 \<Rightarrow> nat \<Rightarrow> cap_token list \<Rightarrow> token_info list" where
  "token_list_loop owner_pid room [] = []"
| "token_list_loop owner_pid room (t # ts) =
     (if room = 0 then []
      else if ct_used t \<and> ct_owner_pid t = owner_pid
      then token_info_of t # token_list_loop owner_pid (room - 1) ts
      else token_list_loop owner_pid room ts)"

definition cap_token_list :: "u64 \<Rightarrow> nat \<Rightarrow> token_state \<Rightarrow> token_info list" where
  "cap_token_list owner_pid max_count s = token_list_loop owner_pid max_count (tokens s)"

text \<open>The three critical sections of \<^verbatim>\<open>cap_token_delegate\<close>.\<close>

definition delegate_check ::
  "u32 \<Rightarrow> u64 \<Rightarrow> u32 \<Rightarrow> string option \<Rightarrow> token_state \<Rightarrow> (u32 \<times> string \<times> u32 \<times> u8) ret" where
  "delegate_check parent_id caller_pid perms resource s =
     (case lookup_slot ct_used ct_id parent_id (tokens s) of
        None \<Rightarrow> Inl ENOENT
      | Some i \<Rightarrow>
          (let parent = tokens s ! i;
               perms' = (if perms = 0 then ct_perms parent else perms);
               given = cstr (opt_str resource) \<noteq> []
           in
           if ct_target_pid parent \<noteq> 0 \<and> ct_target_pid parent \<noteq> caller_pid then Inl EPERM
           else if perms' AND NOT (ct_perms parent) \<noteq> 0 then Inl EPERM
           else if given \<and> cstr (ct_resource parent) \<noteq> [] \<and>
                   \<not> prefix_match (ct_resource parent) (opt_str resource) then Inl EPERM
           else if ct_depth parent \<ge> TOKEN_MAX_DEPTH then Inl EPERM
           else Inr (perms', if given then opt_str resource else ct_resource parent,
                     ct_id parent, ct_depth parent + 1)))"

definition delegate_link :: "u32 \<Rightarrow> u32 \<Rightarrow> u8 \<Rightarrow> token_state \<Rightarrow> token_state" where
  "delegate_link new_id parent_tok_id new_depth s =
     (case lookup_slot ct_used ct_id new_id (tokens s) of
        None \<Rightarrow> s
      | Some i \<Rightarrow> s\<lparr>tokens := (tokens s)[i :=
                    (tokens s ! i)\<lparr>ct_parent_id := parent_tok_id, ct_depth := new_depth\<rparr>]\<rparr>)"

definition cap_token_delegate ::
  "u32 \<Rightarrow> u64 \<Rightarrow> u64 \<Rightarrow> u32 \<Rightarrow> string option \<Rightarrow> token_state \<Rightarrow> u32 ret \<times> token_state" where
  "cap_token_delegate parent_id caller_pid target_pid perms resource s =
     (case delegate_check parent_id caller_pid perms resource s of
        Inl e \<Rightarrow> (Inl e, s)
      | Inr (perms', res, parent_tok_id, new_depth) \<Rightarrow>
          (case cap_token_create caller_pid perms' perms' target_pid (Some res) s of
             (Inl e, s') \<Rightarrow> (Inl e, s')
           | (Inr new_id, s') \<Rightarrow>
               (Inr new_id, if 0 <s new_id then delegate_link new_id parent_tok_id new_depth s'
                            else s')))"

definition cap_token_cleanup_pid :: "u64 \<Rightarrow> token_state \<Rightarrow> token_state" where
  "cap_token_cleanup_pid pid s =
     s\<lparr>tokens := release_where ct_used token_clear
                  (\<lambda>t. ct_owner_pid t = pid \<or> ct_target_pid t = pid) (tokens s)\<rparr>"

section \<open>The table contract\<close>

interpretation tok: keyed_table ct_used token_init token_clear ct_id fst
proof unfold_locales
  fix a e show "ct_used (token_init a e)" by (cases a) simp
next
  fix e show "\<not> ct_used (token_clear e)" by (simp add: token_clear_def)
next
  fix a e show "ct_id (token_init a e) = fst a" by (cases a) simp
qed

lemma token_clear_simps [simp]:
  "ct_id (token_clear t) = ct_id t" "ct_owner_pid (token_clear t) = ct_owner_pid t"
  "ct_target_pid (token_clear t) = ct_target_pid t" "ct_perms (token_clear t) = ct_perms t"
  "ct_resource (token_clear t) = ct_resource t" "ct_parent_id (token_clear t) = ct_parent_id t"
  "ct_depth (token_clear t) = ct_depth t" "\<not> ct_used (token_clear t)"
  by (simp_all add: token_clear_def)

section \<open>Cascading revocation\<close>

text \<open>What revocation may do to the table: clear \<^verbatim>\<open>used\<close> flags and nothing else.\<close>

definition shrinks :: "cap_token list \<Rightarrow> cap_token list \<Rightarrow> bool" where
  "shrinks ts ts' \<longleftrightarrow> length ts' = length ts \<and>
     (\<forall>i < length ts. ts' ! i = ts ! i \<or> ts' ! i = token_clear (ts ! i))"

text \<open>The identifiers reachable from a token along live delegation links.\<close>

inductive delegated_from :: "cap_token list \<Rightarrow> u32 \<Rightarrow> u32 \<Rightarrow> bool" for ts root where
  self: "delegated_from ts root root"
| child: "delegated_from ts root (ct_parent_id (ts ! i)) \<Longrightarrow> i < length ts \<Longrightarrow> ct_used (ts ! i) \<Longrightarrow>
     delegated_from ts root (ct_id (ts ! i))"

definition has_child :: "cap_token list \<Rightarrow> u32 \<Rightarrow> bool" where
  "has_child ts p \<longleftrightarrow> (\<exists>i < length ts. ct_used (ts ! i) \<and> ct_parent_id (ts ! i) = p)"

text \<open>The cleared tokens of \<open>ts'\<close> (with respect to \<open>ts\<close>) have no live children left.\<close>

definition closed_down :: "cap_token list \<Rightarrow> cap_token list \<Rightarrow> bool" where
  "closed_down ts ts' \<longleftrightarrow>
     (\<forall>i < length ts. ct_used (ts ! i) \<longrightarrow> \<not> ct_used (ts' ! i) \<longrightarrow> \<not> has_child ts' (ct_id (ts ! i)))"

definition cleared_below :: "u32 \<Rightarrow> cap_token list \<Rightarrow> cap_token list \<Rightarrow> bool" where
  "cleared_below root ts ts' \<longleftrightarrow>
     (\<forall>i < length ts. ct_used (ts ! i) \<longrightarrow> \<not> ct_used (ts' ! i) \<longrightarrow>
        delegated_from ts root (ct_id (ts ! i)))"

lemma shrinks_refl [simp]: "shrinks ts ts"
  by (simp add: shrinks_def)

lemma token_clear_idem [simp]: "token_clear (token_clear t) = token_clear t"
  by (simp add: token_clear_def)

lemma shrinks_trans:
  assumes ab: "shrinks a b" and bc: "shrinks b c"
  shows "shrinks a c"
proof -
  have "c ! i = a ! i \<or> c ! i = token_clear (a ! i)" if "i < length a" for i
  proof -
    have "b ! i = a ! i \<or> b ! i = token_clear (a ! i)" using ab that by (simp add: shrinks_def)
    moreover have "c ! i = b ! i \<or> c ! i = token_clear (b ! i)"
      using ab bc that by (simp add: shrinks_def)
    ultimately show ?thesis by auto
  qed
  then show ?thesis using ab bc by (simp add: shrinks_def)
qed

lemma shrinks_length: "shrinks a b \<Longrightarrow> length b = length a"
  by (simp add: shrinks_def)

lemma shrinks_nth:
  assumes "shrinks a b" and "i < length a"
  shows "ct_id (b ! i) = ct_id (a ! i)" and "ct_parent_id (b ! i) = ct_parent_id (a ! i)"
    and "ct_used (b ! i) \<Longrightarrow> b ! i = a ! i"
proof -
  have "b ! i = a ! i \<or> b ! i = token_clear (a ! i)" using assms by (simp add: shrinks_def)
  then show "ct_id (b ! i) = ct_id (a ! i)" "ct_parent_id (b ! i) = ct_parent_id (a ! i)"
    "ct_used (b ! i) \<Longrightarrow> b ! i = a ! i" by auto
qed

lemma shrinks_used:
  assumes "shrinks a b" and "i < length a" and "ct_used (b ! i)"
  shows "ct_used (a ! i)"
  using shrinks_nth(3) [OF assms] assms(3) by simp

lemma shrinks_has_child: "shrinks a b \<Longrightarrow> has_child b p \<Longrightarrow> has_child a p"
proof -
  assume s: "shrinks a b" and "has_child b p"
  then obtain i where i: "i < length b" "ct_used (b ! i)" "ct_parent_id (b ! i) = p"
    by (auto simp: has_child_def)
  then have ia: "i < length a" using s by (simp add: shrinks_length)
  have "b ! i = a ! i" by (rule shrinks_nth(3) [OF s ia i(2)])
  with i ia show "has_child a p" by (auto simp: has_child_def)
qed

lemma shrinks_live: "shrinks a b \<Longrightarrow> live ct_used b \<le> live ct_used a"
proof -
  assume s: "shrinks a b"
  have "card {i. i < length b \<and> ct_used (b ! i)} \<le> card {i. i < length a \<and> ct_used (a ! i)}"
  proof (rule card_mono)
    show "{i. i < length b \<and> ct_used (b ! i)} \<subseteq> {i. i < length a \<and> ct_used (a ! i)}"
      using shrinks_used [OF s] by (simp add: shrinks_length [OF s] subset_iff)
  qed simp
  then show ?thesis by (simp add: live_def length_filter_conv_card)
qed

lemma shrinks_delegated:
  "delegated_from b root x \<Longrightarrow> shrinks a b \<Longrightarrow> delegated_from a root x"
proof (induction rule: delegated_from.induct)
  case self
  show ?case by (rule delegated_from.self)
next
  case (child i)
  have i: "i < length a" using child by (simp add: shrinks_length)
  have "delegated_from a root (ct_parent_id (a ! i))"
    using child.IH child.prems shrinks_nth(2) [OF child.prems i] by simp
  moreover have "ct_used (a ! i)" by (rule shrinks_used [OF child.prems i child.hyps(3)])
  ultimately have "delegated_from a root (ct_id (a ! i))"
    using i by (intro delegated_from.child)
  then show ?case using shrinks_nth(1) [OF child.prems i] by simp
qed

lemma revoke_one_shrinks: "shrinks ts (revoke_one token_id ts)"
  by (auto simp: revoke_one_def shrinks_def nth_list_update_if split: option.splits)

lemma revoke_one_cleared:
  assumes "i < length ts" and "ct_used (ts ! i)" and "\<not> ct_used (revoke_one token_id ts ! i)"
  shows "ct_id (ts ! i) = token_id"
  using assms by (auto simp: revoke_one_def nth_list_update_if split: option.splits if_splits
      dest: lookup_slot_SomeD)

lemma revoke_one_gone:
  assumes "uniq_keys ct_used ct_id ts" and "i < length ts" and "ct_id (ts ! i) = token_id"
  shows "\<not> ct_used (revoke_one token_id ts ! i)"
proof (cases "ct_used (ts ! i)")
  case True
  then have "lookup_slot ct_used ct_id token_id ts = Some i"
    using assms by (intro lookup_slot_uniq)
  then show ?thesis using assms(2) by (simp add: revoke_one_def)
next
  case False
  then show ?thesis using shrinks_used [OF revoke_one_shrinks assms(2), of token_id] by blast
qed

definition has_token :: "u32 \<Rightarrow> cap_token list \<Rightarrow> bool" where
  "has_token x ts \<longleftrightarrow> (\<exists>i < length ts. ct_used (ts ! i) \<and> ct_id (ts ! i) = x)"

lemma revoke_one_hit:
  assumes "has_token token_id ts"
  shows "Suc (live ct_used (revoke_one token_id ts)) = live ct_used ts"
proof -
  obtain k where k: "lookup_slot ct_used ct_id token_id ts = Some k"
    using assms by (cases "lookup_slot ct_used ct_id token_id ts")
      (auto simp: lookup_slot_None_iff has_token_def)
  then have "k < length ts" "ct_used (ts ! k)" by (auto dest: lookup_slot_SomeD)
  then show ?thesis
    using k by (simp add: revoke_one_def live_def length_filter_le_update)
qed

definition scan_inv :: "u32 \<Rightarrow> cap_token list \<Rightarrow> cap_token list \<Rightarrow> bool" where
  "scan_inv root ts0 ts \<longleftrightarrow> shrinks ts0 ts \<and> cleared_below root ts0 ts \<and>
     (\<forall>i < length ts0. ct_used (ts0 ! i) \<longrightarrow> \<not> ct_used (ts ! i) \<longrightarrow> ct_id (ts0 ! i) \<noteq> root \<longrightarrow>
        \<not> has_child ts (ct_id (ts0 ! i)))"

definition cascade_post :: "u32 \<Rightarrow> cap_token list \<Rightarrow> cap_token list \<Rightarrow> bool" where
  "cascade_post root ts ts' \<longleftrightarrow> scan_inv root ts ts' \<and> \<not> has_child ts' root \<and>
     (has_token root ts \<longrightarrow> live ct_used ts' < live ct_used ts)"

definition good :: "(u32 \<Rightarrow> cap_token list \<Rightarrow> cap_token list option) \<Rightarrow> bool" where
  "good cascade \<longleftrightarrow> (\<forall>x ts ts'. length ts \<le> MAX_TOKENS \<longrightarrow> cascade x ts = Some ts' \<longrightarrow>
     cascade_post x ts ts')"

lemma delegated_trans:
  "delegated_from ts b c \<Longrightarrow> delegated_from ts a b \<Longrightarrow> delegated_from ts a c"
  by (induction rule: delegated_from.induct) (auto intro: delegated_from.child)

lemma scan_inv_shrinks: "scan_inv root ts0 ts \<Longrightarrow> shrinks ts0 ts"
  by (simp add: scan_inv_def)

lemma scan_inv_step:
  assumes inv: "scan_inv root ts0 ts" and i: "i < length ts" "ct_used (ts ! i)"
    and p: "ct_parent_id (ts ! i) = root" and post: "cascade_post (ct_id (ts ! i)) ts ts1"
  shows "scan_inv root ts0 ts1"
proof -
  have s0: "shrinks ts0 ts" and s1: "shrinks ts ts1"
    using inv post by (auto simp: cascade_post_def scan_inv_def)
  have len: "length ts = length ts0" by (rule shrinks_length [OF s0])
  have nochild: "\<not> has_child ts1 (ct_id (ts ! k))"
    if "k < length ts" "ct_used (ts ! k)" "\<not> ct_used (ts1 ! k)" for k
    using post that by (cases "ct_id (ts ! k) = ct_id (ts ! i)")
      (auto simp: cascade_post_def scan_inv_def)
  have root_i: "delegated_from ts0 root (ct_id (ts ! i))"
  proof -
    have "delegated_from ts root (ct_id (ts ! i))"
      using delegated_from.child [of ts root i] i p delegated_from.self by simp
    then show ?thesis by (rule shrinks_delegated [OF _ s0])
  qed
  have below: "delegated_from ts0 root (ct_id (ts0 ! k))"
    if k: "k < length ts0" "ct_used (ts0 ! k)" "\<not> ct_used (ts1 ! k)" for k
  proof (cases "ct_used (ts ! k)")
    case True
    then have "delegated_from ts (ct_id (ts ! i)) (ct_id (ts ! k))"
      using post k len by (simp add: cascade_post_def scan_inv_def cleared_below_def)
    then have "delegated_from ts0 (ct_id (ts ! i)) (ct_id (ts ! k))"
      by (rule shrinks_delegated [OF _ s0])
    then have "delegated_from ts0 root (ct_id (ts ! k))" by (rule delegated_trans [OF _ root_i])
    then show ?thesis using shrinks_nth(1) [OF s0 k(1)] by simp
  next
    case False
    then show ?thesis using inv k by (simp add: scan_inv_def cleared_below_def)
  qed
  have "\<not> has_child ts1 (ct_id (ts0 ! k))"
    if k: "k < length ts0" "ct_used (ts0 ! k)" "\<not> ct_used (ts1 ! k)" "ct_id (ts0 ! k) \<noteq> root" for k
  proof (cases "ct_used (ts ! k)")
    case True
    then show ?thesis using nochild [of k] k len shrinks_nth(1) [OF s0 k(1)] by simp
  next
    case False
    then have "\<not> has_child ts (ct_id (ts0 ! k))" using inv k by (simp add: scan_inv_def)
    then show ?thesis using shrinks_has_child [OF s1] by blast
  qed
  then show ?thesis
    using below shrinks_trans [OF s0 s1] by (simp add: scan_inv_def cleared_below_def)
qed

lemma revoke_scan_post:
  assumes g: "good cascade"
  shows "revoke_scan cascade root is found ts = Some (f, ts') \<Longrightarrow> length ts \<le> MAX_TOKENS \<Longrightarrow>
     set is \<subseteq> {..<length ts} \<Longrightarrow> scan_inv root ts0 ts \<Longrightarrow>
     scan_inv root ts0 ts' \<and> shrinks ts ts' \<and> (found \<longrightarrow> f) \<and>
     (f \<longrightarrow> found \<or> live ct_used ts' < live ct_used ts) \<and>
     (\<not> f \<longrightarrow> ts' = ts \<and> (\<forall>i \<in> set is. \<not> (ct_used (ts ! i) \<and> ct_parent_id (ts ! i) = root)))"
proof (induction "is" arbitrary: found ts)
  case Nil
  then show ?case by auto
next
  case (Cons i "is")
  show ?case
  proof (cases "ct_used (ts ! i) \<and> ct_parent_id (ts ! i) = root")
    case False
    then have run: "revoke_scan cascade root is found ts = Some (f, ts')"
      using Cons.prems(1) by auto
    show ?thesis using Cons.IH [OF run] False Cons.prems by auto
  next
    case True
    then obtain ts1 where ts1: "cascade (ct_id (ts ! i)) ts = Some ts1"
      and run: "revoke_scan cascade root is True ts1 = Some (f, ts')"
      using Cons.prems(1) by (auto split: option.splits)
    have i: "i < length ts" using Cons.prems(3) by simp
    have post: "cascade_post (ct_id (ts ! i)) ts ts1"
      using g ts1 Cons.prems(2) by (simp add: good_def)
    then have s1: "shrinks ts ts1" by (simp add: cascade_post_def scan_inv_def)
    have inv1: "scan_inv root ts0 ts1"
      using scan_inv_step [OF Cons.prems(4) i _ _ post] True by simp
    have lt: "live ct_used ts1 < live ct_used ts"
      using post i True by (auto simp: cascade_post_def has_token_def)
    have "scan_inv root ts0 ts' \<and> shrinks ts1 ts' \<and> f"
      using Cons.IH [OF run _ _ inv1] Cons.prems(2,3) shrinks_length [OF s1] by auto
    then show ?thesis
      using shrinks_trans [OF s1, of ts'] shrinks_live [of ts1 ts'] lt by simp
  qed
qed

lemma revoke_passes_post:
  assumes g: "good cascade"
  shows "revoke_passes cascade root p ts = Some ts' \<Longrightarrow> length ts \<le> MAX_TOKENS \<Longrightarrow>
     scan_inv root ts0 ts \<Longrightarrow> live ct_used ts \<le> p \<Longrightarrow>
     scan_inv root ts0 ts' \<and> shrinks ts ts' \<and> \<not> has_child ts' root"
proof (induction p arbitrary: ts)
  case 0
  then have "\<not> has_child ts root" using live_0_nth [of ct_used ts] by (auto simp: has_child_def)
  then show ?case using 0 by auto
next
  case (Suc p)
  from Suc.prems(1) obtain f ts1 where sc:
    "revoke_scan cascade root [0..<length ts] False ts = Some (f, ts1)"
    and rest: "if \<not> f then ts' = ts1 else revoke_passes cascade root p ts1 = Some ts'"
    by (auto split: option.splits if_splits)
  have sub: "set [0..<length ts] \<subseteq> {..<length ts}" by auto
  note post = revoke_scan_post [OF g sc Suc.prems(2) sub Suc.prems(3)]
  show ?case
  proof (cases f)
    case False
    then show ?thesis using post rest by (auto simp: has_child_def)
  next
    case True
    then have s1: "shrinks ts ts1" and inv1: "scan_inv root ts0 ts1"
      and lt: "live ct_used ts1 < live ct_used ts" using post by auto
    have run: "revoke_passes cascade root p ts1 = Some ts'" using rest True by simp
    have "scan_inv root ts0 ts' \<and> shrinks ts1 ts' \<and> \<not> has_child ts' root"
      by (rule Suc.IH [OF run _ inv1]) (use lt Suc.prems shrinks_length [OF s1] in auto)
    then show ?thesis using shrinks_trans [OF s1, of ts'] by simp
  qed
qed

lemma live_le_MAX: "length ts \<le> MAX_TOKENS \<Longrightarrow> live ct_used ts \<le> MAX_TOKENS"
  using live_le [of ct_used ts] by simp

lemma good_revoke_cascade: "good (revoke_cascade_locked fuel)"
proof (induction fuel)
  case 0
  show ?case by (simp add: good_def)
next
  case (Suc fuel)
  have "cascade_post root ts ts'"
    if len: "length ts \<le> MAX_TOKENS"
      and run: "revoke_passes (revoke_cascade_locked fuel) root MAX_TOKENS (revoke_one root ts)
                  = Some ts'" for root ts ts'
  proof -
    let ?ts = "revoke_one root ts"
    have s: "shrinks ts ?ts" by (rule revoke_one_shrinks)
    have l: "length ?ts = length ts" by (rule shrinks_length [OF s])
    have inv: "scan_inv root ts ?ts"
      using s revoke_one_cleared [of _ ts root]
      by (auto simp: scan_inv_def cleared_below_def intro: delegated_from.self)
    have post: "scan_inv root ts ts'" "shrinks ?ts ts'" "\<not> has_child ts' root"
      using revoke_passes_post [OF Suc run _ inv] len l live_le_MAX [of ?ts] by auto
    have "live ct_used ts' < live ct_used ts" if "has_token root ts"
      using revoke_one_hit [OF that] shrinks_live [OF post(2)] by simp
    then show ?thesis using post by (simp add: cascade_post_def)
  qed
  then show ?case by (simp add: good_def)
qed

text \<open>Enough fuel: the nesting of the recursion is bounded by the number of live tokens.\<close>

lemma revoke_scan_returns:
  assumes g: "good cascade"
    and r: "\<And>x ts. length ts \<le> MAX_TOKENS \<Longrightarrow> has_token x ts \<Longrightarrow> live ct_used ts \<le> n \<Longrightarrow>
              cascade x ts \<noteq> None"
  shows "length ts \<le> MAX_TOKENS \<Longrightarrow> set is \<subseteq> {..<length ts} \<Longrightarrow> live ct_used ts \<le> n \<Longrightarrow>
     revoke_scan cascade root is found ts \<noteq> None"
proof (induction "is" arbitrary: found ts)
  case Nil
  then show ?case by simp
next
  case (Cons i "is")
  show ?case
  proof (cases "ct_used (ts ! i) \<and> ct_parent_id (ts ! i) = root")
    case False
    then show ?thesis using Cons by auto
  next
    case True
    then have "has_token (ct_id (ts ! i)) ts" using Cons.prems(2) by (auto simp: has_token_def)
    then obtain ts1 where ts1: "cascade (ct_id (ts ! i)) ts = Some ts1"
      using r Cons.prems(1,3) by blast
    then have s1: "shrinks ts ts1"
      using g Cons.prems(1) by (auto simp: good_def cascade_post_def scan_inv_def)
    have "revoke_scan cascade root is True ts1 \<noteq> None"
      using Cons.IH [of ts1 True] Cons.prems shrinks_length [OF s1] shrinks_live [OF s1] by simp
    then show ?thesis using True ts1 by simp
  qed
qed

lemma revoke_passes_returns:
  assumes g: "good cascade"
    and r: "\<And>x ts. length ts \<le> MAX_TOKENS \<Longrightarrow> has_token x ts \<Longrightarrow> live ct_used ts \<le> n \<Longrightarrow>
              cascade x ts \<noteq> None"
  shows "length ts \<le> MAX_TOKENS \<Longrightarrow> live ct_used ts \<le> n \<Longrightarrow>
     revoke_passes cascade root p ts \<noteq> None"
proof (induction p arbitrary: ts)
  case 0
  then show ?case by simp
next
  case (Suc p)
  have "revoke_scan cascade root [0..<length ts] False ts \<noteq> None"
    by (rule revoke_scan_returns [OF g r]) (use Suc.prems in auto)
  then obtain f ts1 where sc: "revoke_scan cascade root [0..<length ts] False ts = Some (f, ts1)"
    by auto
  have s1: "shrinks ts ts1"
  proof -
    have "scan_inv root ts ts" by (simp add: scan_inv_def cleared_below_def)
    moreover have "set [0..<length ts] \<subseteq> {..<length ts}" by auto
    ultimately show ?thesis using revoke_scan_post [OF g sc Suc.prems(1)] by blast
  qed
  then show ?case
    using Suc.IH [of ts1] Suc.prems sc shrinks_length [OF s1] shrinks_live [OF s1] by simp
qed

lemma revoke_cascade_returns:
  "length ts \<le> MAX_TOKENS \<Longrightarrow> has_token root ts \<Longrightarrow> live ct_used ts \<le> fuel \<Longrightarrow>
   revoke_cascade_locked fuel root ts \<noteq> None"
proof (induction fuel arbitrary: root ts)
  case 0
  then have "live ct_used ts = 0" by simp
  then show ?case using 0(2) live_0_nth [of ct_used ts] by (auto simp: has_token_def)
next
  case (Suc fuel)
  let ?ts = "revoke_one root ts"
  have s: "shrinks ts ?ts" by (rule revoke_one_shrinks)
  have "Suc (live ct_used ?ts) = live ct_used ts"
    by (rule revoke_one_hit [OF Suc.prems(2)])
  then have l: "live ct_used ?ts \<le> fuel" using Suc.prems(3) by simp
  have n: "length ?ts \<le> MAX_TOKENS" using Suc.prems(1) shrinks_length [OF s] by simp
  have "revoke_passes (revoke_cascade_locked fuel) root MAX_TOKENS ?ts \<noteq> None"
    by (rule revoke_passes_returns [OF good_revoke_cascade Suc.IH n l])
  then show ?case unfolding revoke_cascade_locked.simps .
qed

lemma cascade_exact:
  assumes post: "cascade_post root ts ts'" and uniq: "uniq_keys ct_used ct_id ts"
    and gone: "\<And>i. i < length ts \<Longrightarrow> ct_id (ts ! i) = root \<Longrightarrow> \<not> ct_used (ts' ! i)"
    and k: "k < length ts"
  shows "ct_used (ts' ! k) \<longleftrightarrow> ct_used (ts ! k) \<and> \<not> delegated_from ts root (ct_id (ts ! k))"
proof -
  have s: "shrinks ts ts'" using post by (simp add: cascade_post_def scan_inv_def)
  have dead: "\<not> ct_used (ts' ! j)" if "delegated_from ts root x" "j < length ts" "ct_id (ts ! j) = x"
    for x j
    using that
  proof (induction arbitrary: j rule: delegated_from.induct)
    case self
    then show ?case using gone by simp
  next
    case (child i)
    note IH = child.IH
    have "\<not> ct_used (ts' ! i)"
    proof
      assume u: "ct_used (ts' ! i)"
      then have ch: "has_child ts' (ct_parent_id (ts ! i))"
        unfolding has_child_def using child.hyps shrinks_length [OF s] shrinks_nth(2) [OF s, of i]
        by (intro exI [of _ i]) simp
      from child.hyps(1) show False
      proof (cases rule: delegated_from.cases)
        case self
        then show False using ch post by (simp add: cascade_post_def)
      next
        case (child m)
        have "\<not> ct_used (ts' ! m)" using IH child by simp
        then show False
          using ch post child by (cases "ct_id (ts ! m) = root")
            (auto simp: cascade_post_def scan_inv_def)
      qed
    qed
    then show ?case
      using child uniq s unfolding uniq_keys_def by (metis shrinks_used)
  qed
  show ?thesis
    using dead [OF _ k] post k shrinks_used [OF s k]
    by (auto simp: cascade_post_def scan_inv_def cleared_below_def)
qed

section \<open>The invariant of the token table\<close>

text \<open>A delegated token is no stronger than the token it was delegated from.\<close>

definition link_ok :: "cap_token \<Rightarrow> cap_token \<Rightarrow> bool" where
  "link_ok c p \<longleftrightarrow> ct_perms c AND NOT (ct_perms p) = 0 \<and>
     (\<exists>r. cstr (ct_resource c) = cstr (ct_resource p) @ r) \<and> ct_depth c = ct_depth p + 1"

definition token_inv :: "token_state \<Rightarrow> bool" where
  "token_inv s \<longleftrightarrow>
     length (tokens s) = MAX_TOKENS \<and> next_token_id s \<noteq> 0 \<and> uniq_keys ct_used ct_id (tokens s) \<and>
     (\<forall>t \<in> set (tokens s). length (ct_resource t) = TOKEN_PATH_MAX \<and>
        length (cstr (ct_resource t)) < TOKEN_PATH_MAX) \<and>
     (\<forall>t \<in> set (tokens s). ct_used t \<longrightarrow> ct_id t < next_token_id s \<and>
        ct_parent_id t < ct_id t \<and> ct_depth t \<le> TOKEN_MAX_DEPTH) \<and>
     (\<forall>c \<in> set (tokens s). \<forall>p \<in> set (tokens s).
        ct_used c \<longrightarrow> ct_used p \<longrightarrow> ct_parent_id c = ct_id p \<longrightarrow> link_ok c p)"

lemma token_inv_nth:
  assumes "token_inv s" and "i < length (tokens s)"
  shows "length (ct_resource (tokens s ! i)) = TOKEN_PATH_MAX"
    and "length (cstr (ct_resource (tokens s ! i))) < TOKEN_PATH_MAX"
    and "ct_used (tokens s ! i) \<Longrightarrow> ct_id (tokens s ! i) < next_token_id s"
    and "ct_used (tokens s ! i) \<Longrightarrow> ct_parent_id (tokens s ! i) < ct_id (tokens s ! i)"
    and "ct_used (tokens s ! i) \<Longrightarrow> ct_depth (tokens s ! i) \<le> TOKEN_MAX_DEPTH"
  using assms nth_mem [OF assms(2)] by (auto simp: token_inv_def)

lemma token_inv_boot: "token_inv token_boot"
  by (auto simp: token_inv_def token_boot_def token_zero_def uniq_keys_def MAX_TOKENS_def
      TOKEN_PATH_MAX_def cstr_def)

lemma token_inv_shrinks:
  assumes inv: "token_inv s" and sh: "shrinks (tokens s) ts"
  shows "token_inv (s\<lparr>tokens := ts\<rparr>)"
proof -
  have orig: "\<exists>t0 \<in> set (tokens s). (t = t0 \<or> t = token_clear t0)" if mem: "t \<in> set ts" for t
  proof -
    obtain k where k: "k < length ts" "t = ts ! k" using mem by (auto simp: in_set_conv_nth)
    then have "k < length (tokens s)" using shrinks_length [OF sh] by simp
    then show ?thesis using sh k by (intro bexI [of _ "tokens s ! k"]) (auto simp: shrinks_def)
  qed
  have u: "uniq_keys ct_used ct_id ts"
    unfolding uniq_keys_def
  proof (intro allI impI)
    fix i j
    assume ij: "i < length ts" "j < length ts" "ct_used (ts ! i)" "ct_used (ts ! j)"
      "ct_id (ts ! i) = ct_id (ts ! j)"
    have len: "length ts = length (tokens s)" by (rule shrinks_length [OF sh])
    have "ts ! i = tokens s ! i" "ts ! j = tokens s ! j"
      using ij len shrinks_nth(3) [OF sh] by simp_all
    then show "i = j" using inv ij len by (simp add: token_inv_def uniq_keys_def)
  qed
  have live: "t \<in> set (tokens s)" if "t \<in> set ts" "ct_used t" for t
    using orig [OF that(1)] that(2) by auto
  have res: "length (ct_resource t) = TOKEN_PATH_MAX \<and> length (cstr (ct_resource t)) < TOKEN_PATH_MAX"
    if "t \<in> set ts" for t
    using orig [OF that] inv by (auto simp: token_inv_def)
  show ?thesis
    using inv u live res shrinks_length [OF sh] by (simp add: token_inv_def)
qed

lemma token_init_res:
  "length (ct_resource e) = TOKEN_PATH_MAX \<Longrightarrow>
   cstr (ct_resource (token_init a e)) = take (TOKEN_PATH_MAX - 1) (cstr (opt_str (snd (snd (snd (snd a))))))
   \<and> length (ct_resource (token_init a e)) = TOKEN_PATH_MAX"
  by (cases a) (simp add: cbuf_simps TOKEN_PATH_MAX_def)

text \<open>The state after a successful creation, slot by slot.\<close>

lemma cap_token_create_SomeD:
  assumes "cap_token_create owner caps perms target res s = (Inr n, s')"
  obtains i where "i < length (tokens s)" "\<not> ct_used (tokens s ! i)" "n = next_token_id s"
    "perms AND NOT caps = 0"
    "s' = s\<lparr>tokens := (tokens s)[i := token_init (n, owner, target, perms, res) (tokens s ! i)],
           next_token_id := n + 1\<rparr>"
proof -
  note rule = that
  obtain i ts where al: "alloc_slot ct_used (token_init (next_token_id s, owner, target, perms, res))
        (tokens s) = Some (i, ts)"
    and eq: "n = next_token_id s" "s' = s\<lparr>tokens := ts, next_token_id := next_token_id s + 1\<rparr>"
    and p: "perms AND NOT caps = 0"
    using assms by (auto simp: cap_token_create_def split: if_splits option.splits)
  show thesis
    using alloc_slot_SomeD [OF al] eq p by (intro rule [of i]) simp_all
qed

text \<open>Adding one entry that is fresh, well-formed and linked within its parent's authority.\<close>

lemma token_inv_add:
  assumes inv: "token_inv s" and i: "i < length (tokens s)" "\<not> ct_used (tokens s ! i)"
    and wrap: "next_token_id s + 1 \<noteq> 0"
    and new: "ct_id t = next_token_id s" "ct_parent_id t < ct_id t" "ct_depth t \<le> TOKEN_MAX_DEPTH"
      "length (ct_resource t) = TOKEN_PATH_MAX" "length (cstr (ct_resource t)) < TOKEN_PATH_MAX"
    and link: "\<And>p. p \<in> set (tokens s) \<Longrightarrow> ct_used p \<Longrightarrow> ct_parent_id t = ct_id p \<Longrightarrow> link_ok t p"
  shows "token_inv (s\<lparr>tokens := (tokens s)[i := t], next_token_id := next_token_id s + 1\<rparr>)"
proof -
  let ?ts = "(tokens s)[i := t]" and ?n = "next_token_id s"
  have old: "ct_id x < ?n" "ct_parent_id x < ct_id x" "ct_depth x \<le> TOKEN_MAX_DEPTH"
    if "x \<in> set (tokens s)" "ct_used x" for x
    using inv that by (auto simp: token_inv_def)
  have sub: "x = t \<or> x \<in> set (tokens s)" if "x \<in> set ?ts" for x
    using that set_update_subset_insert [of "tokens s" i t] by blast
  have lt: "x < ?n + 1" if "x \<le> ?n" for x using that wrap by (simp add: word_less_inc_iff)
  have uniq: "uniq_keys ct_used ct_id ?ts"
    unfolding uniq_keys_def
  proof (intro allI impI)
    fix a b
    assume ab: "a < length ?ts" "b < length ?ts" "ct_used (?ts ! a)" "ct_used (?ts ! b)"
      "ct_id (?ts ! a) = ct_id (?ts ! b)"
    have idn: "ct_id (tokens s ! k) \<noteq> ct_id t" if "k < length (tokens s)" "ct_used (tokens s ! k)" for k
      using old(1) [OF nth_mem [OF that(1)] that(2)] new(1) by simp
    have "uniq_keys ct_used ct_id (tokens s)" using inv by (simp add: token_inv_def)
    then show "a = b"
      using ab idn [of a] idn [of b] i(1)
      by (cases "a = i"; cases "b = i") (auto simp: uniq_keys_def)
  qed
  have nochild: "ct_parent_id x \<noteq> ct_id t" if "x \<in> set (tokens s)" "ct_used x" for x
    using old [OF that] new(1) by (auto dest: less_trans)
  have links: "link_ok c p"
    if "c \<in> set ?ts" "p \<in> set ?ts" "ct_used c" "ct_used p" "ct_parent_id c = ct_id p" for c p
    using sub [OF that(1)] sub [OF that(2)] that(3-5) inv link nochild new(2)
    by (auto simp: token_inv_def)
  have each: "ct_id x < ?n + 1 \<and> ct_parent_id x < ct_id x \<and> ct_depth x \<le> TOKEN_MAX_DEPTH"
    if "x \<in> set ?ts" "ct_used x" for x
    using sub [OF that(1)] old [OF _ that(2)] new lt by (auto intro: order.strict_implies_order)
  have res: "length (ct_resource x) = TOKEN_PATH_MAX \<and> length (cstr (ct_resource x)) < TOKEN_PATH_MAX"
    if "x \<in> set ?ts" for x
    using sub [OF that] inv new by (auto simp: token_inv_def)
  show ?thesis
    using inv wrap uniq links each res by (simp add: token_inv_def)
qed

lemma token_inv_create:
  assumes inv: "token_inv s" and wrap: "next_token_id s + 1 \<noteq> 0"
    and run: "cap_token_create owner caps perms target res s = (r, s')"
  shows "token_inv s'"
proof (cases r)
  case (Inl e)
  then show ?thesis using run inv
    by (auto simp: cap_token_create_def split: if_splits option.splits)
next
  case (Inr n)
  then obtain i where i: "i < length (tokens s)" "\<not> ct_used (tokens s ! i)" "n = next_token_id s"
    and s': "s' = s\<lparr>tokens := (tokens s)[i := token_init (n, owner, target, perms, res) (tokens s ! i)],
           next_token_id := n + 1\<rparr>"
    using run by (auto elim!: cap_token_create_SomeD)
  let ?t = "token_init (n, owner, target, perms, res) (tokens s ! i)"
  have pos: "0 < n" using inv i(3) by (simp add: token_inv_def word_neq_0_conv)
  have res: "length (ct_resource ?t) = TOKEN_PATH_MAX" "length (cstr (ct_resource ?t)) < TOKEN_PATH_MAX"
    using token_init_res [OF token_inv_nth(1) [OF inv i(1)]]
    by (auto simp: TOKEN_PATH_MAX_def simp del: token_init.simps)
  have "token_inv (s\<lparr>tokens := (tokens s)[i := ?t], next_token_id := next_token_id s + 1\<rparr>)"
  proof (rule token_inv_add [OF inv i(1,2) wrap])
    fix p assume "p \<in> set (tokens s)" "ct_used p" "ct_parent_id ?t = ct_id p"
    then show "link_ok ?t p" using inv by (auto simp: token_inv_def)
  qed (use i pos res in \<open>auto simp: TOKEN_MAX_DEPTH_def\<close>)
  then show ?thesis using s' i(3) by simp
qed

section \<open>Delegation\<close>

lemma delegate_check_InrD:
  assumes "delegate_check parent_id caller perms resource s = Inr (perms', res, ptid, d)"
  obtains k where "k < length (tokens s)" "ct_used (tokens s ! k)" "ct_id (tokens s ! k) = parent_id"
    "ptid = parent_id" "d = ct_depth (tokens s ! k) + 1" "ct_depth (tokens s ! k) < TOKEN_MAX_DEPTH"
    "ct_target_pid (tokens s ! k) = 0 \<or> ct_target_pid (tokens s ! k) = caller"
    "perms' = (if perms = 0 then ct_perms (tokens s ! k) else perms)"
    "perms' AND NOT (ct_perms (tokens s ! k)) = 0"
    "res = (if cstr (opt_str resource) \<noteq> [] then opt_str resource else ct_resource (tokens s ! k))"
    "\<exists>r. cstr res = cstr (ct_resource (tokens s ! k)) @ r"
proof -
  note rule = that
  obtain k where k: "lookup_slot ct_used ct_id parent_id (tokens s) = Some k"
    using assms by (auto simp: delegate_check_def split: option.splits)
  let ?p = "tokens s ! k"
  have f: "k < length (tokens s)" "ct_used ?p" "ct_id ?p = parent_id"
    using lookup_slot_SomeD [OF k] by simp_all
  note eqs = assms [unfolded delegate_check_def k option.case Let_def]
  have "\<exists>r. cstr res = cstr (ct_resource ?p) @ r"
  proof (cases "cstr (opt_str resource) \<noteq> [] \<and> cstr (ct_resource ?p) \<noteq> []")
    case True
    then show ?thesis using eqs by (auto simp: prefix_match_iff split: if_splits)
  next
    case False
    then show ?thesis using eqs by (auto split: if_splits)
  qed
  then show thesis
    using eqs f by (intro rule [of k]) (auto simp: not_le split: if_splits)
qed

lemma link_within_parent:
  assumes len: "length (ct_resource e) = TOKEN_PATH_MAX"
    and par: "length (cstr (ct_resource p)) < TOKEN_PATH_MAX"
    and perms: "perms AND NOT (ct_perms p) = 0" and pre: "cstr res = cstr (ct_resource p) @ r"
  shows "link_ok (token_init (n, owner, target, perms, Some res) e\<lparr>ct_parent_id := ct_id p,
                     ct_depth := ct_depth p + 1\<rparr>) p"
proof -
  have "cstr (str_copy (ct_resource e) res TOKEN_PATH_MAX) = take (TOKEN_PATH_MAX - 1) (cstr res)"
    using len by (simp add: cbuf_simps TOKEN_PATH_MAX_def)
  also have "\<dots> = cstr (ct_resource p) @ take (TOKEN_PATH_MAX - 1 - length (cstr (ct_resource p))) r"
    using par by (simp add: pre)
  finally show ?thesis using perms by (simp add: link_ok_def opt_str_def)
qed

lemma lookup_created:
  assumes inv: "token_inv s" and i: "i < length (tokens s)"
  shows "lookup_slot ct_used ct_id (next_token_id s)
     ((tokens s)[i := token_init (next_token_id s, a) (tokens s ! i)]) = Some i"
    (is "lookup_slot _ _ ?n ?ts = _")
proof -
  have new: "ct_used (?ts ! i) \<and> ct_id (?ts ! i) = ?n" using i by (cases a) simp
  have "j = i" if "j < length ?ts" "ct_used (?ts ! j) \<and> ct_id (?ts ! j) = ?n" for j
    using that token_inv_nth(3) [OF inv, of j] by (cases "j = i") auto
  then show ?thesis
    unfolding lookup_slot_def using new i by (intro find_index_unique) auto
qed

text \<open>A successful delegation, slot by slot.\<close>

lemma cap_token_delegate_InrD:
  assumes inv: "token_inv s"
    and run: "cap_token_delegate parent_id caller target perms resource s = (Inr n, s')"
    and pos: "0 <s next_token_id s"
  obtains i k perms' res where "i < length (tokens s)" "\<not> ct_used (tokens s ! i)"
    "n = next_token_id s" "k < length (tokens s)" "ct_used (tokens s ! k)"
    "ct_id (tokens s ! k) = parent_id" "ct_depth (tokens s ! k) < TOKEN_MAX_DEPTH"
    "ct_target_pid (tokens s ! k) = 0 \<or> ct_target_pid (tokens s ! k) = caller"
    "s' = s\<lparr>tokens := (tokens s)[i := token_init (n, caller, target, perms', Some res) (tokens s ! i)
              \<lparr>ct_parent_id := parent_id, ct_depth := ct_depth (tokens s ! k) + 1\<rparr>],
           next_token_id := n + 1\<rparr>"
    "link_ok (token_init (n, caller, target, perms', Some res) (tokens s ! i)
              \<lparr>ct_parent_id := parent_id, ct_depth := ct_depth (tokens s ! k) + 1\<rparr>) (tokens s ! k)"
proof -
  note rule = that
  obtain perms' res ptid d s1 where
    ck: "delegate_check parent_id caller perms resource s = Inr (perms', res, ptid, d)"
    and cr: "cap_token_create caller perms' perms' target (Some res) s = (Inr n, s1)"
    and s': "s' = (if 0 <s n then delegate_link n ptid d s1 else s1)"
    using run by (auto simp: cap_token_delegate_def split: sum.splits prod.splits)
  obtain k where k: "k < length (tokens s)" "ct_used (tokens s ! k)" "ct_id (tokens s ! k) = parent_id"
    "ptid = parent_id" "d = ct_depth (tokens s ! k) + 1" "ct_depth (tokens s ! k) < TOKEN_MAX_DEPTH"
    "ct_target_pid (tokens s ! k) = 0 \<or> ct_target_pid (tokens s ! k) = caller"
    "perms' AND NOT (ct_perms (tokens s ! k)) = 0"
    "\<exists>r. cstr res = cstr (ct_resource (tokens s ! k)) @ r"
    using delegate_check_InrD [OF ck] by metis
  obtain i where i: "i < length (tokens s)" "\<not> ct_used (tokens s ! i)" "n = next_token_id s"
    and s1: "s1 = s\<lparr>tokens := (tokens s)[i := token_init (n, caller, target, perms', Some res)
          (tokens s ! i)], next_token_id := n + 1\<rparr>"
    using cap_token_create_SomeD [OF cr] by metis
  have "lookup_slot ct_used ct_id n (tokens s1) = Some i"
    using lookup_created [OF inv i(1)] i(3) s1 by (simp del: token_init.simps)
  then have "s' = s\<lparr>tokens := (tokens s)[i := token_init (n, caller, target, perms', Some res) (tokens s ! i)
              \<lparr>ct_parent_id := parent_id, ct_depth := ct_depth (tokens s ! k) + 1\<rparr>],
           next_token_id := n + 1\<rparr>"
    using s' pos i k s1 by (simp add: delegate_link_def del: token_init.simps)
  moreover have "link_ok (token_init (n, caller, target, perms', Some res) (tokens s ! i)
              \<lparr>ct_parent_id := parent_id, ct_depth := ct_depth (tokens s ! k) + 1\<rparr>) (tokens s ! k)"
    using link_within_parent [OF token_inv_nth(1) [OF inv i(1)] token_inv_nth(2) [OF inv k(1)] k(8)]
      k(3,9) by blast
  ultimately show thesis using i k by (intro rule [of i k]) auto
qed

lemma delegate_link_facts:
  assumes inv: "token_inv s"
    and run: "cap_token_delegate parent_id caller target perms resource s = (Inr n, s')"
    and pos: "0 <s next_token_id s"
  shows "\<exists>c \<in> set (tokens s'). \<exists>p \<in> set (tokens s).
     ct_used c \<and> ct_id c = n \<and> ct_target_pid c = target \<and> ct_parent_id c = parent_id \<and>
     ct_used p \<and> ct_id p = parent_id \<and> (ct_target_pid p = 0 \<or> ct_target_pid p = caller) \<and>
     ct_perms c AND NOT (ct_perms p) = 0"
proof -
  obtain i k perms' res where i: "i < length (tokens s)"
    and k: "k < length (tokens s)" "ct_used (tokens s ! k)" "ct_id (tokens s ! k) = parent_id"
      "ct_target_pid (tokens s ! k) = 0 \<or> ct_target_pid (tokens s ! k) = caller"
    and s': "s' = s\<lparr>tokens := (tokens s)[i := token_init (n, caller, target, perms', Some res) (tokens s ! i)
              \<lparr>ct_parent_id := parent_id, ct_depth := ct_depth (tokens s ! k) + 1\<rparr>],
           next_token_id := n + 1\<rparr>"
    and lk: "link_ok (token_init (n, caller, target, perms', Some res) (tokens s ! i)
              \<lparr>ct_parent_id := parent_id, ct_depth := ct_depth (tokens s ! k) + 1\<rparr>) (tokens s ! k)"
    using cap_token_delegate_InrD [OF inv run pos] by metis
  let ?c = "token_init (n, caller, target, perms', Some res) (tokens s ! i)
              \<lparr>ct_parent_id := parent_id, ct_depth := ct_depth (tokens s ! k) + 1\<rparr>"
  have c: "?c \<in> set (tokens s')" using i s' by (simp add: set_update_memI del: token_init.simps)
  have p: "tokens s ! k \<in> set (tokens s)" using k(1) by simp
  show ?thesis
    by (rule bexI [OF _ c], rule bexI [OF _ p]) (use k lk in \<open>simp add: link_ok_def\<close>)
qed

lemma token_inv_delegate:
  assumes inv: "token_inv s" and wrap: "next_token_id s + 1 \<noteq> 0"
    and run: "cap_token_delegate parent_id caller target perms resource s = (r, s')"
  shows "token_inv s'"
proof (cases "\<exists>n. r = Inr n \<and> 0 <s next_token_id s")
  case False
  then obtain e1 perms' res where "s' = s \<or> cap_token_create caller perms' perms' target (Some res) s = (e1, s')"
    using run by (fastforce simp: cap_token_delegate_def cap_token_create_def
        split: sum.splits prod.splits if_splits option.splits)
  then show ?thesis using inv token_inv_create [OF inv wrap] by blast
next
  case True
  then obtain n where n: "r = Inr n" "0 <s next_token_id s" by auto
  obtain i k perms' res where *: "i < length (tokens s)" "\<not> ct_used (tokens s ! i)"
    "n = next_token_id s" "k < length (tokens s)" "ct_used (tokens s ! k)"
    "ct_id (tokens s ! k) = parent_id" "ct_depth (tokens s ! k) < TOKEN_MAX_DEPTH"
    and s': "s' = s\<lparr>tokens := (tokens s)[i := token_init (n, caller, target, perms', Some res) (tokens s ! i)
              \<lparr>ct_parent_id := parent_id, ct_depth := ct_depth (tokens s ! k) + 1\<rparr>],
           next_token_id := n + 1\<rparr>"
    and l: "link_ok (token_init (n, caller, target, perms', Some res) (tokens s ! i)
              \<lparr>ct_parent_id := parent_id, ct_depth := ct_depth (tokens s ! k) + 1\<rparr>) (tokens s ! k)"
    using cap_token_delegate_InrD [OF inv run [unfolded n(1)] n(2)] by metis
  let ?t = "token_init (n, caller, target, perms', Some res) (tokens s ! i)
              \<lparr>ct_parent_id := parent_id, ct_depth := ct_depth (tokens s ! k) + 1\<rparr>"
  have "token_inv (s\<lparr>tokens := (tokens s)[i := ?t], next_token_id := next_token_id s + 1\<rparr>)"
  proof (rule token_inv_add [OF inv *(1,2) wrap])
    show "ct_depth ?t \<le> TOKEN_MAX_DEPTH" using *(7) by (simp add: inc_le)
    show "ct_parent_id ?t < ct_id ?t" using token_inv_nth(3) [OF inv *(4,5)] * by simp
    show "length (ct_resource ?t) = TOKEN_PATH_MAX" "length (cstr (ct_resource ?t)) < TOKEN_PATH_MAX"
      using token_init_res [OF token_inv_nth(1) [OF inv *(1)], of "(n, caller, target, perms', Some res)"]
      by (auto simp: TOKEN_PATH_MAX_def)
  next
    fix p assume p: "p \<in> set (tokens s)" "ct_used p" "ct_parent_id ?t = ct_id p"
    then have "p = tokens s ! k"
      using inv * unfolding token_inv_def uniq_keys_def by (auto simp: in_set_conv_nth)
    then show "link_ok ?t p" using l by simp
  qed (use * in auto)
  then show ?thesis using s' *(3) by simp
qed

section \<open>Reachable token tables\<close>

text \<open>
  One rule per operation. Creation and delegation are guarded by the identifier counter not
  wrapping to zero, so the statements below are about the first \<open>2\<^sup>3\<^sup>2 - 2\<close> tokens.
\<close>

inductive token_step :: "token_state \<Rightarrow> token_state \<Rightarrow> bool" where
  create: "cap_token_create owner caps perms target res s = (r, s') \<Longrightarrow> next_token_id s + 1 \<noteq> 0 \<Longrightarrow>
     token_step s s'"
| delegate: "cap_token_delegate parent caller target perms res s = (r, s') \<Longrightarrow>
     next_token_id s + 1 \<noteq> 0 \<Longrightarrow> token_step s s'"
| revoke: "cap_token_revoke tid caller s = Some (r, s') \<Longrightarrow> token_step s s'"
| cleanup: "token_step s (cap_token_cleanup_pid pid s)"

inductive token_reachable :: "token_state \<Rightarrow> bool" where
  boot: "token_reachable token_boot"
| step: "token_reachable s \<Longrightarrow> token_step s s' \<Longrightarrow> token_reachable s'"

lemma cap_token_revoke_shrinks:
  assumes "token_inv s" and "cap_token_revoke tid caller s = Some (r, s')"
  shows "\<exists>ts. shrinks (tokens s) ts \<and> s' = s\<lparr>tokens := ts\<rparr>"
proof -
  have "shrinks (tokens s) ts" if "revoke_cascade_locked MAX_TOKENS tid (tokens s) = Some ts" for ts
    using good_revoke_cascade [of MAX_TOKENS] that assms(1)
    by (auto simp: good_def token_inv_def cascade_post_def scan_inv_def)
  moreover have "s' = s \<or> (\<exists>ts. revoke_cascade_locked MAX_TOKENS tid (tokens s) = Some ts \<and>
      s' = s\<lparr>tokens := ts\<rparr>)"
    using assms(2) by (auto simp: cap_token_revoke_def split: option.splits if_splits)
  moreover have "\<exists>ts. shrinks (tokens s) ts \<and> s = s\<lparr>tokens := ts\<rparr>"
    by (rule exI [of _ "tokens s"]) simp
  ultimately show ?thesis by blast
qed

lemma cap_token_revoke_InrD:
  assumes "cap_token_revoke tid caller s = Some (Inr (), s')"
  shows "\<exists>i. lookup_slot ct_used ct_id tid (tokens s) = Some i \<and> ct_owner_pid (tokens s ! i) = caller"
proof (cases "lookup_slot ct_used ct_id tid (tokens s)")
  case None
  then show ?thesis using assms by (simp add: cap_token_revoke_def)
next
  case (Some i)
  then show ?thesis using assms by (simp add: cap_token_revoke_def split: if_splits)
qed

lemma cleanup_shrinks:
  "shrinks (tokens s) (tokens (cap_token_cleanup_pid pid s))"
  by (auto simp: cap_token_cleanup_pid_def shrinks_def)

lemma token_inv_step: "token_step s s' \<Longrightarrow> token_inv s \<Longrightarrow> token_inv s'"
proof (induction rule: token_step.induct)
  case (revoke tid caller s r s')
  then show ?case using cap_token_revoke_shrinks token_inv_shrinks by blast
next
  case (cleanup s pid)
  have "cap_token_cleanup_pid pid s = s\<lparr>tokens := tokens (cap_token_cleanup_pid pid s)\<rparr>"
    by (simp add: cap_token_cleanup_pid_def)
  then show ?case using token_inv_shrinks [OF cleanup cleanup_shrinks [of s pid]] by simp
qed (auto intro: token_inv_create token_inv_delegate)

lemma token_inv_reachable: "token_reachable s \<Longrightarrow> token_inv s"
  by (induction rule: token_reachable.induct) (auto intro: token_inv_boot token_inv_step)

lemma cap_token_check_iff:
  "cap_token_check pid cap res s \<longleftrightarrow> (\<exists>t \<in> set (tokens s). token_matches pid cap res t)"
  by (simp only: cap_token_check_def find_index_None_iff) blast

lemma revoke_exact:
  assumes inv: "token_inv s" and i: "lookup_slot ct_used ct_id tid (tokens s) = Some i"
    and owner: "ct_owner_pid (tokens s ! i) = caller"
  shows "\<exists>s'. cap_token_revoke tid caller s = Some (Inr (), s') \<and>
     next_token_id s' = next_token_id s \<and> length (tokens s') = length (tokens s) \<and>
     (\<forall>k < length (tokens s).
        (ct_used (tokens s' ! k) \<longleftrightarrow>
           ct_used (tokens s ! k) \<and> \<not> delegated_from (tokens s) tid (ct_id (tokens s ! k))) \<and>
        (ct_used (tokens s' ! k) \<longrightarrow> tokens s' ! k = tokens s ! k))"
proof -
  have len: "length (tokens s) \<le> MAX_TOKENS" and uniq: "uniq_keys ct_used ct_id (tokens s)"
    using inv by (simp_all add: token_inv_def)
  have tok: "has_token tid (tokens s)"
    using lookup_slot_SomeD [OF i] by (auto simp: has_token_def)
  obtain ts where ts: "revoke_cascade_locked MAX_TOKENS tid (tokens s) = Some ts"
    using revoke_cascade_returns [OF len tok live_le_MAX [OF len]] by blast
  have post: "cascade_post tid (tokens s) ts"
    using good_revoke_cascade ts len by (simp add: good_def)
  then have sh: "shrinks (tokens s) ts" by (simp add: cascade_post_def scan_inv_def)
  have gone: "\<not> ct_used (ts ! k)" if k: "k < length (tokens s)" "ct_id (tokens s ! k) = tid" for k
  proof -
    obtain m where m: "MAX_TOKENS = Suc m" by (simp add: MAX_TOKENS_def)
    let ?r = "revoke_one tid (tokens s)"
    have r: "shrinks (tokens s) ?r" by (rule revoke_one_shrinks)
    have "scan_inv tid ?r ?r" by (simp add: scan_inv_def cleared_below_def)
    then have "shrinks ?r ts"
      using revoke_passes_post [OF good_revoke_cascade ts [unfolded m revoke_cascade_locked.simps]]
        len shrinks_length [OF r] live_le_MAX [of ?r] m by simp
    then show ?thesis
      using revoke_one_gone [OF uniq k] shrinks_used [of ?r ts k] k(1) shrinks_length [OF r] by auto
  qed
  have run: "cap_token_revoke tid caller s = Some (Inr (), s\<lparr>tokens := ts\<rparr>)"
    using i owner ts by (simp add: cap_token_revoke_def)
  show ?thesis
    using run cascade_exact [OF post uniq gone] shrinks_nth(3) [OF sh] shrinks_length [OF sh]
    by (intro exI [of _ "s\<lparr>tokens := ts\<rparr>"]) auto
qed

text \<open>
  A concrete run for the witnesses: process 1 issues a token on \<^verbatim>\<open>/a\<close> to process 2, which
  delegates it to process 3.
\<close>

definition demo_issued :: token_state where
  "demo_issued = snd (cap_token_create 1 3 3 2 (Some ''/a'') token_boot)"

definition demo_delegated :: token_state where
  "demo_delegated = snd (cap_token_delegate 1 2 3 0 None demo_issued)"

lemma demo_issued_reachable: "token_reachable demo_issued"
proof (rule token_reachable.step [OF token_reachable.boot])
  show "token_step token_boot demo_issued"
    by (rule token_step.create [of 1 3 3 2 "Some ''/a''" token_boot "Inr 1"])
      (code_simp, simp add: token_boot_def)
qed

lemma demo_delegated_reachable: "token_reachable demo_delegated"
proof (rule token_reachable.step [OF demo_issued_reachable])
  show "token_step demo_issued demo_delegated"
    by (rule token_step.delegate [of 1 2 3 0 None demo_issued "Inr 2"]) (code_simp, code_simp)
qed

section \<open>Properties\<close>

text \<open>
  C1: Revoking a token succeeds for its owner and clears exactly the tokens delegated from it,
  directly or through any chain of live links; every other token is untouched. The recursion of
  the kernel's cascade always returns.
\<close>

theorem cap_token_revoke_cascades:
  assumes inv: "token_inv s" and i: "lookup_slot ct_used ct_id tid (tokens s) = Some i"
    and owner: "ct_owner_pid (tokens s ! i) = caller"
  shows "\<exists>s'. cap_token_revoke tid caller s = Some (Inr (), s') \<and>
     next_token_id s' = next_token_id s \<and> length (tokens s') = length (tokens s) \<and>
     (\<forall>k < length (tokens s).
        (ct_used (tokens s' ! k) \<longleftrightarrow>
           ct_used (tokens s ! k) \<and> \<not> delegated_from (tokens s) tid (ct_id (tokens s ! k))) \<and>
        (ct_used (tokens s' ! k) \<longrightarrow> tokens s' ! k = tokens s ! k))"
  by (rule revoke_exact [OF inv i owner])

theorem cap_token_revoke_cascades_witness:
  "token_inv demo_delegated \<and>
   (\<exists>s'. cap_token_revoke 1 1 demo_delegated = Some (Inr (), s') \<and> \<not> ct_used (tokens s' ! 1))"
proof -
  have inv: "token_inv demo_delegated" by (rule token_inv_reachable [OF demo_delegated_reachable])
  have i: "lookup_slot ct_used ct_id 1 (tokens demo_delegated) = Some 0" by code_simp
  have o1: "ct_owner_pid (tokens demo_delegated ! 0) = 1" by code_simp
  have d: "delegated_from (tokens demo_delegated) 1 (ct_id (tokens demo_delegated ! 1))"
  proof (rule delegated_from.child)
    have "ct_parent_id (tokens demo_delegated ! 1) = 1" by code_simp
    then show "delegated_from (tokens demo_delegated) 1 (ct_parent_id (tokens demo_delegated ! 1))"
      by (simp add: delegated_from.self)
    show "1 < length (tokens demo_delegated)" by code_simp
    show "ct_used (tokens demo_delegated ! 1)" by code_simp
  qed
  have len: "1 < length (tokens demo_delegated)" by code_simp
  show ?thesis using cap_token_revoke_cascades [OF inv i o1] inv d len by blast
qed



text \<open>
  C12: A freshly created token authorises its target: after a successful creation the check for any
  granted capability succeeds for the target process on every resource that extends the token's
  path, and the creator could only grant capabilities it holds.
\<close>

theorem created_token_checks:
  assumes "token_inv s"
    and "cap_token_create owner caps perms target (Some path) s = (Inr n, s')"
    and "perms AND cap \<noteq> 0" and "cstr res = cstr path @ rest"
  shows "cap_token_check target cap (Some res) s' \<and> perms AND NOT caps = 0"
proof -
  obtain i where i: "i < length (tokens s)" "perms AND NOT caps = 0"
    and s': "s' = s\<lparr>tokens := (tokens s)[i := token_init (n, owner, target, perms, Some path) (tokens s ! i)],
           next_token_id := n + 1\<rparr>"
    using cap_token_create_SomeD [OF assms(2)] by metis
  let ?t = "token_init (n, owner, target, perms, Some path) (tokens s ! i)"
  have "cstr (ct_resource ?t) = take (TOKEN_PATH_MAX - 1) (cstr path)"
    using token_init_res [OF token_inv_nth(1) [OF assms(1) i(1)], of "(n, owner, target, perms, Some path)"]
    by (simp add: opt_str_def)
  then have "prefix_match (ct_resource ?t) res"
    using assms(4) append_take_drop_id [of "TOKEN_PATH_MAX - 1" "cstr path"]
    by (simp only: prefix_match_iff) (metis append.assoc)
  then have "token_matches target cap (Some res) ?t"
    using assms(3) by (simp add: token_matches_def)
  moreover have "?t \<in> set (tokens s')" using i s' by (simp add: set_update_memI)
  ultimately show ?thesis using i(2) by (auto simp: cap_token_check_iff)
qed

theorem created_token_checks_witness: "cap_token_check 2 1 (Some ''/a/b'') demo_issued"
proof -
  have c: "cap_token_create 1 3 3 2 (Some ''/a'') token_boot = (Inr 1, demo_issued)" by code_simp
  have r: "cstr ''/a/b'' = cstr ''/a'' @ ''/b''" by code_simp
  show ?thesis using created_token_checks [OF token_inv_boot c _ r, of 1] by simp
qed

text \<open>
  C13: When a process exits, the tokens it owns and the tokens issued to it authorise nothing any
  more, and exactly the other tokens keep their authority. Tokens delegated further from a removed
  token are among those that keep it: the exit path does not cascade as explicit revocation does.
\<close>

theorem cleanup_pid_authority:
  "cap_token_check q cap res (cap_token_cleanup_pid pid s) \<longleftrightarrow>
     (\<exists>t \<in> set (tokens s). token_matches q cap res t \<and> ct_owner_pid t \<noteq> pid \<and> ct_target_pid t \<noteq> pid)"
  unfolding cap_token_check_iff cap_token_cleanup_pid_def release_where_def
  by (auto simp: token_matches_def)

text \<open>
  Delegation is not atomic: if the owner revokes the parent after the permission check of
  \<^verbatim>\<open>cap_token_delegate\<close> and before the sub-token is created, the sub-token is live afterwards,
  with a parent that no longer exists.
\<close>

theorem delegate_outlives_revoke:
  assumes "token_inv s"
    and "delegate_check parent caller perms res s = Inr (perms', res', ptid, d)"
    and "cap_token_revoke parent owner s = Some (Inr (), s1)"
    and "cap_token_create caller perms' perms' target (Some res') s1 = (Inr n, s2)"
  shows "\<not> has_token parent (tokens s1) \<and>
     (\<exists>t \<in> set (tokens (delegate_link n ptid d s2)).
        ct_used t \<and> ct_id t = n \<and> ct_perms t = perms' \<and> ct_target_pid t = target \<and>
        ct_parent_id t = parent)"
proof -
  obtain i where i: "lookup_slot ct_used ct_id parent (tokens s) = Some i"
    and ow: "ct_owner_pid (tokens s ! i) = owner"
    using cap_token_revoke_InrD [OF assms(3)] by blast
  have gone: "\<not> has_token parent (tokens s1)"
  proof -
    have len: "length (tokens s1) = length (tokens s)"
      and ex: "\<And>k. k < length (tokens s) \<Longrightarrow> ct_used (tokens s1 ! k) \<Longrightarrow>
         tokens s1 ! k = tokens s ! k \<and> \<not> delegated_from (tokens s) parent (ct_id (tokens s ! k))"
    proof -
      obtain s' where s': "cap_token_revoke parent owner s = Some (Inr (), s')"
        "length (tokens s') = length (tokens s)"
        "\<forall>k < length (tokens s). (ct_used (tokens s' ! k) \<longleftrightarrow> ct_used (tokens s ! k) \<and>
            \<not> delegated_from (tokens s) parent (ct_id (tokens s ! k))) \<and>
          (ct_used (tokens s' ! k) \<longrightarrow> tokens s' ! k = tokens s ! k)"
        using revoke_exact [OF assms(1) i ow] by blast
      moreover have "s' = s1" using s'(1) assms(3) by simp
      ultimately show "length (tokens s1) = length (tokens s)"
        "\<And>k. k < length (tokens s) \<Longrightarrow> ct_used (tokens s1 ! k) \<Longrightarrow>
           tokens s1 ! k = tokens s ! k \<and> \<not> delegated_from (tokens s) parent (ct_id (tokens s ! k))"
        by blast+
    qed
    show ?thesis
    proof
      assume "has_token parent (tokens s1)"
      then obtain k where k: "k < length (tokens s)" "ct_used (tokens s1 ! k)"
        "ct_id (tokens s1 ! k) = parent" using len by (auto simp: has_token_def)
      then show False using ex [OF k(1,2)] delegated_from.self [of "tokens s" parent] by simp
    qed
  qed
  obtain j where j: "j < length (tokens s1)" and jn: "n = next_token_id s1"
    and s2: "s2 = s1\<lparr>tokens := (tokens s1)[j := token_init (n, caller, target, perms', Some res') (tokens s1 ! j)],
           next_token_id := n + 1\<rparr>"
    using cap_token_create_SomeD [OF assms(4)] by metis
  have pt: "ptid = parent" using delegate_check_InrD [OF assms(2)] by metis
  obtain ts where s1: "shrinks (tokens s) ts" "s1 = s\<lparr>tokens := ts\<rparr>"
    using cap_token_revoke_shrinks [OF assms(1,3)] by blast
  have inv1: "token_inv s1" using token_inv_shrinks [OF assms(1) s1(1)] s1(2) by simp
  have "lookup_slot ct_used ct_id n (tokens s2) = Some j"
    using lookup_created [OF inv1 j] s2 jn by (simp del: token_init.simps)
  then have "(tokens s2 ! j)\<lparr>ct_parent_id := ptid, ct_depth := d\<rparr> \<in> set (tokens (delegate_link n ptid d s2))"
    using j s2 by (simp add: delegate_link_def set_update_memI)
  then show ?thesis using gone pt j s2 by (intro conjI bexI) auto
qed

theorem delegate_outlives_revoke_witness:
  "\<exists>s1 s2. cap_token_revoke 1 1 demo_issued = Some (Inr (), s1) \<and>
     cap_token_create 2 3 3 3 (Some (ct_resource (tokens demo_issued ! 0))) s1 = (Inr 2, s2) \<and>
     \<not> has_token 1 (tokens s1) \<and>
     (\<exists>t \<in> set (tokens (delegate_link 2 1 1 s2)). ct_used t \<and> ct_perms t = 3 \<and> ct_target_pid t = 3)"
proof -
  have inv: "token_inv demo_issued" by (rule token_inv_reachable [OF demo_issued_reachable])
  have ck: "delegate_check 1 2 0 None demo_issued
      = Inr (3, ct_resource (tokens demo_issued ! 0), 1, 1)" by code_simp
  define s1 where "s1 = snd (the (cap_token_revoke 1 1 demo_issued))"
  have r: "cap_token_revoke 1 1 demo_issued = Some (Inr (), s1)" unfolding s1_def by code_simp
  define s2 where "s2 = snd (cap_token_create 2 3 3 3 (Some (ct_resource (tokens demo_issued ! 0))) s1)"
  have c: "cap_token_create 2 3 3 3 (Some (ct_resource (tokens demo_issued ! 0))) s1 = (Inr 2, s2)"
    unfolding s2_def s1_def by code_simp
  show ?thesis using delegate_outlives_revoke [OF inv ck r c] r c by blast
qed

end
