(* ===== verification/Ring_Buffer.thy ===== *)
theory Ring_Buffer
  imports Prelude
begin

text \<open>
  The bounded queues of the kernel (agent mailboxes, topic queues, pipes, socket buffers, terminal
  buffers) are arrays with a read index, a write index and a count, both indices advancing modulo
  the capacity. The locale \<open>ring_buffer\<close> states what such a buffer does to its three indices and
  derives that it is a first-in first-out queue over the list \<open>ring_list\<close> it represents.
\<close>

definition ring_ok :: "nat \<Rightarrow> 'm list \<Rightarrow> nat \<Rightarrow> nat \<Rightarrow> nat \<Rightarrow> bool" where
  "ring_ok n s h t c \<longleftrightarrow> length s = n \<and> h < n \<and> t < n \<and> c \<le> n \<and> t = (h + c) mod n"

definition ring_list :: "nat \<Rightarrow> 'm list \<Rightarrow> nat \<Rightarrow> nat \<Rightarrow> 'm list" where
  "ring_list n s h c = map (\<lambda>i. s ! ((h + i) mod n)) [0..<c]"

lemma length_ring_list [simp]: "length (ring_list n s h c) = c"
  by (simp add: ring_list_def)

lemma ring_list_0 [simp]: "ring_list n s h 0 = []"
  by (simp add: ring_list_def)

lemma ring_list_nth: "i < c \<Longrightarrow> ring_list n s h c ! i = s ! ((h + i) mod n)"
  by (simp add: ring_list_def)

lemma mod_add_neq:
  fixes h :: nat
  assumes "i < c" and "c < n"
  shows "(h + i) mod n \<noteq> (h + c) mod n"
proof
  assume "(h + i) mod n = (h + c) mod n"
  then have "(h + c) mod n = (h + i) mod n" by simp
  then have "n dvd (h + c) - (h + i)"
    using assms(1) by (subst (asm) mod_eq_dvd_iff_nat) auto
  then have "n dvd c - i" by simp
  with assms show False by (auto dest: dvd_imp_le)
qed

lemma ring_list_snoc:
  assumes "ring_ok n s h t c" and "c < n"
  shows "ring_list n (s[t := m]) h (Suc c) = ring_list n s h c @ [m]"
proof (rule nth_equalityI)
  show "length (ring_list n (s[t := m]) h (Suc c)) = length (ring_list n s h c @ [m])" by simp
next
  fix i assume i: "i < length (ring_list n (s[t := m]) h (Suc c))"
  from assms have t: "t = (h + c) mod n" "t < length s" and n: "length s = n" "0 < n"
    by (auto simp: ring_ok_def)
  show "ring_list n (s[t := m]) h (Suc c) ! i = (ring_list n s h c @ [m]) ! i"
  proof (cases "i < c")
    case True
    then have "(h + i) mod n \<noteq> t" using mod_add_neq [of i c n h] assms(2) t(1) by simp
    then show ?thesis using True by (simp add: ring_list_nth nth_append)
  next
    case False
    then have "i = c" using i by simp
    then show ?thesis using t n by (simp add: ring_list_nth nth_append)
  qed
qed

lemma ring_list_tl:
  assumes "0 < c"
  shows "ring_list n s ((h + 1) mod n) (c - 1) = tl (ring_list n s h c)"
proof (rule nth_equalityI)
  show "length (ring_list n s ((h + 1) mod n) (c - 1)) = length (tl (ring_list n s h c))" by simp
next
  fix i assume "i < length (ring_list n s ((h + 1) mod n) (c - 1))"
  then have "i < c - 1" by simp
  then show "ring_list n s ((h + 1) mod n) (c - 1) ! i = tl (ring_list n s h c) ! i"
    by (simp add: ring_list_nth nth_tl mod_add_left_eq)
qed

lemma ring_list_hd: "0 < c \<Longrightarrow> h < n \<Longrightarrow> hd (ring_list n s h c) = s ! h"
  by (simp add: ring_list_def upt_conv_Cons)

lemma ring_ok_push:
  "ring_ok n s h t c \<Longrightarrow> c < n \<Longrightarrow> ring_ok n (s[t := m]) h ((t + 1) mod n) (Suc c)"
  by (auto simp: ring_ok_def mod_Suc_eq)

lemma ring_ok_pop:
  "ring_ok n s h t c \<Longrightarrow> 0 < c \<Longrightarrow> ring_ok n s ((h + 1) mod n) t (c - 1)"
proof -
  assume ok: "ring_ok n s h t c" and c: "0 < c"
  have "((h + 1) mod n + (c - 1)) mod n = (h + 1 + (c - 1)) mod n" by (rule mod_add_left_eq)
  also have "h + 1 + (c - 1) = h + c" using c by simp
  finally show "ring_ok n s ((h + 1) mod n) t (c - 1)"
    using ok by (auto simp: ring_ok_def)
qed

text \<open>
  A write into a ring that is already full lands on the oldest entry: it is lost, and the new
  entry is at the front and at the back of what will be read.
\<close>

lemma ring_list_overfill:
  assumes "ring_ok n s h t n"
  shows "ring_list n (s[t := m]) h (Suc n) = m # tl (ring_list n s h n) @ [m]"
proof (rule nth_equalityI)
  have n: "0 < n" "length s = n" "h < n" "t = h" using assms by (auto simp: ring_ok_def)
  then show "length (ring_list n (s[t := m]) h (Suc n)) = length (m # tl (ring_list n s h n) @ [m])"
    by simp
  fix i assume "i < length (ring_list n (s[t := m]) h (Suc n))"
  then have i: "i < Suc n" by simp
  consider "i = 0" | "0 < i" "i < n" | "i = n" using i by linarith
  then show "ring_list n (s[t := m]) h (Suc n) ! i = (m # tl (ring_list n s h n) @ [m]) ! i"
  proof cases
    case 1
    then show ?thesis using n by (simp add: ring_list_nth)
  next
    case 2
    have "(h + i) mod n \<noteq> h"
      using mod_add_neq [of 0 i n h] 2 n by simp
    moreover obtain k where k: "i = Suc k" "k < n - 1" using 2 by (cases i) auto
    ultimately show ?thesis
      using n by (simp add: ring_list_nth nth_append nth_tl)
  next
    case 3
    then show ?thesis using n by (simp add: ring_list_nth nth_Cons' nth_append)
  qed
qed

lemma ring_ok_empty: "length s = n \<Longrightarrow> 0 < n \<Longrightarrow> ring_ok n s 0 0 0"
  by (simp add: ring_ok_def)

section \<open>The contract\<close>

locale ring_buffer =
  fixes cap :: nat
    and slots :: "'q \<Rightarrow> 'm list"
    and rd :: "'q \<Rightarrow> nat"
    and wr :: "'q \<Rightarrow> nat"
    and cnt :: "'q \<Rightarrow> nat"
    and push :: "'m \<Rightarrow> 'q \<Rightarrow> 'q"
    and pop :: "'q \<Rightarrow> 'q"
  assumes cap_pos: "0 < cap"
    and push_slots: "slots (push m q) = (slots q)[wr q := m]"
    and push_rd: "rd (push m q) = rd q"
    and push_wr: "wr (push m q) = (wr q + 1) mod cap"
    and push_cnt: "cnt (push m q) = cnt q + 1"
    and pop_slots: "slots (pop q) = slots q"
    and pop_rd: "rd (pop q) = (rd q + 1) mod cap"
    and pop_wr: "wr (pop q) = wr q"
    and pop_cnt: "cnt (pop q) = cnt q - 1"
begin

definition ok :: "'q \<Rightarrow> bool" where
  "ok q \<longleftrightarrow> ring_ok cap (slots q) (rd q) (wr q) (cnt q)"

definition contents :: "'q \<Rightarrow> 'm list" where
  "contents q = ring_list cap (slots q) (rd q) (cnt q)"

lemmas laws = push_slots push_rd push_wr push_cnt pop_slots pop_rd pop_wr pop_cnt

lemma ok_push: "ok q \<Longrightarrow> cnt q < cap \<Longrightarrow> ok (push m q)"
  using ring_ok_push [of cap "slots q" "rd q" "wr q" "cnt q" m] by (simp add: ok_def laws)

lemma ok_pop: "ok q \<Longrightarrow> 0 < cnt q \<Longrightarrow> ok (pop q)"
  using ring_ok_pop [of cap "slots q" "rd q" "wr q" "cnt q"] by (simp add: ok_def laws)

lemma contents_push: "ok q \<Longrightarrow> cnt q < cap \<Longrightarrow> contents (push m q) = contents q @ [m]"
  using ring_list_snoc [of cap "slots q" "rd q" "wr q" "cnt q" m]
  by (simp add: ok_def contents_def laws)

lemma contents_pop: "0 < cnt q \<Longrightarrow> contents (pop q) = tl (contents q)"
  using ring_list_tl [of "cnt q" cap "slots q" "rd q"] by (simp add: contents_def laws)

lemma front: "ok q \<Longrightarrow> 0 < cnt q \<Longrightarrow> slots q ! rd q = hd (contents q)"
  by (simp add: ok_def ring_ok_def contents_def ring_list_hd)

lemma length_contents [simp]: "length (contents q) = cnt q"
  by (simp add: contents_def)

lemma cnt_le: "ok q \<Longrightarrow> cnt q \<le> cap"
  by (simp add: ok_def ring_ok_def)

text \<open>Pushing into a full ring after dropping the oldest entry keeps the last \<open>cap\<close> entries.\<close>

lemma drop_oldest_push:
  assumes "ok q" and "cnt q = cap"
  shows "ok (push m (pop q))" and "contents (push m (pop q)) = tl (contents q) @ [m]"
proof -
  have p: "0 < cnt q" using assms(2) cap_pos by simp
  have ok': "ok (pop q)" by (rule ok_pop [OF assms(1) p])
  have lt: "cnt (pop q) < cap" using p assms(2) by (simp add: laws)
  show "ok (push m (pop q))" by (rule ok_push [OF ok' lt])
  show "contents (push m (pop q)) = tl (contents q) @ [m]"
    using contents_push [OF ok' lt, of m] contents_pop [OF p] by simp
qed

lemma contents_overfill:
  assumes "ok q" and "cnt q = cap"
  shows "contents (push m q) = m # tl (contents q) @ [m]"
  using ring_list_overfill [of cap "slots q" "rd q" "wr q" m] assms
  by (simp add: ok_def contents_def laws)

text \<open>Everything pushed comes out, in order, before anything pushed later.\<close>

lemma contents_pop_funpow:
  "n \<le> cnt q \<Longrightarrow> contents ((pop ^^ n) q) = drop n (contents q) \<and> cnt ((pop ^^ n) q) = cnt q - n"
proof (induction n)
  case 0
  then show ?case by simp
next
  case (Suc n)
  then have IH: "contents ((pop ^^ n) q) = drop n (contents q)" "cnt ((pop ^^ n) q) = cnt q - n"
    by auto
  have "0 < cnt ((pop ^^ n) q)" using Suc.prems IH(2) by simp
  then show ?case using IH by (simp add: contents_pop laws drop_Suc tl_drop)
qed

end

end
