(* ===== verification/Agent_Reg.thy ===== *)
theory Agent_Reg
  imports Cap_Token Ring_Buffer
begin

text \<open>
  The agent registry, \<^verbatim>\<open>kernel/src/ipc/agent_reg.{h,c}\<close>: sixteen named agents, each in a
  namespace and with a mailbox of four messages. A send may carry a capability token, which the
  kernel delegates to the recipient with the agent lock dropped; the two critical sections of such
  a send are separate definitions. The process table is the parameter \<open>process_lookup\<close>.
\<close>

section \<open>State\<close>

datatype thread_state = THREAD_READY | THREAD_RUNNING | THREAD_DEAD | THREAD_STOPPED | THREAD_BLOCKED

record agent_mbox_msg =
  am_sender_pid :: u64
  am_token_id :: u32
  am_len :: nat
  am_data :: "u8 list"

record agent_mbox =
  mb_msgs :: "agent_mbox_msg list"
  mb_head :: nat
  mb_tail :: nat
  mb_count :: nat

record agent_entry =
  ae_name :: string
  ae_pid :: u64
  ae_ns_id :: u32
  ae_used :: bool
  ae_mbox :: agent_mbox

definition MAX_AGENTS :: nat where "MAX_AGENTS = 16"
definition AGENT_NAME_MAX :: nat where "AGENT_NAME_MAX = 32"
definition AGENT_MBOX_SLOTS :: nat where "AGENT_MBOX_SLOTS = 4"
definition AGENT_MSG_MAX :: nat where "AGENT_MSG_MAX = 256"

definition mbox_zero :: agent_mbox where
  "mbox_zero = \<lparr>mb_msgs = replicate AGENT_MBOX_SLOTS
       \<lparr>am_sender_pid = 0, am_token_id = 0, am_len = 0, am_data = replicate AGENT_MSG_MAX 0\<rparr>,
     mb_head = 0, mb_tail = 0, mb_count = 0\<rparr>"

definition agent_zero :: agent_entry where
  "agent_zero = \<lparr>ae_name = replicate AGENT_NAME_MAX NUL, ae_pid = 0, ae_ns_id = 0, ae_used = False,
     ae_mbox = mbox_zero\<rparr>"

definition agent_boot :: "agent_entry list" where
  "agent_boot = replicate MAX_AGENTS agent_zero"

section \<open>Registration and lookup\<close>

definition mbox_reset :: "agent_mbox \<Rightarrow> agent_mbox" where
  "mbox_reset b = b\<lparr>mb_head := 0, mb_tail := 0, mb_count := 0\<rparr>"

fun agent_init :: "string \<times> u64 \<times> u32 \<Rightarrow> agent_entry \<Rightarrow> agent_entry" where
  "agent_init (name, pid, ns) e =
     e\<lparr>ae_name := str_copy (ae_name e) name AGENT_NAME_MAX, ae_pid := pid, ae_ns_id := ns,
       ae_used := True, ae_mbox := mbox_reset (ae_mbox e)\<rparr>"

definition agent_clear :: "agent_entry \<Rightarrow> agent_entry" where
  "agent_clear e = e\<lparr>ae_used := False\<rparr>"

definition agent_named :: "string \<Rightarrow> u32 \<Rightarrow> agent_entry \<Rightarrow> bool" where
  "agent_named name ns e \<longleftrightarrow> ae_used e \<and> ae_ns_id e = ns \<and> str_eq (ae_name e) name"

definition agent_register_ns ::
  "string \<Rightarrow> u64 \<Rightarrow> u32 \<Rightarrow> agent_entry list \<Rightarrow> unit ret \<times> agent_entry list" where
  "agent_register_ns name pid ns t =
     (case find_index (agent_named name ns) t of
        Some i \<Rightarrow> (Inr (), t[i := (t ! i)\<lparr>ae_pid := pid, ae_mbox := mbox_reset (ae_mbox (t ! i))\<rparr>])
      | None \<Rightarrow>
          (case alloc_slot ae_used (agent_init (name, pid, ns)) t of
             Some (i, t') \<Rightarrow> (Inr (), t')
           | None \<Rightarrow> (Inl ENOMEM, t)))"

text \<open>
  \<open>process_lookup pid\<close> is \<open>None\<close> when there is no such process, and otherwise the state of its main
  thread if it has one.
\<close>

definition agent_dead :: "(u64 \<Rightarrow> thread_state option option) \<Rightarrow> agent_entry \<Rightarrow> bool" where
  "agent_dead process_lookup e =
     (case process_lookup (ae_pid e) of
        None \<Rightarrow> True
      | Some None \<Rightarrow> False
      | Some (Some st) \<Rightarrow> st = THREAD_DEAD)"

fun lookup_loop ::
  "(u64 \<Rightarrow> thread_state option option) \<Rightarrow> string \<Rightarrow> u32 \<Rightarrow> agent_entry list \<Rightarrow> u64 ret \<times> agent_entry list" where
  "lookup_loop process_lookup name ns [] = (Inl ESRCH, [])"
| "lookup_loop process_lookup name ns (e # es) =
     (if agent_named name ns e \<and> \<not> agent_dead process_lookup e then (Inr (ae_pid e), e # es)
      else
        let e' = (if agent_named name ns e then agent_clear e else e);
            (r, es') = lookup_loop process_lookup name ns es
        in (r, e' # es'))"

definition agent_lookup_ns ::
  "(u64 \<Rightarrow> thread_state option option) \<Rightarrow> string \<Rightarrow> u32 \<Rightarrow> agent_entry list \<Rightarrow> u64 ret \<times> agent_entry list" where
  "agent_lookup_ns process_lookup name ns t = lookup_loop process_lookup name ns t"

definition agent_register :: "string \<Rightarrow> u64 \<Rightarrow> agent_entry list \<Rightarrow> unit ret \<times> agent_entry list" where
  "agent_register name pid t = agent_register_ns name pid 0 t"

definition agent_lookup ::
  "(u64 \<Rightarrow> thread_state option option) \<Rightarrow> string \<Rightarrow> agent_entry list \<Rightarrow> u64 ret \<times> agent_entry list" where
  "agent_lookup process_lookup name t = agent_lookup_ns process_lookup name 0 t"

definition agent_unregister_pid :: "u64 \<Rightarrow> agent_entry list \<Rightarrow> agent_entry list" where
  "agent_unregister_pid pid t = release_where ae_used agent_clear (\<lambda>e. ae_pid e = pid) t"

definition agent_unregister_ns :: "u32 \<Rightarrow> agent_entry list \<Rightarrow> agent_entry list" where
  "agent_unregister_ns ns t = release_where ae_used agent_clear (\<lambda>e. ae_ns_id e = ns) t"

section \<open>Mailboxes\<close>

text \<open>The slot written by a send: the first \<open>len\<close> bytes of its data, the rest as it was.\<close>

definition msg_fill :: "u64 \<Rightarrow> u32 \<Rightarrow> nat \<Rightarrow> u8 list \<Rightarrow> agent_mbox_msg \<Rightarrow> agent_mbox_msg" where
  "msg_fill sender tok len data m =
     m\<lparr>am_sender_pid := sender, am_token_id := tok, am_len := len,
       am_data := take len data @ drop len (am_data m)\<rparr>"

definition mbox_put :: "agent_mbox_msg \<Rightarrow> agent_mbox \<Rightarrow> agent_mbox" where
  "mbox_put m b = b\<lparr>mb_msgs := (mb_msgs b)[mb_tail b := m],
     mb_tail := (mb_tail b + 1) mod AGENT_MBOX_SLOTS, mb_count := mb_count b + 1\<rparr>"

definition mbox_drop :: "agent_mbox \<Rightarrow> agent_mbox" where
  "mbox_drop b = b\<lparr>mb_head := (mb_head b + 1) mod AGENT_MBOX_SLOTS, mb_count := mb_count b - 1\<rparr>"

definition agent_reachable :: "string \<Rightarrow> u32 \<Rightarrow> agent_entry \<Rightarrow> bool" where
  "agent_reachable name ns e \<longleftrightarrow>
     ae_used e \<and> \<not> (ae_ns_id e \<noteq> ns \<and> ae_ns_id e \<noteq> 0 \<and> ns \<noteq> 0) \<and> str_eq (ae_name e) name"

text \<open>First critical section: find the target and check for room.\<close>

definition send_target :: "string \<Rightarrow> u32 \<Rightarrow> agent_entry list \<Rightarrow> nat ret" where
  "send_target name ns t =
     (case find_index (agent_reachable name ns) t of
        None \<Rightarrow> Inl ENOENT
      | Some i \<Rightarrow> if mb_count (ae_mbox (t ! i)) \<ge> AGENT_MBOX_SLOTS then Inl ENOBUFS else Inr i)"

text \<open>Last critical section: put the message in the target's mailbox.\<close>

definition send_enqueue ::
  "nat \<Rightarrow> u64 \<Rightarrow> u32 \<Rightarrow> nat \<Rightarrow> u8 list \<Rightarrow> agent_entry list \<Rightarrow> agent_entry list" where
  "send_enqueue i sender tok len data t =
     t[i := (t ! i)\<lparr>ae_mbox := mbox_put
         (msg_fill sender tok len data (mb_msgs (ae_mbox (t ! i)) ! mb_tail (ae_mbox (t ! i))))
         (ae_mbox (t ! i))\<rparr>]"

definition agent_send ::
  "string \<Rightarrow> u32 \<Rightarrow> u64 \<Rightarrow> u8 list \<Rightarrow> nat \<Rightarrow> u32 \<Rightarrow> token_state \<Rightarrow> agent_entry list
     \<Rightarrow> unit ret \<times> token_state \<times> agent_entry list" where
  "agent_send name ns sender data len0 token_id toks t =
     (let len = min len0 AGENT_MSG_MAX in
      case send_target name ns t of
        Inl e \<Rightarrow> (Inl e, toks, t)
      | Inr i \<Rightarrow>
          if token_id = 0 then (Inr (), toks, send_enqueue i sender 0 len data t)
          else
            case cap_token_delegate token_id sender (ae_pid (t ! i)) 0 (Some []) toks of
              (r, toks') \<Rightarrow>
                let tok = (case r of Inl _ \<Rightarrow> 0 | Inr n \<Rightarrow> if 0 <s n then n else 0) in
                if \<not> ae_used (t ! i) then (Inl ENOENT, toks', t)
                else (Inr (), toks', send_enqueue i sender tok len data t))"

definition agent_recv ::
  "u64 \<Rightarrow> nat \<Rightarrow> agent_entry list \<Rightarrow> (u64 \<times> u32 \<times> u8 list) ret \<times> agent_entry list" where
  "agent_recv pid max_len t =
     (case find_index (\<lambda>e. ae_used e \<and> ae_pid e = pid) t of
        None \<Rightarrow> (Inl ESRCH, t)
      | Some i \<Rightarrow>
          let b = ae_mbox (t ! i) in
          if mb_count b = 0 then (Inl EAGAIN, t)
          else
            let m = mb_msgs b ! mb_head b;
                copy_len = (if am_len m > max_len then max_len else am_len m)
            in (Inr (am_sender_pid m, am_token_id m, take copy_len (am_data m)),
                t[i := (t ! i)\<lparr>ae_mbox := mbox_drop b\<rparr>]))"

section \<open>Contracts\<close>

interpretation ag: slot_table ae_used agent_init agent_clear
proof unfold_locales
  fix a e show "ae_used (agent_init a e)" by (cases a) simp
qed (simp add: agent_clear_def)

interpretation mb: ring_buffer AGENT_MBOX_SLOTS mb_msgs mb_head mb_tail mb_count mbox_put mbox_drop
  by unfold_locales (simp_all add: mbox_put_def mbox_drop_def AGENT_MBOX_SLOTS_def)

definition msg_ok :: "agent_mbox_msg \<Rightarrow> bool" where
  "msg_ok m \<longleftrightarrow> length (am_data m) = AGENT_MSG_MAX \<and> am_len m \<le> AGENT_MSG_MAX"

definition agent_ok :: "agent_entry \<Rightarrow> bool" where
  "agent_ok e \<longleftrightarrow> length (ae_name e) = AGENT_NAME_MAX \<and> length (cstr (ae_name e)) < AGENT_NAME_MAX \<and>
     mb.ok (ae_mbox e) \<and> list_all msg_ok (mb_msgs (ae_mbox e))"

definition agent_inv :: "agent_entry list \<Rightarrow> bool" where
  "agent_inv t \<longleftrightarrow> length t = MAX_AGENTS \<and> list_all agent_ok t"

section \<open>The abstract registry\<close>

text \<open>
  What the registry promises: a list of named queues. An entry is free, or has a name, a process,
  a namespace and the messages waiting for it, oldest first; each message is the sender, the
  delegated token and the bytes sent.
\<close>

type_synonym mail = "u64 \<times> u32 \<times> u8 list"
type_synonym mail_entry = "(string \<times> u64 \<times> u32 \<times> mail list) option"

definition msg_view :: "agent_mbox_msg \<Rightarrow> mail" where
  "msg_view m = (am_sender_pid m, am_token_id m, take (am_len m) (am_data m))"

definition mail_of :: "agent_entry \<Rightarrow> mail_entry" where
  "mail_of e = (if ae_used e
     then Some (cstr (ae_name e), ae_pid e, ae_ns_id e, map msg_view (mb.contents (ae_mbox e)))
     else None)"

fun mail_reach :: "string \<Rightarrow> u32 \<Rightarrow> mail_entry \<Rightarrow> bool" where
  "mail_reach name ns None = False"
| "mail_reach name ns (Some (nm, p, n, q)) = (nm = cstr name \<and> (n = ns \<or> n = 0 \<or> ns = 0))"

definition mail_register :: "string \<Rightarrow> u64 \<Rightarrow> u32 \<Rightarrow> mail_entry list \<Rightarrow> unit ret \<times> mail_entry list" where
  "mail_register name pid ns es =
     (case find_index (\<lambda>e. \<exists>p q. e = Some (cstr name, p, ns, q)) es of
        Some i \<Rightarrow> (Inr (), es[i := Some (cstr name, pid, ns, [])])
      | None \<Rightarrow> (case find_index (\<lambda>e. e = None) es of
          Some i \<Rightarrow> (Inr (), es[i := Some (take 31 (cstr name), pid, ns, [])])
        | None \<Rightarrow> (Inl ENOMEM, es)))"

definition mail_send :: "string \<Rightarrow> u32 \<Rightarrow> mail \<Rightarrow> mail_entry list \<Rightarrow> unit ret \<times> mail_entry list" where
  "mail_send name ns m es =
     (case find_index (mail_reach name ns) es of
        None \<Rightarrow> (Inl ENOENT, es)
      | Some i \<Rightarrow>
          (case the (es ! i) of (nm, p, n, q) \<Rightarrow>
             if length q \<ge> 4 then (Inl ENOBUFS, es)
             else (Inr (), es[i := Some (nm, p, n, q @ [m])])))"

definition mail_recv :: "u64 \<Rightarrow> nat \<Rightarrow> mail_entry list \<Rightarrow> mail ret \<times> mail_entry list" where
  "mail_recv pid max_len es =
     (case find_index (\<lambda>e. \<exists>nm n q. e = Some (nm, pid, n, q)) es of
        None \<Rightarrow> (Inl ESRCH, es)
      | Some i \<Rightarrow>
          (case the (es ! i) of (nm, p, n, q) \<Rightarrow>
             (case q of
                [] \<Rightarrow> (Inl EAGAIN, es)
              | (sender, tok, bytes) # q' \<Rightarrow>
                  (Inr (sender, tok, take max_len bytes), es[i := Some (nm, p, n, q')]))))"

lemma agent_inv_nth: "agent_inv t \<Longrightarrow> i < length t \<Longrightarrow> agent_ok (t ! i)"
  by (simp add: agent_inv_def list_all_length)

lemma agent_inv_update: "agent_inv t \<Longrightarrow> agent_ok e \<Longrightarrow> agent_inv (t[i := e])"
  by (cases "i < length t") (auto simp: agent_inv_def list_all_length nth_list_update)

lemma mbox_zero_ok: "mb.ok mbox_zero" "list_all msg_ok (mb_msgs mbox_zero)"
  by (simp_all add: mb.ok_def mbox_zero_def msg_ok_def list_all_length ring_ok_def mb.cap_pos)

lemma agent_inv_boot: "agent_inv agent_boot"
  using mbox_zero_ok
  by (simp add: agent_inv_def agent_boot_def agent_zero_def agent_ok_def AGENT_NAME_MAX_def
      list_all_length cstr_def)

lemma mbox_reset_ok:
  assumes "mb.ok b"
  shows "mb.ok (mbox_reset b)" and "mb.contents (mbox_reset b) = []"
  using assms by (simp_all add: mbox_reset_def mb.ok_def mb.contents_def ring_ok_def)

lemma mail_of_None [simp]: "mail_of e = None \<longleftrightarrow> \<not> ae_used e"
  by (simp add: mail_of_def)

section \<open>Refinement of each operation\<close>

lemma agent_init_ok:
  assumes "agent_ok e"
  shows "agent_ok (agent_init (name, pid, ns) e)"
    and "mail_of (agent_init (name, pid, ns) e) = Some (take 31 (cstr name), pid, ns, [])"
proof -
  have l: "0 < AGENT_NAME_MAX" "AGENT_NAME_MAX \<le> length (ae_name e)"
    using assms by (simp_all add: agent_ok_def AGENT_NAME_MAX_def)
  have b: "mb.ok (ae_mbox e)" using assms by (simp add: agent_ok_def)
  have c: "cstr (str_copy (ae_name e) name AGENT_NAME_MAX) = take 31 (cstr name)"
    by (simp add: cstr_str_copy [OF l]) (simp add: AGENT_NAME_MAX_def)
  then show "agent_ok (agent_init (name, pid, ns) e)"
    using assms mbox_reset_ok [OF b] by (simp add: agent_ok_def AGENT_NAME_MAX_def mbox_reset_def)
  show "mail_of (agent_init (name, pid, ns) e) = Some (take 31 (cstr name), pid, ns, [])"
    using c mbox_reset_ok [OF b] by (simp add: mail_of_def)
qed

lemma agent_register_refines:
  assumes inv: "agent_inv t" and run: "agent_register_ns name pid ns t = (r, t')"
  shows "agent_inv t'" and "mail_register name pid ns (map mail_of t) = (r, map mail_of t')"
proof -
  have P: "(\<lambda>e. \<exists>p q. mail_of e = Some (cstr name, p, ns, q)) = agent_named name ns"
    by (auto simp: fun_eq_iff mail_of_def agent_named_def str_eq_iff)
  have N: "find_index (\<lambda>e. mail_of e = None) t = find_index (\<lambda>e. \<not> ae_used e) t" by simp
  have "agent_inv t' \<and> mail_register name pid ns (map mail_of t) = (r, map mail_of t')"
  proof (cases "find_index (agent_named name ns) t")
    case (Some i)
    let ?e = "(t ! i)\<lparr>ae_pid := pid, ae_mbox := mbox_reset (ae_mbox (t ! i))\<rparr>"
    have i: "i < length t" "agent_named name ns (t ! i)" using find_index_SomeD [OF Some] by auto
    have ok: "agent_ok (t ! i)" by (rule agent_inv_nth [OF inv i(1)])
    then have b: "mb.ok (ae_mbox (t ! i))" by (simp add: agent_ok_def)
    have ok': "agent_ok ?e" using ok mbox_reset_ok [OF b] by (simp add: agent_ok_def mbox_reset_def)
    have m: "mail_of ?e = Some (cstr name, pid, ns, [])"
      using i(2) mbox_reset_ok [OF b] by (simp add: mail_of_def agent_named_def str_eq_iff)
    have r: "r = Inr ()" "t' = t[i := ?e]" using run Some by (simp_all add: agent_register_ns_def)
    show ?thesis using agent_inv_update [OF inv ok'] r m Some
      by (simp add: mail_register_def find_index_map P map_update)
  next
    case None
    show ?thesis
    proof (cases "find_index (\<lambda>e. \<not> ae_used e) t")
      case None': None
      then have "r = Inl ENOMEM" "t' = t" using run None
        by (simp_all add: agent_register_ns_def alloc_slot_def)
      then show ?thesis using inv None None' N by (simp add: mail_register_def find_index_map P)
    next
      case (Some i)
      have i: "i < length t" using find_index_SomeD [OF Some] by auto
      note e = agent_init_ok [OF agent_inv_nth [OF inv i], of name pid ns]
      have r: "r = Inr ()" "t' = t[i := agent_init (name, pid, ns) (t ! i)]"
        using run None Some by (simp_all add: agent_register_ns_def alloc_slot_def)
      show ?thesis using agent_inv_update [OF inv e(1)] r e(2) None Some N
        by (simp add: mail_register_def find_index_map P map_update del: agent_init.simps)
    qed
  qed
  then show "agent_inv t'" "mail_register name pid ns (map mail_of t) = (r, map mail_of t')" by auto
qed

lemma msg_fill_ok:
  assumes "msg_ok m" and "len \<le> AGENT_MSG_MAX" and "len \<le> length data"
  shows "msg_ok (msg_fill sender tok len data m)"
    and "msg_view (msg_fill sender tok len data m) = (sender, tok, take len data)"
  using assms by (simp_all add: msg_ok_def msg_fill_def msg_view_def)

lemma send_enqueue_ok:
  assumes inv: "agent_inv t" and i: "i < length t" and room: "mb_count (ae_mbox (t ! i)) < AGENT_MBOX_SLOTS"
    and len: "len \<le> AGENT_MSG_MAX" "len \<le> length data" and used: "ae_used (t ! i)"
  shows "agent_inv (send_enqueue i sender tok len data t)"
    and "map mail_of (send_enqueue i sender tok len data t) = (map mail_of t)[i :=
       Some (cstr (ae_name (t ! i)), ae_pid (t ! i), ae_ns_id (t ! i),
         map msg_view (mb.contents (ae_mbox (t ! i))) @ [(sender, tok, take len data)])]"
proof -
  let ?b = "ae_mbox (t ! i)"
  let ?m = "msg_fill sender tok len data (mb_msgs ?b ! mb_tail ?b)"
  have ok: "agent_ok (t ! i)" by (rule agent_inv_nth [OF inv i])
  then have b: "mb.ok ?b" and ms: "list_all msg_ok (mb_msgs ?b)" by (simp_all add: agent_ok_def)
  have "msg_ok (mb_msgs ?b ! mb_tail ?b)"
    using b ms by (simp add: mb.ok_def ring_ok_def list_all_length)
  note m = msg_fill_ok [OF this len, of sender tok]
  have "list_all msg_ok ((mb_msgs ?b)[mb_tail ?b := ?m])"
    using ms m(1) set_update_subset_insert [of "mb_msgs ?b" "mb_tail ?b" ?m] by (auto simp: list_all_iff)
  then have e: "agent_ok ((t ! i)\<lparr>ae_mbox := mbox_put ?m ?b\<rparr>)"
    using ok mb.ok_push [OF b room, of ?m] by (simp add: agent_ok_def mbox_put_def)
  show "agent_inv (send_enqueue i sender tok len data t)"
    unfolding send_enqueue_def by (rule agent_inv_update [OF inv e])
  show "map mail_of (send_enqueue i sender tok len data t) = (map mail_of t)[i :=
       Some (cstr (ae_name (t ! i)), ae_pid (t ! i), ae_ns_id (t ! i),
         map msg_view (mb.contents ?b) @ [(sender, tok, take len data)])]"
    using mb.contents_push [OF b room, of ?m] m(2) used
    by (simp add: send_enqueue_def map_update mail_of_def)
qed

lemma agent_send_refines:
  assumes inv: "agent_inv t" and data: "min len AGENT_MSG_MAX \<le> length data"
    and run: "agent_send name ns sender data len 0 toks t = (r, toks', t')"
  shows "agent_inv t'" and "toks' = toks"
    and "mail_send name ns (sender, 0, take (min len 256) data) (map mail_of t) = (r, map mail_of t')"
proof -
  have P: "(\<lambda>e. mail_reach name ns (mail_of e)) = agent_reachable name ns"
    by (auto simp: fun_eq_iff mail_of_def agent_reachable_def str_eq_iff)
  have "agent_inv t' \<and> toks' = toks \<and>
      mail_send name ns (sender, 0, take (min len 256) data) (map mail_of t) = (r, map mail_of t')"
  proof (cases "find_index (agent_reachable name ns) t")
    case None
    then show ?thesis
      using run inv by (simp add: agent_send_def send_target_def mail_send_def find_index_map P)
  next
    case (Some i)
    then have i: "i < length t" "ae_used (t ! i)"
      using find_index_SomeD [OF Some] by (auto simp: agent_reachable_def)
    note sp = Some P find_index_map agent_send_def send_target_def mail_send_def
    have nth: "the (map mail_of t ! i) = (cstr (ae_name (t ! i)), ae_pid (t ! i), ae_ns_id (t ! i),
        map msg_view (mb.contents (ae_mbox (t ! i))))" using i by (simp add: mail_of_def)
    show ?thesis
    proof (cases "mb_count (ae_mbox (t ! i)) < AGENT_MBOX_SLOTS")
      case True
      have l: "min len AGENT_MSG_MAX \<le> AGENT_MSG_MAX" by simp
      note q = send_enqueue_ok [OF inv i(1) True l data i(2), of sender 0]
      have r: "r = Inr ()" "toks' = toks" "t' = send_enqueue i sender 0 (min len AGENT_MSG_MAX) data t"
        using run True by (simp_all add: sp)
      moreover have "\<not> 4 \<le> length (mb.contents (ae_mbox (t ! i)))"
        using True by (simp only: mb.length_contents) (simp add: AGENT_MBOX_SLOTS_def)
      moreover have "min len AGENT_MSG_MAX = min len 256" by (simp add: AGENT_MSG_MAX_def)
      ultimately show ?thesis using q nth Some by (simp add: mail_send_def find_index_map P)
    next
      case False
      then have "r = Inl ENOBUFS" "toks' = toks" "t' = t" using run by (simp_all add: sp)
      moreover have "4 \<le> length (mb.contents (ae_mbox (t ! i)))"
        using False by (simp only: mb.length_contents) (simp add: AGENT_MBOX_SLOTS_def)
      ultimately show ?thesis using inv nth Some by (simp add: mail_send_def find_index_map P)
    qed
  qed
  then show "agent_inv t'" "toks' = toks"
    "mail_send name ns (sender, 0, take (min len 256) data) (map mail_of t) = (r, map mail_of t')" by auto
qed

lemma agent_recv_refines:
  assumes inv: "agent_inv t" and run: "agent_recv pid max_len t = (r, t')"
  shows "agent_inv t'" and "mail_recv pid max_len (map mail_of t) = (r, map mail_of t')"
proof -
  have P: "(\<lambda>e. \<exists>nm n q. mail_of e = Some (nm, pid, n, q)) = (\<lambda>e. ae_used e \<and> ae_pid e = pid)"
    by (auto simp: fun_eq_iff mail_of_def)
  have "agent_inv t' \<and> mail_recv pid max_len (map mail_of t) = (r, map mail_of t')"
  proof (cases "find_index (\<lambda>e. ae_used e \<and> ae_pid e = pid) t")
    case None
    then show ?thesis using run inv by (simp add: agent_recv_def mail_recv_def find_index_map P)
  next
    case (Some i)
    let ?b = "ae_mbox (t ! i)"
    have i: "i < length t" "ae_used (t ! i)" using find_index_SomeD [OF Some] by auto
    have ok: "agent_ok (t ! i)" by (rule agent_inv_nth [OF inv i(1)])
    then have b: "mb.ok ?b" by (simp add: agent_ok_def)
    have nth: "the (map mail_of t ! i) = (cstr (ae_name (t ! i)), ae_pid (t ! i), ae_ns_id (t ! i),
        map msg_view (mb.contents ?b))" using i by (simp add: mail_of_def)
    show ?thesis
    proof (cases "mb_count ?b = 0")
      case True
      then have "mb.contents ?b = []" by (simp add: mb.contents_def)
      then show ?thesis using run True inv Some nth
        by (simp add: agent_recv_def mail_recv_def find_index_map P)
    next
      case False
      let ?m = "mb_msgs ?b ! mb_head ?b"
      have "length (mb.contents ?b) = mb_count ?b" by simp
      then obtain q where q: "mb.contents ?b = ?m # q" "mb.contents (mbox_drop ?b) = q"
        using mb.front [OF b] mb.contents_pop [of ?b] False by (cases "mb.contents ?b") auto
      have e: "agent_ok ((t ! i)\<lparr>ae_mbox := mbox_drop ?b\<rparr>)"
        using ok mb.ok_pop [OF b] False by (simp add: agent_ok_def mbox_drop_def)
      have r: "r = Inr (am_sender_pid ?m, am_token_id ?m, take (min (am_len ?m) max_len) (am_data ?m))"
        "t' = t[i := (t ! i)\<lparr>ae_mbox := mbox_drop ?b\<rparr>]"
        using run Some False by (auto simp: agent_recv_def Let_def min_def)
      have "mail_of ((t ! i)\<lparr>ae_mbox := mbox_drop ?b\<rparr>) = Some (cstr (ae_name (t ! i)), ae_pid (t ! i),
          ae_ns_id (t ! i), map msg_view q)" using i q by (simp add: mail_of_def)
      then show ?thesis using agent_inv_update [OF inv e] r q Some nth
        by (simp add: mail_recv_def find_index_map P map_update msg_view_def min.commute)
    qed
  qed
  then show "agent_inv t'" "mail_recv pid max_len (map mail_of t) = (r, map mail_of t')" by auto
qed

lemma lookup_loop_result:
  "fst (lookup_loop pl name ns t) =
     (case find_index (\<lambda>e. agent_named name ns e \<and> \<not> agent_dead pl e) t of
        None \<Rightarrow> Inl ESRCH | Some i \<Rightarrow> Inr (ae_pid (t ! i)))"
  by (induction t) (auto simp: Let_def split: option.splits prod.splits)

lemma agent_ok_named: "agent_ok e \<Longrightarrow> agent_named name ns e \<Longrightarrow> length (cstr name) < 32"
  by (auto simp: agent_ok_def agent_named_def str_eq_iff AGENT_NAME_MAX_def)

lemma agent_named_init:
  assumes "agent_ok e"
  shows "agent_named name ns (agent_init (name, pid, ns) e) \<longleftrightarrow> length (cstr name) < 32"
proof -
  have l: "0 < AGENT_NAME_MAX" "AGENT_NAME_MAX \<le> length (ae_name e)"
    using assms by (simp_all add: agent_ok_def AGENT_NAME_MAX_def)
  have "cstr (str_copy (ae_name e) name AGENT_NAME_MAX) = take 31 (cstr name)"
    by (simp add: cstr_str_copy [OF l]) (simp add: AGENT_NAME_MAX_def)
  then show ?thesis by (auto simp: agent_named_def str_eq_iff min_def dest: arg_cong [of _ _ length])
qed

lemma register_lookup_short:
  assumes inv: "agent_inv t" and run: "agent_register_ns name pid ns t = (Inr (), t')"
    and len: "length (cstr name) < 32" and live: "\<And>e. ae_pid e = pid \<Longrightarrow> \<not> agent_dead pl e"
  shows "fst (agent_lookup_ns pl name ns t') = Inr pid"
proof -
  let ?P = "\<lambda>e. agent_named name ns e \<and> \<not> agent_dead pl e"
  obtain i e where t': "t' = t[i := e]" and i: "i < length t" and e: "agent_named name ns e" "ae_pid e = pid"
    and before: "\<And>j. j < i \<Longrightarrow> \<not> agent_named name ns (t ! j)"
  proof (cases "find_index (agent_named name ns) t")
    case (Some i)
    let ?e = "(t ! i)\<lparr>ae_pid := pid, ae_mbox := mbox_reset (ae_mbox (t ! i))\<rparr>"
    have "agent_named name ns ?e" using find_index_SomeD [OF Some] by (simp add: agent_named_def)
    then show thesis using that [of i ?e] find_index_SomeD [OF Some] run Some
      by (simp add: agent_register_ns_def)
  next
    case None
    then obtain i where "alloc_slot ae_used (agent_init (name, pid, ns)) t = Some (i, t')"
      using run by (auto simp: agent_register_ns_def split: option.splits)
    then have i: "i < length t" "t' = t[i := agent_init (name, pid, ns) (t ! i)]"
      using alloc_slot_SomeD by blast+
    have "agent_named name ns (agent_init (name, pid, ns) (t ! i))"
      using agent_named_init [OF agent_inv_nth [OF inv i(1)]] len by blast
    moreover have "\<not> agent_named name ns (t ! j)" if "j < i" for j
      using None that i(1) by (simp add: find_index_None_iff)
    ultimately show thesis using that [OF i(2,1)] by simp
  qed
  have "find_index ?P t' = Some i"
    using i e live [OF e(2)] before by (intro find_index_first) (auto simp: t')
  then show ?thesis using i e(2) by (simp add: agent_lookup_ns_def lookup_loop_result t')
qed

section \<open>Properties\<close>

text \<open>A registry with one agent, and one with three messages waiting for it.\<close>

definition demo_agents :: "agent_entry list" where
  "demo_agents = snd (agent_register_ns ''bob'' 2 1 agent_boot)"

definition demo_mail :: "u8 \<Rightarrow> agent_entry list \<Rightarrow> agent_entry list" where
  "demo_mail b t = snd (snd (agent_send ''bob'' 1 9 [b] 1 0 token_boot t))"

lemma demo_agents_inv: "agent_inv demo_agents"
  unfolding demo_agents_def
  using agent_register_refines(1) [OF agent_inv_boot prod.collapse [symmetric]] by blast

lemma demo_mail_inv: "agent_inv t \<Longrightarrow> agent_inv (demo_mail b t)"
  unfolding demo_mail_def
  using agent_send_refines(1) [of t 1 "[b]" "''bob''" 1 9 token_boot] by (metis length_Cons list.size(3) min.cobounded1 One_nat_def prod.collapse)



text \<open>
  C18: Looking up a name after registering it yields the registered process, when that process is
  alive and the name fits in the name field. A name of 32 or more characters is stored truncated and
  compared in full, so registration reports success and the agent can never be found.
\<close>

theorem agent_register_lookup:
  assumes "agent_inv t" and "agent_register_ns name pid ns t = (Inr (), t')"
    and "pl pid \<noteq> None" and "pl pid \<noteq> Some (Some THREAD_DEAD)"
  shows "fst (agent_lookup_ns pl name ns t') = (if length (cstr name) < 32 then Inr pid else Inl ESRCH)"
proof (cases "length (cstr name) < 32")
  case True
  have "\<not> agent_dead pl e" if "ae_pid e = pid" for e
    using assms(3,4) that by (auto simp: agent_dead_def split: option.splits)
  from register_lookup_short [OF assms(1,2) True this] show ?thesis using True by simp
next
  case False
  have inv': "agent_inv t'" by (rule agent_register_refines(1) [OF assms(1,2)])
  have "\<not> agent_named name ns e" if "e \<in> set t'" for e
    using inv' that agent_ok_named [of e name ns] False by (auto simp: agent_inv_def list_all_iff)
  then have "find_index (\<lambda>e. agent_named name ns e \<and> \<not> agent_dead pl e) t' = None"
    by (simp add: find_index_None_iff)
  then show ?thesis using False by (simp add: agent_lookup_ns_def lookup_loop_result)
qed

theorem agent_register_lookup_witness:
  "fst (agent_lookup_ns (\<lambda>_. Some None) ''bob'' 1 demo_agents) = Inr 2 \<and>
   fst (agent_lookup_ns (\<lambda>_. Some None) (replicate 32 (CHR ''a'')) 1
     (snd (agent_register_ns (replicate 32 (CHR ''a'')) 2 1 agent_boot))) = Inl ESRCH"
proof -
  have a: "agent_register_ns ''bob'' 2 1 agent_boot = (Inr (), demo_agents)" by code_simp
  let ?n = "replicate 32 (CHR ''a'')"
  have b: "fst (agent_register_ns ?n 2 1 agent_boot) = Inr ()" by code_simp
  have l: "length (cstr ''bob'') < 32" "\<not> length (cstr ?n) < 32" by code_simp+
  have c: "agent_register_ns ?n 2 1 agent_boot = (Inr (), snd (agent_register_ns ?n 2 1 agent_boot))"
    using b by (metis prod.collapse)
  show ?thesis
    using agent_register_lookup [OF agent_inv_boot a, of "\<lambda>_. Some None"]
      agent_register_lookup [OF agent_inv_boot c, of "\<lambda>_. Some None"] l by simp
qed



text \<open>
  A send with a token does not check the mailbox again after it has delegated the token. When
  another sender takes the last free slot in between, the message is written over the oldest one:
  five messages are counted, the oldest is lost, and the new message is first and last in the queue.
\<close>

theorem agent_send_race_loses_message:
  assumes "agent_inv t" and "send_target name ns t = Inr i"
    and "mb_count (ae_mbox (t ! i)) = 3"
    and "min len2 AGENT_MSG_MAX \<le> length data2"
    and "agent_send name ns sender2 data2 len2 0 toks t = (Inr (), toks', t1)"
    and "len \<le> AGENT_MSG_MAX" and "len \<le> length data"
  shows "\<exists>q. mail_of (t1 ! i) = Some (cstr (ae_name (t ! i)), ae_pid (t ! i), ae_ns_id (t ! i), q) \<and>
     length q = 4 \<and>
     mail_of (send_enqueue i sender tok len data t1 ! i) =
       Some (cstr (ae_name (t ! i)), ae_pid (t ! i), ae_ns_id (t ! i),
         (sender, tok, take len data) # tl q @ [(sender, tok, take len data)])"
proof -
  have f: "find_index (agent_reachable name ns) t = Some i"
    and room: "mb_count (ae_mbox (t ! i)) < AGENT_MBOX_SLOTS"
    using assms(2) by (auto simp: send_target_def split: option.splits if_splits)
  have i: "i < length t" "ae_used (t ! i)"
    using find_index_SomeD [OF f] by (auto simp: agent_reachable_def)
  have t1: "t1 = send_enqueue i sender2 0 (min len2 AGENT_MSG_MAX) data2 t"
    using assms(2,5) by (simp add: agent_send_def Let_def)
  have inv1: "agent_inv t1" by (rule agent_send_refines(1) [OF assms(1,4,5)])
  let ?e = "t1 ! i"
  let ?b = "ae_mbox ?e"
  have e: "ae_used ?e" "ae_name ?e = ae_name (t ! i)" "ae_pid ?e = ae_pid (t ! i)"
    "ae_ns_id ?e = ae_ns_id (t ! i)" "mb_count ?b = 4" "i < length t1"
    using i assms(3) by (simp_all add: t1 send_enqueue_def mbox_put_def)
  have ok: "mb.ok ?b" and ms: "list_all msg_ok (mb_msgs ?b)"
    using agent_inv_nth [OF inv1 e(6)] by (simp_all add: agent_ok_def)
  have cnt: "mb_count ?b = AGENT_MBOX_SLOTS" using e(5) by (simp add: AGENT_MBOX_SLOTS_def)
  have "msg_ok (mb_msgs ?b ! mb_tail ?b)"
    using ok ms by (simp add: mb.ok_def ring_ok_def list_all_length)
  note m = msg_fill_ok(2) [OF this assms(6,7), of sender tok]
  have c: "mb.contents (ae_mbox (send_enqueue i sender tok len data t1 ! i))
      = msg_fill sender tok len data (mb_msgs ?b ! mb_tail ?b) # tl (mb.contents ?b)
        @ [msg_fill sender tok len data (mb_msgs ?b ! mb_tail ?b)]"
    using mb.contents_overfill [OF ok cnt] e(6) by (simp add: send_enqueue_def)
  have h: "ae_used (send_enqueue i sender tok len data t1 ! i)"
    "ae_name (send_enqueue i sender tok len data t1 ! i) = ae_name (t ! i)"
    "ae_pid (send_enqueue i sender tok len data t1 ! i) = ae_pid (t ! i)"
    "ae_ns_id (send_enqueue i sender tok len data t1 ! i) = ae_ns_id (t ! i)"
    using e by (simp_all add: send_enqueue_def)
  show ?thesis
    by (rule exI [of _ "map msg_view (mb.contents ?b)"])
      (use c h e m in \<open>simp add: mail_of_def map_tl\<close>)
qed

theorem agent_send_race_loses_message_witness:
  "\<exists>t q. mail_of (t ! 0) = Some (''bob'', 2, 1, q) \<and> length q = 4 \<and>
     mail_of (send_enqueue 0 7 1 1 [99] t ! 0) = Some (''bob'', 2, 1, (7, 1, [99]) # tl q @ [(7, 1, [99])])"
proof -
  define t where "t = demo_mail 3 (demo_mail 2 (demo_mail 1 demo_agents))"
  have inv: "agent_inv t" unfolding t_def by (intro demo_mail_inv demo_agents_inv)
  have tg: "send_target ''bob'' 1 t = Inr 0" unfolding t_def by code_simp
  have c: "mb_count (ae_mbox (t ! 0)) = 3" unfolding t_def by code_simp
  have nm: "cstr (ae_name (t ! 0)) = ''bob''" "ae_pid (t ! 0) = 2" "ae_ns_id (t ! 0) = 1"
    unfolding t_def by code_simp+
  have r: "agent_send ''bob'' 1 9 [4] 1 0 token_boot t
      = (Inr (), token_boot, send_enqueue 0 9 0 (min 1 AGENT_MSG_MAX) [4] t)"
    using tg by (simp add: agent_send_def)
  have len: "min 1 AGENT_MSG_MAX \<le> length [4::u8]" by simp
  have len': "(1::nat) \<le> AGENT_MSG_MAX" "(1::nat) \<le> length [99::u8]" by (simp_all add: AGENT_MSG_MAX_def)
  from agent_send_race_loses_message [OF inv tg c len r len', of 7 1] nm
  show ?thesis by (metis One_nat_def take_all_iff len'(2) list.size(3) length_Cons order_refl)
qed

end
