(* ===== verification/Agent_Ns.thy ===== *)
theory Agent_Ns
  imports Agent_Reg
begin

text \<open>
  Agent namespaces and their quotas, \<^verbatim>\<open>kernel/src/ipc/agent_ns.{h,c}\<close>. Namespace 0 is the global
  one: its slot is never allocated. The counters keep their 32-bit width, and the signed sum of
  \<^verbatim>\<open>agent_ns_quota_adjust\<close> wraps as the machine does.
\<close>

section \<open>State\<close>

record agent_namespace =
  an_name :: string
  an_owner_pid :: u64
  an_used :: bool
  an_max_procs :: u32
  an_max_mem_pages :: u32
  an_cur_procs :: u32
  an_cur_mem_pages :: u32

definition MAX_NAMESPACES :: nat where "MAX_NAMESPACES = 8"
definition NS_NAME_MAX :: nat where "NS_NAME_MAX = 32"
definition NS_QUOTA_PROCS :: u32 where "NS_QUOTA_PROCS = 0"
definition NS_QUOTA_MEM_PAGES :: u32 where "NS_QUOTA_MEM_PAGES = 1"

definition ns_zero :: agent_namespace where
  "ns_zero = \<lparr>an_name = replicate NS_NAME_MAX NUL, an_owner_pid = 0, an_used = False,
     an_max_procs = 0, an_max_mem_pages = 0, an_cur_procs = 0, an_cur_mem_pages = 0\<rparr>"

definition ns_boot :: "agent_namespace list" where
  "ns_boot = replicate MAX_NAMESPACES ns_zero"

section \<open>Operations\<close>

fun ns_init :: "string option \<times> u64 \<Rightarrow> agent_namespace \<Rightarrow> agent_namespace" where
  "ns_init (name, owner) n =
     n\<lparr>an_used := True, an_owner_pid := owner,
       an_name := str_copy (an_name n) (opt_str name) NS_NAME_MAX\<rparr>"

definition ns_clear :: "agent_namespace \<Rightarrow> agent_namespace" where
  "ns_clear n = n\<lparr>an_used := False\<rparr>"

text \<open>The scan starts at slot 1.\<close>

definition agent_ns_create ::
  "string option \<Rightarrow> u64 \<Rightarrow> agent_namespace list \<Rightarrow> nat ret \<times> agent_namespace list" where
  "agent_ns_create name owner_pid t =
     (case alloc_slot an_used (ns_init (name, owner_pid)) (drop 1 t) of
        None \<Rightarrow> (Inl ENOMEM, t)
      | Some (i, t') \<Rightarrow> (Inr (Suc i), take 1 t @ t'))"

definition agent_ns_join :: "nat \<Rightarrow> u64 \<Rightarrow> u16 \<Rightarrow> agent_namespace list \<Rightarrow> unit ret" where
  "agent_ns_join ns_id caller_pid caller_uid t =
     (if ns_id = 0 then Inr ()
      else if ns_id \<ge> MAX_NAMESPACES \<or> \<not> an_used (t ! ns_id) then Inl ENOENT
      else if caller_uid \<noteq> 0 \<and> an_owner_pid (t ! ns_id) \<noteq> caller_pid then Inl EPERM
      else Inr ())"

text \<open>
  One round of the exit loop: the namespace is released under its lock, then, with the lock
  dropped, the agents registered in it are removed.
\<close>

definition ns_cleanup_step ::
  "u64 \<Rightarrow> nat \<Rightarrow> agent_namespace list \<times> agent_entry list \<Rightarrow> agent_namespace list \<times> agent_entry list" where
  "ns_cleanup_step pid i st =
     (case st of (t, agents) \<Rightarrow>
        if an_used (t ! i) \<and> an_owner_pid (t ! i) = pid
        then (t[i := ns_clear (t ! i)], agent_unregister_ns (of_nat i) agents)
        else (t, agents))"

definition agent_ns_cleanup_pid ::
  "u64 \<Rightarrow> agent_namespace list \<times> agent_entry list \<Rightarrow> agent_namespace list \<times> agent_entry list" where
  "agent_ns_cleanup_pid pid st = fold (ns_cleanup_step pid) [1..<MAX_NAMESPACES] st"

definition agent_ns_valid :: "nat \<Rightarrow> agent_namespace list \<Rightarrow> bool" where
  "agent_ns_valid ns_id t =
     (if ns_id = 0 then True
      else if ns_id \<ge> MAX_NAMESPACES then False
      else an_used (t ! ns_id))"

definition agent_ns_set_quota ::
  "nat \<Rightarrow> u32 \<Rightarrow> u32 \<Rightarrow> u64 \<Rightarrow> u16 \<Rightarrow> agent_namespace list \<Rightarrow> unit ret \<times> agent_namespace list" where
  "agent_ns_set_quota ns_id resource limit caller_pid caller_uid t =
     (if ns_id = 0 \<or> ns_id \<ge> MAX_NAMESPACES then (Inl ENOENT, t)
      else if \<not> an_used (t ! ns_id) then (Inl ENOENT, t)
      else if caller_uid \<noteq> 0 \<and> an_owner_pid (t ! ns_id) \<noteq> caller_pid then (Inl EPERM, t)
      else if resource = NS_QUOTA_PROCS then
        (Inr (), t[ns_id := (t ! ns_id)\<lparr>an_max_procs := limit\<rparr>])
      else if resource = NS_QUOTA_MEM_PAGES then
        (Inr (), t[ns_id := (t ! ns_id)\<lparr>an_max_mem_pages := limit\<rparr>])
      else (Inl EINVAL, t))"

definition agent_ns_quota_check :: "nat \<Rightarrow> u32 \<Rightarrow> u32 \<Rightarrow> agent_namespace list \<Rightarrow> bool" where
  "agent_ns_quota_check ns_id resource count t =
     (if ns_id = 0 \<or> ns_id \<ge> MAX_NAMESPACES then True
      else if \<not> an_used (t ! ns_id) then True
      else if resource = NS_QUOTA_PROCS then
        (if an_max_procs (t ! ns_id) = 0 then True
         else an_cur_procs (t ! ns_id) + count \<le> an_max_procs (t ! ns_id))
      else if resource = NS_QUOTA_MEM_PAGES then
        (if an_max_mem_pages (t ! ns_id) = 0 then True
         else an_cur_mem_pages (t ! ns_id) + count \<le> an_max_mem_pages (t ! ns_id))
      else True)"

definition quota_sum :: "u32 \<Rightarrow> 32 word \<Rightarrow> u32" where
  "quota_sum cur delta = (let val = cur + delta in if 0 <s val then val else 0)"

definition agent_ns_quota_adjust :: "nat \<Rightarrow> u32 \<Rightarrow> 32 word \<Rightarrow> agent_namespace list \<Rightarrow> agent_namespace list" where
  "agent_ns_quota_adjust ns_id resource delta t =
     (if ns_id = 0 \<or> ns_id \<ge> MAX_NAMESPACES then t
      else if \<not> an_used (t ! ns_id) then t
      else if resource = NS_QUOTA_PROCS then
        t[ns_id := (t ! ns_id)\<lparr>an_cur_procs := quota_sum (an_cur_procs (t ! ns_id)) delta\<rparr>]
      else if resource = NS_QUOTA_MEM_PAGES then
        t[ns_id := (t ! ns_id)\<lparr>an_cur_mem_pages := quota_sum (an_cur_mem_pages (t ! ns_id)) delta\<rparr>]
      else t)"

section \<open>The table contract\<close>

interpretation ns: slot_table an_used ns_init ns_clear
proof unfold_locales
  fix a e show "an_used (ns_init a e)" by (cases a) simp
qed (simp add: ns_clear_def)

definition ns_inv :: "agent_namespace list \<Rightarrow> bool" where
  "ns_inv t \<longleftrightarrow> length t = MAX_NAMESPACES \<and> list_all (\<lambda>n. length (an_name n) = NS_NAME_MAX) t"

lemma ns_inv_boot: "ns_inv ns_boot"
  by (simp add: ns_inv_def ns_boot_def ns_zero_def list_all_length)

lemma agent_ns_create_InrD:
  assumes "agent_ns_create name owner t = (Inr i, t')" and "ns_inv t"
  shows "0 < i" "i < MAX_NAMESPACES" "\<not> an_used (t ! i)" "t' = t[i := ns_init (name, owner) (t ! i)]"
proof -
  obtain k u where al: "alloc_slot an_used (ns_init (name, owner)) (drop 1 t) = Some (k, u)"
    and i: "i = Suc k" "t' = take 1 t @ u"
    using assms(1) by (auto simp: agent_ns_create_def split: option.splits)
  have u: "k < length (drop 1 t)" "\<not> an_used (drop 1 t ! k)"
    "u = (drop 1 t)[k := ns_init (name, owner) (drop 1 t ! k)]"
    using alloc_slot_SomeD [OF al] by auto
  obtain n ns where t: "t = n # ns" using assms(2) by (cases t) (auto simp: ns_inv_def MAX_NAMESPACES_def)
  show "0 < i" "i < MAX_NAMESPACES" "\<not> an_used (t ! i)" "t' = t[i := ns_init (name, owner) (t ! i)]"
    using u i assms(2) by (simp_all add: t ns_inv_def)
qed

section \<open>Exit of the owner\<close>

definition ns_owned :: "u64 \<Rightarrow> agent_namespace \<Rightarrow> bool" where
  "ns_owned pid n \<longleftrightarrow> an_used n \<and> an_owner_pid n = pid"

lemma agent_clear_idem [simp]: "agent_clear (agent_clear e) = agent_clear e"
  and agent_clear_used [simp]: "\<not> ae_used (agent_clear e)"
  and agent_clear_ns [simp]: "ae_ns_id (agent_clear e) = ae_ns_id e"
  by (simp_all add: agent_clear_def)

lemma ns_cleanup_fold:
  assumes "distinct xs" and "\<forall>i \<in> set xs. i < length t"
  shows "fold (ns_cleanup_step pid) xs (t, a) =
     (map (\<lambda>j. if j \<in> set xs \<and> ns_owned pid (t ! j) then ns_clear (t ! j) else t ! j) [0..<length t],
      map (\<lambda>e. if ae_used e \<and> (\<exists>i \<in> set xs. ns_owned pid (t ! i) \<and> ae_ns_id e = of_nat i)
                then agent_clear e else e) a)"
  using assms
proof (induction xs arbitrary: t a)
  case Nil
  then show ?case by (simp add: map_nth)
next
  case (Cons x xs)
  then have x: "x < length t" "x \<notin> set xs" and d: "distinct xs" by auto
  show ?case
  proof (cases "ns_owned pid (t ! x)")
    case True
    let ?t = "t[x := ns_clear (t ! x)]"
    have step: "ns_cleanup_step pid x (t, a) = (?t, agent_unregister_ns (of_nat x) a)"
      using True by (simp add: ns_cleanup_step_def ns_owned_def)
    have "\<forall>i \<in> set xs. i < length ?t" using Cons.prems by simp
    note ih = Cons.IH [OF d this, of "agent_unregister_ns (of_nat x) a"]
    have "(\<exists>i\<in>set xs. ns_owned pid (?t ! i) \<and> P i) = (\<exists>i\<in>set xs. ns_owned pid (t ! i) \<and> P i)" for P
      using x(2) by (metis nth_list_update_neq)
    then have "snd (fold (ns_cleanup_step pid) (x # xs) (t, a)) =
        map (\<lambda>e. if ae_used e \<and> (\<exists>i \<in> set (x # xs). ns_owned pid (t ! i) \<and> ae_ns_id e = of_nat i)
                then agent_clear e else e) a"
      using True by (simp only: fold_simps step ih snd_conv)
        (auto simp: agent_unregister_ns_def release_where_def)
    moreover have "fst (fold (ns_cleanup_step pid) (x # xs) (t, a)) =
        map (\<lambda>j. if j \<in> set (x # xs) \<and> ns_owned pid (t ! j) then ns_clear (t ! j) else t ! j) [0..<length t]"
      using True x by (simp only: fold_simps step ih fst_conv)
        (auto simp: nth_list_update_if intro!: nth_equalityI)
    ultimately show ?thesis by (metis prod.collapse)
  next
    case False
    then have step: "ns_cleanup_step pid x (t, a) = (t, a)"
      by (auto simp: ns_cleanup_step_def ns_owned_def)
    have "\<forall>i \<in> set xs. i < length t" using Cons.prems by simp
    then show ?thesis using False step Cons.IH [OF d] by auto
  qed
qed

section \<open>Quota arithmetic\<close>

lemma zero_sless_iff: "0 <s (v :: u32) \<longleftrightarrow> v \<noteq> 0 \<and> unat v < 2 ^ 31"
proof -
  have "unat v < 2 ^ 31 \<longleftrightarrow> uint v < int (2 ^ 31)"
    by (simp only: unat_eq_nat_uint nat_less_iff [OF uint_ge_0])
  then have u: "unat v < 2 ^ 31 \<longleftrightarrow> uint v < 2 ^ 31" by simp
  show ?thesis
  proof (cases "uint v < 2 ^ 31")
    case True
    have "- (2 ^ 31) \<le> uint v" using order_trans [OF _ uint_ge_0 [of v], of "- (2 ^ 31)"] by simp
    then have "sint v = uint v"
      using True by (simp add: sint_uint signed_take_bit_int_eq_self)
    then have "0 <s v \<longleftrightarrow> 0 < uint v" by (simp add: word_sless_alt)
    also have "\<dots> \<longleftrightarrow> v \<noteq> 0" using uint_ge_0 [of v] by (metis le_less less_irrefl uint_0_iff)
    finally show ?thesis using True u by blast
  next
    case False
    have lt: "uint v < 2 ^ 32" using uint_bounded [of v] by simp
    have "uint v div 2 ^ 31 = 1" using False lt by simp
    then have "bit (uint v) 31" by (simp add: bit_iff_odd)
    then have "sint v < 0" by (simp add: sint_uint signed_take_bit_negative_iff)
    then show ?thesis using False u by (simp add: word_sless_alt)
  qed
qed

lemma quota_sum_charge:
  assumes "unat cur + unat n < 2 ^ 31"
  shows "quota_sum cur n = cur + n" and "unat (cur + n) = unat cur + unat n"
proof -
  show u: "unat (cur + n) = unat cur + unat n" using assms by (simp add: unat_word_ariths)
  then show "quota_sum cur n = cur + n"
    using assms by (simp add: quota_sum_def Let_def zero_sless_iff)
qed

lemma quota_sum_release:
  assumes "unat cur < 2 ^ 31" and "unat n < 2 ^ 31"
  shows "unat (quota_sum cur (- n)) = unat cur - unat n"
proof (cases "n \<le> cur")
  case True
  have "unat (cur + - n) = unat cur - unat n" using True by (simp add: unat_sub)
  moreover have "unat cur - unat n < 2 ^ 31" using assms(1) by linarith
  ultimately show ?thesis by (simp add: quota_sum_def Let_def zero_sless_iff)
next
  case False
  then have lt: "unat cur < unat n" by (simp add: word_le_nat_alt)
  have "unat (cur + - n) = 2 ^ 32 + unat cur - unat n"
    using lt by (simp add: unat_sub_if_size word_le_nat_alt word_size)
  then have "\<not> unat (cur + - n) < 2 ^ 31" using assms lt by simp
  then show ?thesis using lt by (simp add: quota_sum_def Let_def zero_sless_iff)
qed

section \<open>Charging and releasing\<close>

text \<open>
  How the kernel uses a quota: a charge asks \<^verbatim>\<open>agent_ns_quota_check\<close> and, if it is allowed, adds the
  amount; a release subtracts it.
\<close>

datatype quota_op = Charge u32 | Release u32

fun quota_exec :: "nat \<Rightarrow> quota_op \<Rightarrow> agent_namespace list \<Rightarrow> agent_namespace list" where
  "quota_exec ns (Charge n) t =
     (if agent_ns_quota_check ns NS_QUOTA_PROCS n t then agent_ns_quota_adjust ns NS_QUOTA_PROCS n t else t)"
| "quota_exec ns (Release n) t = agent_ns_quota_adjust ns NS_QUOTA_PROCS (- n) t"

fun quota_amount :: "quota_op \<Rightarrow> u32" where
  "quota_amount (Charge n) = n"
| "quota_amount (Release n) = n"

definition quota_ok :: "nat \<Rightarrow> u32 \<Rightarrow> agent_namespace list \<Rightarrow> bool" where
  "quota_ok ns m t \<longleftrightarrow> 0 < ns \<and> ns < MAX_NAMESPACES \<and> length t = MAX_NAMESPACES \<and> an_used (t ! ns) \<and>
     an_max_procs (t ! ns) = m \<and> m \<noteq> 0 \<and> unat m < 2 ^ 31 \<and> unat (an_cur_procs (t ! ns)) \<le> unat m"

lemma quota_exec_step:
  assumes ok: "quota_ok ns m t" and n: "unat (quota_amount op) < 2 ^ 31"
  shows "quota_ok ns m (quota_exec ns op t) \<and>
    unat (an_cur_procs (quota_exec ns op t ! ns)) =
      (case op of
         Charge n \<Rightarrow> if unat (an_cur_procs (t ! ns)) + unat n \<le> unat m
                     then unat (an_cur_procs (t ! ns)) + unat n else unat (an_cur_procs (t ! ns))
       | Release n \<Rightarrow> unat (an_cur_procs (t ! ns)) - unat n)"
proof -
  let ?cur = "an_cur_procs (t ! ns)"
  have b: "0 < ns" "ns < MAX_NAMESPACES" "length t = MAX_NAMESPACES" "an_used (t ! ns)"
    "an_max_procs (t ! ns) = m" "m \<noteq> 0" "unat m < 2 ^ 31" "unat ?cur \<le> unat m"
    using ok by (auto simp: quota_ok_def)
  have adj: "agent_ns_quota_adjust ns NS_QUOTA_PROCS d t = t[ns := (t ! ns)\<lparr>an_cur_procs := quota_sum ?cur d\<rparr>]" for d
    using b by (simp add: agent_ns_quota_adjust_def)
  show ?thesis
  proof (cases op)
    case (Charge k)
    have "unat (?cur + k) = unat ?cur + unat k" using n b Charge by (simp add: unat_word_ariths)
    then have chk: "agent_ns_quota_check ns NS_QUOTA_PROCS k t \<longleftrightarrow> unat ?cur + unat k \<le> unat m"
      using b by (simp add: agent_ns_quota_check_def word_le_nat_alt)
    show ?thesis
    proof (cases "unat ?cur + unat k \<le> unat m")
      case True
      have "unat ?cur + unat k < 2 ^ 31" using True b(7) by linarith
      note q = quota_sum_charge [OF this]
      have "quota_exec ns op t = t[ns := (t ! ns)\<lparr>an_cur_procs := ?cur + k\<rparr>]"
        using chk True Charge adj q(1) by simp
      then show ?thesis using b True q(2) Charge by (simp add: quota_ok_def)
    next
      case False
      then have "quota_exec ns op t = t" using chk Charge by simp
      then show ?thesis using ok False Charge by simp
    qed
  next
    case (Release k)
    have "unat ?cur < 2 ^ 31" using b(7,8) by linarith
    then have "unat (quota_sum ?cur (- k)) = unat ?cur - unat k"
      using n Release by (intro quota_sum_release) auto
    moreover have "quota_exec ns op t = t[ns := (t ! ns)\<lparr>an_cur_procs := quota_sum ?cur (- k)\<rparr>]"
      using Release adj by simp
    ultimately show ?thesis using b Release by (simp add: quota_ok_def)
  qed
qed

lemma quota_ok_run:
  "quota_ok ns m t \<Longrightarrow> list_all (\<lambda>op. unat (quota_amount op) < 2 ^ 31) ops \<Longrightarrow>
   quota_ok ns m (fold (quota_exec ns) ops t)"
  by (induction ops arbitrary: t) (use quota_exec_step in auto)

section \<open>Properties\<close>

text \<open>Namespace 1 of process 1, with room for two processes, one of them charged.\<close>

definition demo_ns :: "agent_namespace list" where
  "demo_ns = agent_ns_quota_adjust 1 NS_QUOTA_PROCS 1
     (snd (agent_ns_set_quota 1 NS_QUOTA_PROCS 2 1 1 (snd (agent_ns_create (Some ''a'') 1 ns_boot))))"

text \<open>
  C20: The process quota of a namespace is never exceeded by charges that follow one another:
  however charges (a check and, if it is allowed, the adjustment) and releases alternate, the usage
  stays at or below a limit set below 2^31, a charge is accepted exactly when the true sum fits, and
  usage never drops below zero.
\<close>

theorem quota_never_exceeded:
  assumes "quota_ok ns m t" and "list_all (\<lambda>op. unat (quota_amount op) < 2 ^ 31) ops"
    and "unat n < 2 ^ 31" and "t' = fold (quota_exec ns) ops t"
  shows "an_cur_procs (t' ! ns) \<le> m \<and>
     (agent_ns_quota_check ns NS_QUOTA_PROCS n t' \<longleftrightarrow> unat (an_cur_procs (t' ! ns)) + unat n \<le> unat m) \<and>
     unat (an_cur_procs (quota_exec ns (Release n) t' ! ns)) = unat (an_cur_procs (t' ! ns)) - unat n"
proof -
  have ok: "quota_ok ns m t'" unfolding assms(4) by (rule quota_ok_run [OF assms(1,2)])
  then have "unat (an_cur_procs (t' ! ns) + n) = unat (an_cur_procs (t' ! ns)) + unat n"
    using assms(3) by (simp add: quota_ok_def unat_word_ariths)
  then show ?thesis
    using ok quota_exec_step [OF ok, of "Release n"] assms(3)
    by (auto simp: quota_ok_def agent_ns_quota_check_def word_le_nat_alt)
qed

theorem quota_never_exceeded_witness:
  "an_cur_procs (fold (quota_exec 1) [Charge 1, Charge 1, Release 1] demo_ns ! 1) \<le> 2"
proof -
  have f: "length demo_ns = MAX_NAMESPACES" "an_used (demo_ns ! 1)" "an_max_procs (demo_ns ! 1) = 2"
    "an_cur_procs (demo_ns ! 1) = 1" by code_simp+
  have "quota_ok 1 2 demo_ns" using f by (simp add: quota_ok_def MAX_NAMESPACES_def)
  from quota_never_exceeded [OF this _ _ refl, of "[Charge 1, Charge 1, Release 1]" 1]
  show ?thesis by simp
qed

text \<open>
  The check and the adjustment of a charge are separate critical sections. When two processes
  of the namespace check before either of them adjusts, both are allowed and the usage ends above
  the limit.
\<close>

theorem quota_race_exceeds:
  assumes "quota_ok ns m t" and "unat m < 2 ^ 30" and "agent_ns_quota_check ns NS_QUOTA_PROCS n t"
    and "unat n < 2 ^ 30" and "unat m < unat (an_cur_procs (t ! ns)) + 2 * unat n"
  shows "m < an_cur_procs (agent_ns_quota_adjust ns NS_QUOTA_PROCS n
     (agent_ns_quota_adjust ns NS_QUOTA_PROCS n t) ! ns)"
proof -
  let ?cur = "an_cur_procs (t ! ns)"
  have b: "0 < ns" "ns < MAX_NAMESPACES" "length t = MAX_NAMESPACES" "an_used (t ! ns)" "unat ?cur \<le> unat m"
    using assms(1) by (auto simp: quota_ok_def)
  have s1: "unat ?cur + unat n < 2 ^ 31" using assms(2,4) b(5) by simp
  note q1 = quota_sum_charge [OF s1]
  have "unat (?cur + n) \<le> unat m"
    using assms(1,3) by (auto simp: quota_ok_def agent_ns_quota_check_def word_le_nat_alt)
  then have s2: "unat (?cur + n) + unat n < 2 ^ 31" using assms(2,4) by simp
  note q2 = quota_sum_charge [OF s2]
  have "an_cur_procs (agent_ns_quota_adjust ns NS_QUOTA_PROCS n
     (agent_ns_quota_adjust ns NS_QUOTA_PROCS n t) ! ns) = ?cur + n + n"
    using b q1(1) q2(1) by (simp add: agent_ns_quota_adjust_def)
  then show ?thesis using q1(2) q2(2) assms(5) by (simp add: word_less_nat_alt)
qed

theorem quota_race_exceeds_witness:
  "2 < an_cur_procs (agent_ns_quota_adjust 1 NS_QUOTA_PROCS 1
     (agent_ns_quota_adjust 1 NS_QUOTA_PROCS 1 demo_ns) ! 1)"
proof -
  have f: "length demo_ns = MAX_NAMESPACES" "an_used (demo_ns ! 1)" "an_max_procs (demo_ns ! 1) = 2"
    "an_cur_procs (demo_ns ! 1) = 1" by code_simp+
  have ok: "quota_ok 1 2 demo_ns" using f by (simp add: quota_ok_def MAX_NAMESPACES_def)
  have c: "agent_ns_quota_check 1 NS_QUOTA_PROCS 1 demo_ns" by code_simp
  from quota_race_exceeds [OF ok _ c] show ?thesis using f(4) by simp
qed

text \<open>
  A namespace created in a reused slot starts with the limits and the usage of the namespace
  that had the slot before: creation sets the name and the owner only.
\<close>

theorem ns_create_inherits_quota:
  assumes "ns_inv t" and "agent_ns_create name owner t = (Inr i, t')"
  shows "agent_ns_valid i t' \<and> an_owner_pid (t' ! i) = owner \<and> \<not> an_used (t ! i) \<and>
     an_max_procs (t' ! i) = an_max_procs (t ! i) \<and> an_cur_procs (t' ! i) = an_cur_procs (t ! i) \<and>
     an_max_mem_pages (t' ! i) = an_max_mem_pages (t ! i) \<and>
     an_cur_mem_pages (t' ! i) = an_cur_mem_pages (t ! i)"
  using agent_ns_create_InrD [OF assms(2,1)] assms(1)
  by (simp add: ns_inv_def agent_ns_valid_def)

text \<open>
  In the witness process 1 exits with its namespace limited to two processes and one charged; the
  namespace process 2 creates next may not start two processes.
\<close>

theorem ns_create_inherits_quota_witness:
  "\<exists>t t'. agent_ns_create None 2 t = (Inr 1, t') \<and> an_max_procs (t' ! 1) = 2 \<and>
     an_cur_procs (t' ! 1) = 1 \<and> \<not> agent_ns_quota_check 1 NS_QUOTA_PROCS 2 t'"
proof -
  define t where "t = fst (agent_ns_cleanup_pid 1 (demo_ns, agent_boot))"
  define t' where "t' = snd (agent_ns_create None 2 t)"
  have c: "agent_ns_create None 2 t = (Inr 1, t')" unfolding t'_def t_def by code_simp
  have "list_all (\<lambda>n. length (an_name n) = NS_NAME_MAX) t" "length t = MAX_NAMESPACES"
    unfolding t_def by code_simp+
  then have inv: "ns_inv t" by (simp add: ns_inv_def)
  have o: "an_max_procs (t ! 1) = 2" "an_cur_procs (t ! 1) = 1" unfolding t_def by code_simp+
  have q: "\<not> agent_ns_quota_check 1 NS_QUOTA_PROCS 2 t'" unfolding t'_def t_def by code_simp
  show ?thesis using ns_create_inherits_quota [OF inv c] o c q by metis
qed

text \<open>
  When a process exits, exactly the namespaces it owned disappear, and exactly the agents
  registered in those namespaces are removed with them.
\<close>

theorem ns_cleanup_exact:
  assumes "length t = MAX_NAMESPACES" and "agent_ns_cleanup_pid pid (t, a) = (t', a')"
  shows "(\<forall>i. agent_ns_valid i t' \<longleftrightarrow> agent_ns_valid i t \<and> (i = 0 \<or> an_owner_pid (t ! i) \<noteq> pid)) \<and>
     length a' = length a \<and>
     (\<forall>k < length a. a' ! k =
        (if ae_used (a ! k) \<and> (\<exists>i. 0 < i \<and> agent_ns_valid i t \<and> an_owner_pid (t ! i) = pid \<and>
              ae_ns_id (a ! k) = of_nat i)
         then agent_clear (a ! k) else a ! k))"
proof -
  have "\<forall>i \<in> set [1..<MAX_NAMESPACES]. i < length t" using assms(1) by simp
  from ns_cleanup_fold [OF distinct_upt this, of pid a]
  have t': "t' = map (\<lambda>j. if j \<in> set [1..<MAX_NAMESPACES] \<and> ns_owned pid (t ! j) then ns_clear (t ! j)
        else t ! j) [0..<length t]"
    and a': "a' = map (\<lambda>e. if ae_used e \<and> (\<exists>i \<in> set [1..<MAX_NAMESPACES]. ns_owned pid (t ! i) \<and>
          ae_ns_id e = of_nat i) then agent_clear e else e) a"
    using assms(2) unfolding agent_ns_cleanup_pid_def by simp_all
  have v: "agent_ns_valid i t' \<longleftrightarrow> agent_ns_valid i t \<and> (i = 0 \<or> an_owner_pid (t ! i) \<noteq> pid)" for i
    using assms(1) by (auto simp: agent_ns_valid_def t' ns_owned_def ns_clear_def)
  have q: "(\<exists>i \<in> set [1..<MAX_NAMESPACES]. ns_owned pid (t ! i) \<and> ae_ns_id e = of_nat i) \<longleftrightarrow>
      (\<exists>i. 0 < i \<and> agent_ns_valid i t \<and> an_owner_pid (t ! i) = pid \<and> ae_ns_id e = of_nat i)" for e
    by (auto simp: agent_ns_valid_def ns_owned_def Suc_le_eq split: if_splits)
  have "a' ! k = (if ae_used (a ! k) \<and> (\<exists>i. 0 < i \<and> agent_ns_valid i t \<and> an_owner_pid (t ! i) = pid \<and>
        ae_ns_id (a ! k) = of_nat i) then agent_clear (a ! k) else a ! k)" if "k < length a" for k
    unfolding a' nth_map [OF that] q by (rule refl)
  then show ?thesis using v a' by simp
qed

theorem ns_cleanup_exact_witness:
  "\<exists>t' a'. agent_ns_cleanup_pid 1 (demo_ns, demo_agents) = (t', a') \<and> \<not> agent_ns_valid 1 t' \<and>
     \<not> ae_used (a' ! 0)"
proof -
  obtain t' a' where r: "agent_ns_cleanup_pid 1 (demo_ns, demo_agents) = (t', a')" by fastforce
  have l: "length demo_ns = MAX_NAMESPACES" by code_simp
  have o: "agent_ns_valid 1 demo_ns" "an_owner_pid (demo_ns ! 1) = 1" by code_simp+
  have g: "0 < length demo_agents" "ae_used (demo_agents ! 0)" "ae_ns_id (demo_agents ! 0) = of_nat 1"
    by code_simp+
  note c = ns_cleanup_exact [OF l r]
  have "\<not> agent_ns_valid 1 t'" using c o(2) by simp
  moreover have "a' ! 0 = agent_clear (demo_agents ! 0)"
    using c g o by (metis zero_less_one)
  ultimately show ?thesis using r by (simp add: agent_clear_def)
qed

end
