(* ===== verification/Sys_Mm.thy ===== *)
theory Sys_Mm
  imports Swap_Io Agent_Ns
begin

text \<open>The memory system calls and the page fault handler, src/kernel/src/syscall/sys_mm.c, with the
shared memory table of src/kernel/src/ipc/shm.c. The state is the memory with the swap area and the
block cache, the shared memory table, the namespaces and the part of the calling process that the
calls use; a thread without a process is the value None. Reading a file is a parameter: it gives
the bytes vfs_read returned, none for an error. None as the value of a call stands for an access
outside the tables of the page allocator. The TLB is not modelled.\<close>

section \<open>State\<close>

definition MAX_SHM_REGIONS :: nat where "MAX_SHM_REGIONS = 16"
definition MMAP_MAX_ENTRIES :: nat where "MMAP_MAX_ENTRIES = 64"
definition MMAP_MAX_PAGES :: u64 where "MMAP_MAX_PAGES = 524288"
definition MAP_FIXED :: u64 where "MAP_FIXED = 0x10"
definition MMAP_DEMAND :: u64 where "MMAP_DEMAND = 1"
definition PROT_NONE :: u64 where "PROT_NONE = 0"
definition PROT_WRITE :: u64 where "PROT_WRITE = 2"
definition PROT_EXEC :: u64 where "PROT_EXEC = 4"
definition MAX_FDS :: u64 where "MAX_FDS = 64"
definition USER_STACK_TOP :: u64 where "USER_STACK_TOP = 0x0000800000000000"
definition USER_STACK_SIZE :: u64 where "USER_STACK_SIZE = 64 * 1024"
definition MMAP_REGION_BASE :: u64 where "MMAP_REGION_BASE = 0x0000000100000000"

record shm_region =
  sh_key :: int
  sh_pages :: "u64 list"
  sh_num :: u32
  sh_refs :: u32

definition shm_init :: "shm_region list \<Rightarrow> shm_region list" where
  "shm_init t = map (\<lambda>r. r\<lparr>sh_key := -1\<rparr>) t"

text \<open>An open file as the calls see it: what vfs_node_index gives for its node, and its size.\<close>

record file_node =
  fl_index :: int
  fl_size :: u64

record mproc =
  mp_cr3 :: u64
  mp_mmap :: "mmap_entry list"
  mp_next :: u64
  mp_rlimit :: u64
  mp_used :: u64
  mp_ns :: nat
  mp_fds :: "file_node option list"

record mm =
  m_sw :: swapper
  m_shm :: "shm_region list"
  m_ns :: "agent_namespace list"
  m_proc :: "mproc option"

definition set_vm :: "vm \<Rightarrow> mm \<Rightarrow> mm" where
  "set_vm v s = s\<lparr>m_sw := (m_sw s)\<lparr>sp_vm := v\<rparr>\<rparr>"

abbreviation m_vm :: "mm \<Rightarrow> vm" where
  "m_vm s \<equiv> sp_vm (m_sw s)"

definition free_entry :: "mproc \<Rightarrow> nat option" where
  "free_entry p = find_index (\<lambda>e. \<not> mm_used e) (mp_mmap p)"

definition over_limit :: "mproc \<Rightarrow> u64 \<Rightarrow> bool" where
  "over_limit p n \<longleftrightarrow> 0 < mp_rlimit p \<and> mp_rlimit p < mp_used p + n"

section \<open>Anonymous mappings\<close>

fun mmap_loop :: "u64 \<Rightarrow> u64 \<Rightarrow> nat \<Rightarrow> nat \<Rightarrow> u64 \<Rightarrow> vm \<Rightarrow> (u64 ret \<times> vm) option" where
  "mmap_loop cr3 virt i 0 first s = Some (Inr first, s)"
| "mmap_loop cr3 virt i (Suc n) first s =
     (case pmm_alloc_page (vm_pmm s) of (p, pm) \<Rightarrow>
        if p = 0 then Some (Inl ENOMEM, s\<lparr>vm_pmm := pm\<rparr>)
        else case vmm_map_page_in (s\<lparr>vm_pmm := pm, vm_mem := zero_page (vm_mem s) (addr_page p)\<rparr>)
               cr3 (virt + word_of_nat i * 4096) p MAP_FLAGS of
          (Inr _, s2) \<Rightarrow> mmap_loop cr3 virt (Suc i) n (if i = 0 then p else first) s2
        | (Inl _, s2) \<Rightarrow> map_option (\<lambda>s3. (Inl ENOMEM, s3)) (vm_free_page p s2))"

definition mmap_pages :: "u64 \<Rightarrow> u64 \<Rightarrow> u64" where
  "mmap_pages len flags =
     (if len \<le> MMAP_MAX_PAGES \<and> flags = 0 then len else (len + 4096 - 1) div 4096)"

definition sys_mmap :: "u64 \<Rightarrow> u64 \<Rightarrow> u64 \<Rightarrow> u64 \<Rightarrow> mm \<Rightarrow> (u64 ret \<times> mm) option" where
  "sys_mmap addr_hint len prot flags s =
     (let num_pages = mmap_pages len flags;
          use_fixed = (flags AND MAP_FIXED \<noteq> 0 \<and> addr_hint \<noteq> 0) in
      if len = 0 then Some (Inl EINVAL, s)
      else if num_pages = 0 \<or> MMAP_MAX_PAGES < num_pages then Some (Inl EINVAL, s)
      else case m_proc s of None \<Rightarrow> Some (Inl EGENERIC, s) | Some p \<Rightarrow>
        if flags AND MAP_FIXED \<noteq> 0 \<and> prot = 0 then Some (Inr addr_hint, s)
        else if over_limit p num_pages then Some (Inl ENOMEM, s)
        else case free_entry p of None \<Rightarrow> Some (Inl EGENERIC, s) | Some slot \<Rightarrow>
          let virt = (if use_fixed then addr_hint AND NOT (4096 - 1) else mp_next p) in
          case mmap_loop (mp_cr3 p) virt 0 (unat num_pages) 0 (m_vm s) of
            None \<Rightarrow> None
          | Some (Inl e, v) \<Rightarrow> Some (Inl e, set_vm v s)
          | Some (Inr first, v) \<Rightarrow>
              let e = (mp_mmap p ! slot)\<lparr>mm_virt := virt, mm_phys := first, mm_num_pages := ucast num_pages,
                         mm_used := True, mm_shm_id := -1, mm_vfs_node := -1, mm_file_offset := 0\<rparr>
              in Some (Inr virt, (set_vm v s)\<lparr>m_proc := Some (p\<lparr>mp_mmap := (mp_mmap p)[slot := e],
                     mp_next := (if use_fixed then mp_next p else virt + (num_pages + 1) * 4096),
                     mp_used := mp_used p + num_pages\<rparr>)\<rparr>))"

section \<open>Unmapping\<close>

definition clear_pte :: "u64 \<Rightarrow> u64 \<Rightarrow> vm \<Rightarrow> vm" where
  "clear_pte cr3 va v =
     (case vmm_get_pte (vm_mem v) cr3 va of None \<Rightarrow> v
      | Some (pt, i) \<Rightarrow> if has (vm_mem v pt i) PTE_PRESENT then v\<lparr>vm_mem := put (vm_mem v) pt i 0\<rparr> else v)"

definition unmap_private :: "u64 \<Rightarrow> u64 \<Rightarrow> u64 \<Rightarrow> nat \<Rightarrow> vm \<Rightarrow> vm option" where
  "unmap_private cr3 virt phys j v =
     (let fallback = (if phys \<noteq> 0 then vm_free_page (phys + word_of_nat j * 4096) v else Some v) in
      case vmm_get_pte (vm_mem v) cr3 (virt + word_of_nat j * 4096) of
        None \<Rightarrow> fallback
      | Some (pt, i) \<Rightarrow>
          let pte = vm_mem v pt i in
          if has pte PTE_PRESENT
          then vm_free_page (pte AND PTE_ADDR_MASK) (v\<lparr>vm_mem := put (vm_mem v) pt i 0\<rparr>)
          else fallback)"

definition shm_free_page :: "nat \<Rightarrow> shm_region \<times> vm \<Rightarrow> (shm_region \<times> vm) option" where
  "shm_free_page pi x = (case x of (r, v) \<Rightarrow>
     if sh_pages r ! pi \<noteq> 0
     then map_option (\<lambda>v'. (r\<lparr>sh_pages := (sh_pages r)[pi := 0]\<rparr>, v')) (vm_free_page (sh_pages r ! pi) v)
     else Some (r, v))"

definition shm_drop :: "nat \<Rightarrow> shm_region list \<times> vm \<Rightarrow> (shm_region list \<times> vm) option" where
  "shm_drop sid x = (case x of (t, v) \<Rightarrow>
     if sid < MAX_SHM_REGIONS \<and> 0 < sh_refs (t ! sid) then
       let r = (t ! sid)\<lparr>sh_refs := sh_refs (t ! sid) - 1\<rparr> in
       if sh_refs r = 0 then
         map_option (\<lambda>(r', v'). (t[sid := r'\<lparr>sh_key := -1, sh_num := 0\<rparr>], v'))
           (fold_opt shm_free_page [0..<unat (sh_num r)] (r, v))
       else Some (t[sid := r], v)
     else Some (t, v))"

definition drop_entry :: "nat \<Rightarrow> mproc \<Rightarrow> mproc" where
  "drop_entry i p = p\<lparr>mp_mmap := (mp_mmap p)[i := (mp_mmap p ! i)\<lparr>mm_used := False, mm_shm_id := -1\<rparr>]\<rparr>"

definition sys_munmap :: "u64 \<Rightarrow> mm \<Rightarrow> (unit ret \<times> mm) option" where
  "sys_munmap virt s =
     (case m_proc s of None \<Rightarrow> Some (Inl EGENERIC, s) | Some p \<Rightarrow>
      case find_index (\<lambda>e. mm_used e \<and> mm_virt e = virt) (mp_mmap p) of
        None \<Rightarrow> Some (Inl EGENERIC, s)
      | Some i \<Rightarrow>
          let e = mp_mmap p ! i; npages = mm_num_pages e;
              p' = drop_entry i p;
              p'' = (if ucast npages \<le> mp_used p then p'\<lparr>mp_used := mp_used p - ucast npages\<rparr> else p') in
          if 0 \<le> mm_shm_id e then
            let v = fold (\<lambda>j. clear_pte (mp_cr3 p) (virt + word_of_nat j * 4096)) [0..<unat npages] (m_vm s) in
            map_option (\<lambda>(t, v'). (Inr (), (set_vm v' s)\<lparr>m_shm := t, m_proc := Some p''\<rparr>))
              (shm_drop (nat (mm_shm_id e)) (m_shm s, v))
          else
            map_option (\<lambda>v'. (Inr (), (set_vm v' s)\<lparr>m_proc := Some p''\<rparr>))
              (fold_opt (unmap_private (mp_cr3 p) virt (mm_phys e)) [0..<unat npages] (m_vm s)))"

section \<open>Shared memory\<close>

text \<open>sys_shmget reserves a slot under the lock of the table and allocates its pages after releasing it.\<close>

definition shmget_reserve :: "int \<Rightarrow> u64 \<Rightarrow> shm_region list \<Rightarrow> (bool \<times> nat) ret \<times> shm_region list" where
  "shmget_reserve key num_pages t =
     (case find_index (\<lambda>r. sh_key r = key) t of
        Some i \<Rightarrow> (Inr (True, i), t)
      | None \<Rightarrow>
          case find_index (\<lambda>r. sh_key r = -1) t of
            None \<Rightarrow> (Inl EGENERIC, t)
          | Some slot \<Rightarrow> (Inr (False, slot),
              t[slot := (t ! slot)\<lparr>sh_key := key, sh_num := ucast num_pages, sh_refs := 0\<rparr>]))"

fun shmget_fill :: "nat \<Rightarrow> nat \<Rightarrow> nat \<Rightarrow> mm \<Rightarrow> (nat ret \<times> mm) option" where
  "shmget_fill slot i 0 s = Some (Inr slot, s)"
| "shmget_fill slot i (Suc n) s =
     (case pmm_alloc_page (vm_pmm (m_vm s)) of (pg, pm) \<Rightarrow>
        if pg = 0 then
          map_option (\<lambda>v. (Inl EGENERIC, (set_vm v s)\<lparr>m_shm := (m_shm s)[slot := (m_shm s ! slot)\<lparr>sh_key := -1\<rparr>]\<rparr>))
            (fold_opt (\<lambda>j. vm_free_page (sh_pages (m_shm s ! slot) ! j)) [0..<i] ((m_vm s)\<lparr>vm_pmm := pm\<rparr>))
        else
          let v = (m_vm s)\<lparr>vm_pmm := pm, vm_mem := zero_page (vm_mem (m_vm s)) (addr_page pg)\<rparr>;
              r = m_shm s ! slot
          in shmget_fill slot (Suc i) n
               ((set_vm v s)\<lparr>m_shm := (m_shm s)[slot := r\<lparr>sh_pages := (sh_pages r)[i := pg]\<rparr>]\<rparr>))"

definition sys_shmget :: "u64 \<Rightarrow> u64 \<Rightarrow> mm \<Rightarrow> (nat ret \<times> mm) option" where
  "sys_shmget key num_pages s =
     (if num_pages = 0 \<or> 16 < num_pages then Some (Inl EGENERIC, s)
      else case shmget_reserve (sint (ucast key :: u32)) num_pages (m_shm s) of
        (Inl e, t) \<Rightarrow> Some (Inl e, s\<lparr>m_shm := t\<rparr>)
      | (Inr (True, i), t) \<Rightarrow> Some (Inr i, s\<lparr>m_shm := t\<rparr>)
      | (Inr (False, slot), t) \<Rightarrow> shmget_fill slot 0 (unat num_pages) (s\<lparr>m_shm := t\<rparr>))"

fun shmat_loop :: "u64 \<Rightarrow> u64 \<Rightarrow> nat \<Rightarrow> u64 list \<Rightarrow> vm \<Rightarrow> bool \<times> vm" where
  "shmat_loop cr3 virt i [] v = (True, v)"
| "shmat_loop cr3 virt i (p # ps) v =
     (case vmm_map_page_in v cr3 (virt + word_of_nat i * 4096) p MAP_FLAGS of
        (Inl _, v') \<Rightarrow> (False, v')
      | (Inr _, v') \<Rightarrow> shmat_loop cr3 virt (Suc i) ps (v'\<lparr>vm_pmm := pmm_ref_inc (vm_pmm v') p\<rparr>))"

text \<open>The value 0 is the failure of sys_shmat. The pages of the region are copied under the lock, the
reference is counted in a second critical section after mapping them.\<close>

definition sys_shmat :: "u64 \<Rightarrow> mm \<Rightarrow> u64 \<times> mm" where
  "sys_shmat shmid s =
     (if word_of_nat MAX_SHM_REGIONS \<le> shmid \<or> sh_key (m_shm s ! unat shmid) = -1 then (0, s)
      else let r = m_shm s ! unat shmid; npages = sh_num r; pages = take (unat npages) (sh_pages r) in
        case m_proc s of None \<Rightarrow> (0, s) | Some p \<Rightarrow>
        case free_entry p of None \<Rightarrow> (0, s) | Some slot \<Rightarrow>
          let virt = mp_next p in
          case shmat_loop (mp_cr3 p) virt 0 pages (m_vm s) of
            (False, v) \<Rightarrow> (0, set_vm v s)
          | (True, v) \<Rightarrow>
              let e = (mp_mmap p ! slot)\<lparr>mm_virt := virt, mm_phys := sh_pages r ! 0, mm_num_pages := npages,
                         mm_used := True, mm_shm_id := int (unat shmid), mm_vfs_node := -1, mm_file_offset := 0\<rparr>
              in (virt, (set_vm v s)\<lparr>
                    m_shm := (m_shm s)[unat shmid := r\<lparr>sh_refs := sh_refs r + 1\<rparr>],
                    m_proc := Some (p\<lparr>mp_mmap := (mp_mmap p)[slot := e],
                                      mp_next := virt + ucast (npages + 1) * 4096\<rparr>)\<rparr>))"

definition unmap_shared :: "u64 \<Rightarrow> u64 \<Rightarrow> nat \<Rightarrow> vm \<Rightarrow> vm option" where
  "unmap_shared cr3 virt j v =
     (case vmm_get_pte (vm_mem v) cr3 (virt + word_of_nat j * 4096) of
        None \<Rightarrow> Some v
      | Some (pt, i) \<Rightarrow>
          let pte = vm_mem v pt i in
          if has pte PTE_PRESENT
          then vm_free_page (pte AND PTE_ADDR_MASK) (v\<lparr>vm_mem := put (vm_mem v) pt i 0\<rparr>)
          else Some v)"

definition sys_shmdt :: "u64 \<Rightarrow> mm \<Rightarrow> (unit ret \<times> mm) option" where
  "sys_shmdt virt s =
     (case m_proc s of None \<Rightarrow> Some (Inl EGENERIC, s) | Some p \<Rightarrow>
      case find_index (\<lambda>e. mm_used e \<and> mm_virt e = virt \<and> 0 \<le> mm_shm_id e) (mp_mmap p) of
        None \<Rightarrow> Some (Inl EGENERIC, s)
      | Some i \<Rightarrow>
          let e = mp_mmap p ! i in
          case shm_drop (nat (mm_shm_id e)) (m_shm s, m_vm s) of
            None \<Rightarrow> None
          | Some (t, v) \<Rightarrow>
              map_option (\<lambda>v'. (Inr (), (set_vm v' s)\<lparr>m_shm := t, m_proc := Some (drop_entry i p)\<rparr>))
                (fold_opt (unmap_shared (mp_cr3 p) virt) [0..<unat (mm_num_pages e)] v))"

section \<open>Demand mappings\<close>

definition lazy_entry :: "u64 \<Rightarrow> u64 \<Rightarrow> int \<Rightarrow> u64 \<Rightarrow> mmap_entry \<Rightarrow> mmap_entry" where
  "lazy_entry virt num_pages node off e =
     e\<lparr>mm_virt := virt, mm_phys := 0, mm_num_pages := ucast num_pages, mm_used := True, mm_shm_id := -1,
       mm_demand := True, mm_vfs_node := node, mm_file_offset := off\<rparr>"

definition eager_entry :: "u64 \<Rightarrow> u64 \<Rightarrow> u64 \<Rightarrow> mmap_entry \<Rightarrow> mmap_entry" where
  "eager_entry virt phys num_pages e =
     e\<lparr>mm_virt := virt, mm_phys := phys, mm_num_pages := ucast num_pages, mm_used := True, mm_shm_id := -1,
       mm_demand := False, mm_vfs_node := -1, mm_file_offset := 0\<rparr>"

text \<open>The mapping loop of sys_mmap2 and sys_mmap_guard over a contiguous run of frames.\<close>

fun map_run :: "u64 \<Rightarrow> u64 \<Rightarrow> u64 \<Rightarrow> nat \<Rightarrow> nat \<Rightarrow> vm \<Rightarrow> bool \<times> vm" where
  "map_run cr3 virt phys i 0 v = (True, v)"
| "map_run cr3 virt phys i (Suc n) v =
     (let pp = phys + word_of_nat i * 4096 in
      case vmm_map_page_in (v\<lparr>vm_mem := zero_page (vm_mem v) (addr_page pp)\<rparr>)
             cr3 (virt + word_of_nat i * 4096) pp MAP_FLAGS of
        (Inl _, v') \<Rightarrow> (False, v')
      | (Inr _, v') \<Rightarrow> map_run cr3 virt phys (Suc i) n v')"

definition sys_mmap2 :: "u64 \<Rightarrow> u64 \<Rightarrow> mm \<Rightarrow> u64 ret \<times> mm" where
  "sys_mmap2 num_pages mmap_flags s =
     (if num_pages = 0 \<or> MMAP_MAX_PAGES < num_pages then (Inl EINVAL, s)
      else case m_proc s of None \<Rightarrow> (Inl EGENERIC, s) | Some p \<Rightarrow>
        if over_limit p num_pages then (Inl ENOMEM, s)
        else if \<not> agent_ns_quota_check (mp_ns p) NS_QUOTA_MEM_PAGES (ucast num_pages) (m_ns s) then (Inl ENOMEM, s)
        else case free_entry p of None \<Rightarrow> (Inl ENOMEM, s) | Some slot \<Rightarrow>
          let virt = mp_next p;
              enter = (\<lambda>f. p\<lparr>mp_mmap := (mp_mmap p)[slot := f (mp_mmap p ! slot)],
                             mp_next := virt + (num_pages + 1) * 4096, mp_used := mp_used p + num_pages\<rparr>) in
          if mmap_flags AND MMAP_DEMAND \<noteq> 0 then
            (Inr virt, s\<lparr>m_proc := Some (enter (lazy_entry virt num_pages (-1) 0))\<rparr>)
          else case pmm_alloc_contiguous (vm_pmm (m_vm s)) (unat num_pages) of (phys, pm) \<Rightarrow>
            if phys = 0 then (Inl ENOMEM, set_vm ((m_vm s)\<lparr>vm_pmm := pm\<rparr>) s)
            else case map_run (mp_cr3 p) virt phys 0 (unat num_pages) ((m_vm s)\<lparr>vm_pmm := pm\<rparr>) of
              (False, v) \<Rightarrow> (Inl ENOMEM, set_vm v s)
            | (True, v) \<Rightarrow>
                (Inr virt, (set_vm v s)\<lparr>m_proc := Some (enter (eager_entry virt phys num_pages))\<rparr>))"

definition sys_mmap_file :: "u64 \<Rightarrow> u64 \<Rightarrow> u64 \<Rightarrow> mm \<Rightarrow> u64 ret \<times> mm" where
  "sys_mmap_file fd offset num_pages s =
     (if MAX_FDS \<le> fd \<or> num_pages = 0 \<or> MMAP_MAX_PAGES < num_pages then (Inl EGENERIC, s)
      else case m_proc s of None \<Rightarrow> (Inl EGENERIC, s) | Some p \<Rightarrow>
      case mp_fds p ! unat fd of None \<Rightarrow> (Inl EGENERIC, s) | Some node \<Rightarrow>
        if fl_index node < 0 then (Inl EGENERIC, s)
        else case free_entry p of None \<Rightarrow> (Inl ENOMEM, s) | Some slot \<Rightarrow>
          let virt = mp_next p in
          (Inr virt, s\<lparr>m_proc := Some (p\<lparr>
             mp_mmap := (mp_mmap p)[slot := lazy_entry virt num_pages (fl_index node) offset (mp_mmap p ! slot)],
             mp_next := virt + (num_pages + 1) * 4096\<rparr>)\<rparr>))"

definition sys_mmap_guard :: "u64 \<Rightarrow> mm \<Rightarrow> (u64 ret \<times> mm) option" where
  "sys_mmap_guard num_pages s =
     (if num_pages = 0 \<or> MMAP_MAX_PAGES < num_pages then Some (Inl EINVAL, s)
      else case m_proc s of None \<Rightarrow> Some (Inl EINVAL, s) | Some p \<Rightarrow>
        if over_limit p num_pages then Some (Inl ENOMEM, s)
        else case free_entry p of None \<Rightarrow> Some (Inl ENOMEM, s) | Some slot \<Rightarrow>
        case pmm_alloc_contiguous (vm_pmm (m_vm s)) (unat num_pages) of (phys, pm) \<Rightarrow>
          if phys = 0 then Some (Inl ENOMEM, set_vm ((m_vm s)\<lparr>vm_pmm := pm\<rparr>) s)
          else let virt = mp_next p in
          case map_run (mp_cr3 p) virt phys 0 (unat num_pages) ((m_vm s)\<lparr>vm_pmm := pm\<rparr>) of
            (False, v) \<Rightarrow>
              map_option (\<lambda>v'. (Inl ENOMEM, set_vm v' s))
                (fold_opt (\<lambda>k. vm_free_page (phys + word_of_nat k * 4096)) [0..<unat num_pages] v)
          | (True, v) \<Rightarrow>
              Some (Inr virt, (set_vm v s)\<lparr>m_proc := Some (p\<lparr>
                 mp_mmap := (mp_mmap p)[slot := eager_entry virt phys num_pages (mp_mmap p ! slot)],
                 mp_next := virt + (num_pages + 1) * 4096, mp_used := mp_used p + num_pages\<rparr>)\<rparr>))"

section \<open>Files\<close>

definition le_word :: "u8 list \<Rightarrow> u64" where
  "le_word bs = foldr (\<lambda>b w. ucast b OR push_bit 8 w) bs 0"

text \<open>The words of page b of a buffer that received the given bytes and was zeroed after them.\<close>

definition file_page :: "u8 list \<Rightarrow> nat \<Rightarrow> page" where
  "file_page bs b = (\<lambda>i. le_word (take 8 (drop (8 * (512 * b + i)) bs)))"

definition load_batch :: "u8 list \<Rightarrow> u64 \<Rightarrow> nat \<Rightarrow> vm \<Rightarrow> vm" where
  "load_batch bs phys batch v =
     fold (\<lambda>b v. v\<lparr>vm_mem := load_page (vm_mem v) (addr_page (phys + word_of_nat b * 4096)) (file_page bs b)\<rparr>)
       [0..<batch] v"

fun map_batch :: "u64 \<Rightarrow> u64 \<Rightarrow> u64 \<Rightarrow> nat \<Rightarrow> nat \<Rightarrow> vm \<Rightarrow> nat option \<times> vm" where
  "map_batch cr3 virt phys b 0 v = (None, v)"
| "map_batch cr3 virt phys b (Suc n) v =
     (case vmm_map_page_in v cr3 (virt + word_of_nat b * 4096) (phys + word_of_nat b * 4096) MAP_FLAGS of
        (Inl _, v') \<Rightarrow> (Some b, v')
      | (Inr _, v') \<Rightarrow> map_batch cr3 virt phys (Suc b) n v')"

definition fmmap_batch :: "nat \<Rightarrow> vm \<Rightarrow> (u64 \<times> nat) option \<times> vm" where
  "fmmap_batch remain v =
     (let batch = (if 64 < remain then 64 else remain) in
      case pmm_alloc_contiguous (vm_pmm v) batch of (phys, pm) \<Rightarrow>
        if phys \<noteq> 0 then (Some (phys, batch), v\<lparr>vm_pmm := pm\<rparr>)
        else case pmm_alloc_page pm of (phys', pm') \<Rightarrow>
          if phys' = 0 then (None, v\<lparr>vm_pmm := pm'\<rparr>) else (Some (phys', 1), v\<lparr>vm_pmm := pm'\<rparr>))"

lemma fmmap_batch_pos: "fmmap_batch n v = (Some (phys, b), v') \<Longrightarrow> 0 < n \<Longrightarrow> 0 < b"
  by (auto simp: fmmap_batch_def Let_def split: prod.splits if_splits)

type_synonym vfs_reader = "int \<Rightarrow> u64 \<Rightarrow> u64 \<Rightarrow> u8 list"

text \<open>The loop of sys_fmmap from page i on; the first component is the number of pages already mapped
when it failed.\<close>

function fmmap_loop ::
  "vfs_reader \<Rightarrow> u64 \<Rightarrow> u64 \<Rightarrow> int \<Rightarrow> u64 \<Rightarrow> nat \<Rightarrow> nat \<Rightarrow> vm \<Rightarrow> (nat option \<times> vm) option" where
  "fmmap_loop rd cr3 virt node fsize num i v =
     (if num \<le> i then Some (None, v)
      else case fmmap_batch (num - i) v of
        (None, v1) \<Rightarrow> Some (Some i, v1)
      | (Some (phys, batch), v1) \<Rightarrow>
          let offset = word_of_nat i * 4096; avail = fsize - offset; want = word_of_nat batch * 4096;
              read_len = (if avail < want then avail else want);
              v2 = load_batch (rd node offset read_len) phys batch v1 in
          (case map_batch cr3 (virt + word_of_nat i * 4096) phys 0 batch v2 of
            (Some b, v3) \<Rightarrow>
              map_option (\<lambda>v4. (Some i, v4))
                (fold_opt (\<lambda>f. vm_free_page (phys + word_of_nat f * 4096)) [b..<batch] v3)
          | (None, v3) \<Rightarrow> fmmap_loop rd cr3 virt node fsize num (i + batch) v3))"
  by auto
termination
  by (relation "measure (\<lambda>(_, _, _, _, _, num, i, _). num - i)") (auto dest!: fmmap_batch_pos [OF sym])

definition sys_fmmap :: "vfs_reader \<Rightarrow> u64 \<Rightarrow> mm \<Rightarrow> (u64 ret \<times> mm) option" where
  "sys_fmmap rd fd s =
     (if MAX_FDS \<le> fd then Some (Inl EGENERIC, s)
      else case m_proc s of None \<Rightarrow> Some (Inl EGENERIC, s) | Some p \<Rightarrow>
      case mp_fds p ! unat fd of None \<Rightarrow> Some (Inl EGENERIC, s) | Some node \<Rightarrow>
        let fsize = fl_size node; num_pages = (fsize + 4096 - 1) div 4096 in
        if fsize = 0 then Some (Inl EGENERIC, s)
        else if MMAP_MAX_PAGES < num_pages then Some (Inl EGENERIC, s)
        else case free_entry p of None \<Rightarrow> Some (Inl EGENERIC, s) | Some slot \<Rightarrow>
          if fl_index node < 0 then Some (Inl EGENERIC, s)
          else let virt = mp_next p in
          case fmmap_loop rd (mp_cr3 p) virt (fl_index node) fsize (unat num_pages) 0 (m_vm s) of
            None \<Rightarrow> None
          | Some (Some i, v) \<Rightarrow>
              map_option (\<lambda>v'. (Inl EGENERIC, set_vm v' s))
                (fold_opt (unmap_shared (mp_cr3 p) virt) [0..<i] v)
          | Some (None, v) \<Rightarrow>
              let e = (mp_mmap p ! slot)\<lparr>mm_virt := virt, mm_phys := 0, mm_num_pages := ucast num_pages,
                         mm_used := True, mm_shm_id := -1, mm_vfs_node := -1, mm_file_offset := 0\<rparr>
              in Some (Inr virt, (set_vm v s)\<lparr>m_proc := Some (p\<lparr>mp_mmap := (mp_mmap p)[slot := e],
                     mp_next := virt + (num_pages + 1) * 4096\<rparr>)\<rparr>))"

section \<open>Protection\<close>

definition prot_flags :: "u64 \<Rightarrow> u64" where
  "prot_flags prot =
     (if prot = PROT_NONE then PTE_USER
      else (PTE_PRESENT OR PTE_USER)
        OR (if prot AND PROT_WRITE \<noteq> 0 then PTE_WRITABLE else 0)
        OR (if prot AND PROT_EXEC = 0 then PTE_NX else 0))"

definition protect_pte :: "u64 \<Rightarrow> u64 \<Rightarrow> u64" where
  "protect_pte new_flags old =
     (let phys = old AND PTE_ADDR_MASK; cow = old AND PTE_COW; f = new_flags OR cow;
          f' = (if cow = 0 then f
                else if f AND PTE_WRITABLE \<noteq> 0 then (f AND NOT PTE_WRITABLE) OR PTE_WAS_WRITABLE
                else f AND NOT PTE_WAS_WRITABLE)
      in phys OR f')"

definition protect_page :: "u64 \<Rightarrow> u64 \<Rightarrow> u64 \<Rightarrow> vm \<Rightarrow> vm" where
  "protect_page cr3 new_flags va v =
     (case vmm_get_pte (vm_mem v) cr3 va of None \<Rightarrow> v
      | Some (pt, i) \<Rightarrow>
          let old = vm_mem v pt i in
          if \<not> has old PTE_PRESENT \<and> \<not> has old PTE_SWAP then v
          else v\<lparr>vm_mem := put (vm_mem v) pt i (protect_pte new_flags old)\<rparr>)"

definition entry_end :: "mmap_entry \<Rightarrow> u64" where
  "entry_end e = mm_virt e + ucast (mm_num_pages e) * 4096"

definition sys_mprotect :: "u64 \<Rightarrow> u64 \<Rightarrow> u64 \<Rightarrow> mm \<Rightarrow> unit ret \<times> mm" where
  "sys_mprotect virt len prot s =
     (case m_proc s of None \<Rightarrow> (Inl EINVAL, s) | Some p \<Rightarrow>
        if virt AND 0xFFF \<noteq> 0 then (Inl EINVAL, s)
        else if len = 0 then (Inl EINVAL, s)
        else let num_pages = (len + 4096 - 1) div 4096; range_end = virt + num_pages * 4096 in
        if \<not> list_ex (\<lambda>e. mm_used e \<and> mm_virt e \<le> virt \<and> range_end \<le> entry_end e) (mp_mmap p)
        then (Inl EINVAL, s)
        else (Inr (), set_vm (fold (\<lambda>pg. protect_page (mp_cr3 p) (prot_flags prot) (virt + word_of_nat pg * 4096))
                               [0..<unat num_pages] (m_vm s)) s))"

section \<open>Page faults\<close>

datatype kill_reason = StackOverflow | GuardPageHit | BadAccess
datatype fault_result = NotHandled | Resolved | Killed kill_reason

definition fault_kill :: "u64 \<Rightarrow> mproc \<Rightarrow> kill_reason" where
  "fault_kill fault_addr p =
     (let stack_bottom = USER_STACK_TOP - USER_STACK_SIZE; guard_start = stack_bottom - 4096 in
      if guard_start \<le> fault_addr \<and> fault_addr < stack_bottom then StackOverflow
      else if list_ex (\<lambda>e. mm_used e \<and> entry_end e \<le> fault_addr \<and> fault_addr < entry_end e + 4096) (mp_mmap p)
      then GuardPageHit else BadAccess)"

text \<open>A write to a present copy-on-write page; the flag is false if the process must be killed.\<close>

definition cow_fault :: "nat \<Rightarrow> nat \<Rightarrow> vm \<Rightarrow> bool \<times> vm" where
  "cow_fault pt i v =
     (let pte = vm_mem v pt i;
          old_phys = pte AND PTE_ADDR_MASK;
          clean_flags = (pte AND NOT PTE_ADDR_MASK) AND NOT (PTE_COW OR PTE_WAS_WRITABLE) in
      if \<not> has pte PTE_WAS_WRITABLE then (False, v)
      else if pmm_ref_get (vm_pmm v) old_phys = 1 then
        (True, v\<lparr>vm_mem := put (vm_mem v) pt i (old_phys OR PTE_MAKE_WRITABLE clean_flags OR PTE_PRESENT)\<rparr>)
      else case pmm_alloc_page (vm_pmm v) of (new_phys, pm) \<Rightarrow>
        if new_phys = 0 then (False, v\<lparr>vm_pmm := pm\<rparr>)
        else let mem1 = load_page (vm_mem v) (addr_page new_phys) (vm_mem v (addr_page old_phys)) in
          (True, v\<lparr>vm_mem := put mem1 pt i (new_phys OR PTE_MAKE_WRITABLE clean_flags OR PTE_PRESENT),
                   vm_pmm := snd (pmm_ref_dec pm old_phys)\<rparr>))"

text \<open>The scan over the demand mappings; the flag says whether the fault was resolved.\<close>

fun fault_scan :: "vfs_reader \<Rightarrow> u64 \<Rightarrow> u64 \<Rightarrow> mmap_entry list \<Rightarrow> vm \<Rightarrow> (bool \<times> vm) option" where
  "fault_scan rd cr3 pa [] v = Some (False, v)"
| "fault_scan rd cr3 pa (e # es) v =
     (if \<not> mm_used e \<or> \<not> mm_demand e then fault_scan rd cr3 pa es v
      else if mm_virt e \<le> pa \<and> pa < entry_end e then
        (if 0 \<le> mm_vfs_node e then
           (case pmm_alloc_page (vm_pmm v) of (new_phys, pm) \<Rightarrow>
              if new_phys = 0 then Some (False, v\<lparr>vm_pmm := pm\<rparr>)
              else let bs = rd (mm_vfs_node e) (mm_file_offset e + (pa - mm_virt e)) 4096;
                       v1 = v\<lparr>vm_pmm := pm,
                              vm_mem := load_page (vm_mem v) (addr_page new_phys) (file_page bs 0)\<rparr> in
                case vmm_map_page_in v1 cr3 pa new_phys (PTE_USER OR PTE_NX) of
                  (Inr _, v2) \<Rightarrow> Some (True, v2)
                | (Inl _, v2) \<Rightarrow>
                    (case vm_free_page new_phys v2 of None \<Rightarrow> None | Some v3 \<Rightarrow> fault_scan rd cr3 pa es v3))
         else (case demand_page_fault cr3 pa v of
                 (Inr _, v1) \<Rightarrow> Some (True, v1)
               | (Inl _, v1) \<Rightarrow> fault_scan rd cr3 pa es v1))
      else fault_scan rd cr3 pa es v)"

definition fault_absent :: "vfs_reader \<Rightarrow> u64 \<Rightarrow> mproc \<Rightarrow> mm \<Rightarrow> (bool \<times> mm) option" where
  "fault_absent rd fault_addr p s =
     (let swapped = (case vmm_get_pte (vm_mem (m_vm s)) (mp_cr3 p) fault_addr of
                       None \<Rightarrow> False | Some (pt, i) \<Rightarrow> swap_is_entry (vm_mem (m_vm s) pt i)) in
      case (if swapped then swap_in (mp_cr3 p) fault_addr (m_sw s) else Some (Inl EGENERIC, m_sw s)) of
        None \<Rightarrow> None
      | Some (Inr _, w) \<Rightarrow> Some (True, s\<lparr>m_sw := w\<rparr>)
      | Some (Inl _, w) \<Rightarrow>
          map_option (\<lambda>(ok, v). (ok, set_vm v (s\<lparr>m_sw := w\<rparr>)))
            (fault_scan rd (mp_cr3 p) (page_base fault_addr) (mp_mmap p) (sp_vm w)))"

definition page_fault_handler :: "vfs_reader \<Rightarrow> u64 \<Rightarrow> u64 \<Rightarrow> mm \<Rightarrow> (fault_result \<times> mm) option" where
  "page_fault_handler rd fault_addr err_code s =
     (case m_proc s of None \<Rightarrow> Some (NotHandled, s) | Some p \<Rightarrow>
        let present = (err_code AND 1 \<noteq> 0); write = (err_code AND 2 \<noteq> 0); user = (err_code AND 4 \<noteq> 0);
            finish = (\<lambda>(ok, s'). (if ok then Resolved else Killed (fault_kill fault_addr p), s')) in
        if \<not> user then Some (NotHandled, s)
        else if present then
          (case vmm_get_pte (vm_mem (m_vm s)) (mp_cr3 p) fault_addr of
             Some (pt, i) \<Rightarrow>
               if write \<and> has (vm_mem (m_vm s) pt i) PTE_COW
               then (case cow_fault pt i (m_vm s) of (ok, v) \<Rightarrow> Some (finish (ok, set_vm v s)))
               else Some (finish (False, s))
           | None \<Rightarrow> Some (finish (False, s)))
        else map_option finish (fault_absent rd fault_addr p s))"

end
