(* ===== verification/Sys_Mm_Map.thy ===== *)
theory Sys_Mm_Map
  imports Sys_Mm
begin

text \<open>What the mapping calls of theory Sys_Mm do to the page tables: the pages a mapping gets, that
nothing else changes, and how the regions of a process lie in its address space.\<close>

section \<open>The allocation loop of sys_mmap\<close>

definition fresh_pages :: "nat set \<Rightarrow> nat \<Rightarrow> nat \<Rightarrow> nat list \<Rightarrow> vm \<Rightarrow> vm \<Rightarrow> bool" where
  "fresh_pages R r v fs s s' \<longleftrightarrow>
     distinct fs \<and> set fs \<subseteq> free_set (vm_pmm s) \<and> grows R s s'
     \<and> (\<forall>f\<in>set fs. f \<notin> free_set (vm_pmm s') \<and> f \<notin> tables R s' \<and> pm_refs (vm_pmm s') ! f = 1
          \<and> (\<forall>j<512. vm_mem s' f j = 0))
     \<and> (\<forall>r'\<in>R. \<forall>va. canon va \<longrightarrow> pte_at (vm_mem s') r' va =
          (if r' = r \<and> v \<le> vpn va \<and> vpn va < v + length fs
           then leaf_pte (page_addr (fs ! (vpn va - v))) MAP_FLAGS else pte_at (vm_mem s) r' va))"

lemma fresh_pagesD:
  assumes "fresh_pages R r v fs s s'"
  shows "distinct fs" "set fs \<subseteq> free_set (vm_pmm s)" "grows R s s'"
    "\<And>f. f \<in> set fs \<Longrightarrow> f \<notin> free_set (vm_pmm s') \<and> f \<notin> tables R s' \<and> pm_refs (vm_pmm s') ! f = 1"
    "\<And>f j. f \<in> set fs \<Longrightarrow> j < 512 \<Longrightarrow> vm_mem s' f j = 0"
    "\<And>r' va. r' \<in> R \<Longrightarrow> canon va \<Longrightarrow> pte_at (vm_mem s') r' va =
       (if r' = r \<and> v \<le> vpn va \<and> vpn va < v + length fs
        then leaf_pte (page_addr (fs ! (vpn va - v))) MAP_FLAGS else pte_at (vm_mem s) r' va)"
  using assms unfolding fresh_pages_def by blast+

lemma fresh_pages_Nil: "vm_ok R s \<Longrightarrow> fresh_pages R r v [] s s"
  by (auto simp: fresh_pages_def grows_refl)

lemma fresh_pages_Cons:
  assumes 1: "fresh_pages R r v [p] s s2" and 2: "fresh_pages R r (Suc v) fs s2 s'"
  shows "fresh_pages R r v (p # fs) s s'"
proof -
  note d1 = fresh_pagesD [OF 1] and d2 = fresh_pagesD [OF 2]
  have p2: "p \<notin> free_set (vm_pmm s2)" "p \<notin> tables R s2" "pm_refs (vm_pmm s2) ! p = 1"
    using d1(4) by auto
  note k = grows_keeps [OF d2(3) p2(1,2)]
  have sub: "free_set (vm_pmm s2) \<subseteq> free_set (vm_pmm s)" "pm_total (vm_pmm s2) = pm_total (vm_pmm s)"
    using d1(3) by (auto simp: grows_def)
  have p: "p < pm_total (vm_pmm s2)"
    using d1(2) sub(2) by (auto simp: free_set_def clear_below_def)
  then have "pm_refs (vm_pmm s') ! p = 1" using d2(3) p2 by (simp add: grows_def)
  moreover have "vm_mem s' p j = 0" if "j < 512" for j using k(1) d1(5) that by simp
  moreover have "p \<notin> set fs" "set fs \<subseteq> free_set (vm_pmm s)" using d2(2) p2(1) sub by auto
  moreover have "pte_at (vm_mem s') r' va =
      (if r' = r \<and> v \<le> vpn va \<and> vpn va < v + length (p # fs)
       then leaf_pte (page_addr ((p # fs) ! (vpn va - v))) MAP_FLAGS else pte_at (vm_mem s) r' va)"
    if "r' \<in> R" "canon va" for r' va
    using d1(6) [OF that] d2(6) [OF that] by (auto simp: nth_Cons' Suc_le_eq)
  ultimately show ?thesis
    using d1(1,2) d2(1,4,5) k(2,3) grows_trans [OF d1(3) d2(3)] by (auto simp: fresh_pages_def)
qed

lemma fresh_map:
  assumes ok: "vm_ok R s" and r: "addr_page cr3 \<in> R" and va: "canon virt"
    and a: "pmm_alloc_page (vm_pmm s) = (page_addr p, pm)" "p \<in> free_set (vm_pmm s)"
    "pmm_ok pm" "pm_total pm = pm_total (vm_pmm s)" "free_set pm = free_set (vm_pmm s) - {p}"
    "pm_refs pm = (pm_refs (vm_pmm s))[p := 1]"
    and m: "vmm_map_page_in (s\<lparr>vm_pmm := pm, vm_mem := zero_page (vm_mem s) p\<rparr>) cr3 virt (page_addr p) MAP_FLAGS
      = (Inr u, s2)"
  shows "fresh_pages R (addr_page cr3) (vpn virt) [p] s s2"
proof -
  define s1 where "s1 = s\<lparr>vm_pmm := pm, vm_mem := zero_page (vm_mem s) p\<rparr>"
  note f = fresh_fill [OF ok a, where x = "\<lambda>_. 0", folded zero_page_load, folded s1_def]
  have ok1: "vm_ok R s1" using grows_ok [OF f(1)] .
  have p: "p < pm_total (vm_pmm s)" "p < length (pm_refs (vm_pmm s))"
    using a(2) ok by (auto simp: free_set_def clear_below_def vm_ok_def pmm_ok_def)
  have "pm_refs (vm_pmm s1) ! p = 1" using a(6) p by (simp add: s1_def)
  from ok1 r canon_uva [OF va] show ?thesis
  proof (cases rule: vmm_map_page_in_cases [where phys = "page_addr p" and fl = MAP_FLAGS])
    case (fail s')
    then show ?thesis using m by (simp add: s1_def)
  next
    case (mapped s')
    have s2: "s' = s2" using mapped(1) m by (simp add: s1_def)
    note k = grows_keeps [OF mapped(2) f(2,3)]
    have "pm_refs (vm_pmm s2) ! p = 1"
      using mapped(2) f(2) p \<open>pm_refs (vm_pmm s1) ! p = 1\<close> s2 a(4) by (auto simp: grows_def s1_def)
    moreover have "pte_at (vm_mem s2) r' va = (if r' = addr_page cr3 \<and> vpn virt \<le> vpn va \<and> vpn va < vpn virt + length [p]
       then leaf_pte (page_addr ([p] ! (vpn va - vpn virt))) MAP_FLAGS else pte_at (vm_mem s) r' va)"
      if r': "r' \<in> R" and c: "canon va" for r' va
      using mapped(3) [OF r' canon_uva [OF c]] f(5) [OF r' canon_uva [OF c]] same_page_vpn [OF c va] s2
      by auto
    moreover have "vm_mem s2 p j = 0" if "j < 512" for j using k(1) f(4) [OF that] s2 by simp
    ultimately show ?thesis
      using grows_trans [OF f(1) mapped(2)] k(2,3) a(2) s2 by (simp add: fresh_pages_def)
  qed
qed

lemma mmap_loop_fresh:
  assumes "vm_ok R s" "addr_page cr3 \<in> R" "user_range virt (i + n)"
    "mmap_loop cr3 virt i n first s = Some (Inr f, s')"
  shows "\<exists>fs. length fs = n \<and> fresh_pages R (addr_page cr3) (vpn virt + i) fs s s'
    \<and> f = (if i = 0 \<and> 0 < n then page_addr (fs ! 0) else first)"
  using assms
proof (induction n arbitrary: i first s)
  case 0
  then show ?case by (auto intro!: exI [of _ "[]"] fresh_pages_Nil)
next
  case (Suc n)
  have pok: "pmm_ok (vm_pmm s)" using Suc.prems(1) by (simp add: vm_ok_def)
  from pok show ?case
  proof (cases rule: alloc_page_spec)
    case none
    then show ?thesis using Suc.prems(4) by simp
  next
    case (page p pm)
    have i: "i < i + Suc n" by simp
    note v = range_page [OF Suc.prems(3) i]
    have ap: "addr_page (page_addr p) = p" using vm_free_page_bound [OF Suc.prems(1) page(3)] by simp
    obtain u s2 where m: "vmm_map_page_in (s\<lparr>vm_pmm := pm, vm_mem := zero_page (vm_mem s) p\<rparr>) cr3
        (virt + word_of_nat i * 4096) (page_addr p) MAP_FLAGS = (Inr u, s2)"
      and l: "mmap_loop cr3 virt (Suc i) n (if i = 0 then page_addr p else first) s2 = Some (Inr f, s')"
      using Suc.prems(4) page(1,2) ap by (auto split: prod.splits sum.splits option.splits)
    note st = fresh_map [OF Suc.prems(1,2) v(2) page(1,3-7) m, unfolded v(3)]
    have "vm_ok R s2" using fresh_pagesD(3) [OF st] grows_ok by blast
    from Suc.IH [OF this Suc.prems(2) _ l] Suc.prems(3)
    obtain fs where fs: "length fs = n" "fresh_pages R (addr_page cr3) (Suc (vpn virt + i)) fs s2 s'"
      "f = (if Suc i = 0 \<and> 0 < n then page_addr (fs ! 0) else if i = 0 then page_addr p else first)"
      by (auto simp: add.commute)
    then show ?thesis
      using fresh_pages_Cons [OF st fs(2)] by (intro exI [of _ "p # fs"]) auto
  qed
qed

lemma sys_mmap_cases:
  assumes p: "m_proc s = Some p" and nf: "flags AND MAP_FIXED = 0"
    and run: "sys_mmap hint len prot flags s = Some (res, s')"
  defines "n \<equiv> mmap_pages len flags"
  obtains (fail) e v where "res = Inl e" "s' = set_vm v s"
  | (mapped) slot first v where "n \<noteq> 0" "n \<le> MMAP_MAX_PAGES" "free_entry p = Some slot" "\<not> over_limit p n"
      "mmap_loop (mp_cr3 p) (mp_next p) 0 (unat n) 0 (m_vm s) = Some (Inr first, v)" "res = Inr (mp_next p)"
      "s' = (set_vm v s)\<lparr>m_proc := Some (p\<lparr>mp_mmap := (mp_mmap p)[slot := (mp_mmap p ! slot)\<lparr>mm_virt := mp_next p,
           mm_phys := first, mm_num_pages := ucast n, mm_used := True, mm_shm_id := -1, mm_vfs_node := -1,
           mm_file_offset := 0\<rparr>], mp_next := mp_next p + (n + 1) * 4096, mp_used := mp_used p + n\<rparr>)\<rparr>"
proof -
  have self: "set_vm (m_vm s) s = s" by (simp add: set_vm_def)
  show ?thesis
  proof (cases "len = 0 \<or> n = 0 \<or> MMAP_MAX_PAGES < n \<or> over_limit p n")
    case True
    then have "\<exists>e. res = Inl e \<and> s' = s"
      using run p nf by (cases "len = 0"; cases "n = 0 \<or> MMAP_MAX_PAGES < n")
        (auto simp: sys_mmap_def Let_def n_def [symmetric])
    then show ?thesis using fail self by metis
  next
    case False
    note F = False
    show ?thesis
    proof (cases "free_entry p")
      case None
      then show ?thesis
        using run p nf F fail [of EGENERIC "m_vm s"] self by (simp add: sys_mmap_def Let_def n_def [symmetric])
    next
      case (Some slot)
      obtain r v where l: "mmap_loop (mp_cr3 p) (mp_next p) 0 (unat n) 0 (m_vm s) = Some (r, v)"
        using run p nf F Some
        by (cases "mmap_loop (mp_cr3 p) (mp_next p) 0 (unat n) 0 (m_vm s)")
          (auto simp: sys_mmap_def Let_def n_def [symmetric])
      show ?thesis
      proof (cases r)
        case (Inl e)
        then show ?thesis
          using run p nf F Some l fail [of e v] by (simp add: sys_mmap_def Let_def n_def [symmetric])
      next
        case (Inr first)
        then show ?thesis
          using run p nf F Some l mapped [of slot first v] by (auto simp: sys_mmap_def Let_def n_def [symmetric])
      qed
    qed
  qed
qed


definition demo_entry :: mmap_entry where
  "demo_entry = \<lparr>mm_virt = 0, mm_phys = 0, mm_num_pages = 0, mm_used = False, mm_shm_id = -1, mm_demand = False,
     mm_vfs_node = -1, mm_file_offset = 0\<rparr>"

definition demo_proc :: mproc where
  "demo_proc = \<lparr>mp_cr3 = page_addr 1, mp_mmap = replicate 64 demo_entry, mp_next = 0x1000, mp_rlimit = 0,
     mp_used = 0, mp_ns = 0, mp_fds = []\<rparr>"

definition demo_mm :: mm where
  "demo_mm = \<lparr>m_sw = \<lparr>sp_vm = demo_vm, sp_cache = \<lparr>bc_ent = [], bc_head = 0, bc_tail = 0, bc_hash = [],
       bc_hits = 0, bc_misses = 0\<rparr>, sp_dev = \<lparr>bd_disk = \<lambda>_ _. 0, bd_script = []\<rparr>\<rparr>,
     m_shm = replicate 16 \<lparr>sh_key = -1, sh_pages = replicate 16 0, sh_num = 0, sh_refs = 0\<rparr>, m_ns = [],
     m_proc = Some demo_proc\<rparr>"

lemma free_entry_demo: "free_entry demo_proc = Some 0"
  by (simp add: free_entry_def demo_proc_def demo_entry_def replicate_Suc numeral_eq_Suc)

lemma demo_facts: "mp_rlimit demo_proc = 0" "mp_ns demo_proc = 0" "\<not> mm_used demo_entry"
  by (simp_all add: demo_proc_def demo_entry_def)

lemma demo_map:
  "fst (vmm_map_page_in (demo_vm\<lparr>vm_pmm := pm, vm_mem := zero_page demo_mem 5\<rparr>) (page_addr 1) 0x1000 a f) = Inr ()"
  by (simp add: vmm_map_page_in_def map_level_def PML4_INDEX_def PDPT_INDEX_def PD_INDEX_def addr_page_def
      page_addr_def PAGE_SIZE_def zero_page_def demo_mem_def has_def next_table_def PTE_ADDR_MASK_def
      pte_bits put_def Let_def)


section \<open>The layout of the regions\<close>

definition region_end :: "mmap_entry \<Rightarrow> nat" where
  "region_end e = unat (mm_virt e) + unat (mm_num_pages e) * 4096"

definition apart :: "mmap_entry \<Rightarrow> mmap_entry \<Rightarrow> bool" where
  "apart a b \<longleftrightarrow> region_end a + 4096 \<le> unat (mm_virt b) \<or> region_end b + 4096 \<le> unat (mm_virt a)"

text \<open>All regions lie below the next address, which is bounded, and any two are separated by at least
one page; shared regions have at most 16 pages.\<close>

definition regions_ok :: "nat \<Rightarrow> mproc \<Rightarrow> bool" where
  "regions_ok B p \<longleftrightarrow> unat (mp_next p) \<le> B
     \<and> (\<forall>i < length (mp_mmap p). mm_used (mp_mmap p ! i) \<longrightarrow> region_end (mp_mmap p ! i) + 4096 \<le> unat (mp_next p))
     \<and> (\<forall>i < length (mp_mmap p). \<forall>j < length (mp_mmap p). i \<noteq> j \<longrightarrow> mm_used (mp_mmap p ! i) \<longrightarrow> mm_used (mp_mmap p ! j)
          \<longrightarrow> apart (mp_mmap p ! i) (mp_mmap p ! j))"

definition shm_small :: "shm_region list \<Rightarrow> bool" where
  "shm_small t \<longleftrightarrow> length t = MAX_SHM_REGIONS \<and> (\<forall>r\<in>set t. unat (sh_num r) \<le> 16)"

definition layout_ok :: "nat \<Rightarrow> mm \<Rightarrow> bool" where
  "layout_ok B s \<longleftrightarrow> (\<exists>p. m_proc s = Some p \<and> regions_ok B p) \<and> shm_small (m_shm s)"

definition MAX_STEP :: nat where
  "MAX_STEP = 524289 * 4096"

lemma regions_mono: "regions_ok B p \<Longrightarrow> B \<le> C \<Longrightarrow> regions_ok C p"
  by (auto simp: regions_ok_def)

lemma next_addr:
  assumes "unat (v :: u64) + MAX_STEP < 2 ^ 64" "n \<le> 524288"
  shows "unat (v + (word_of_nat n + 1) * 4096) = unat v + (n + 1) * 4096"
proof -
  have "v + (word_of_nat n + 1) * 4096 = word_of_nat (unat v + (n + 1) * 4096)" by simp
  moreover have "unat v + (n + 1) * 4096 < 2 ^ 64" using assms by (simp add: MAX_STEP_def)
  ultimately show ?thesis by (simp only: unat_of_nat) (simp add: take_bit_nat_eq_self)
qed

lemma regions_enter:
  assumes ok: "regions_ok B p" and slot: "free_entry p = Some slot" and room: "B + MAX_STEP < 2 ^ 64"
    and e: "mm_virt e = mp_next p" "unat (mm_num_pages e) = n" "n \<le> 524288"
    and p': "mp_mmap p' = (mp_mmap p)[slot := e]" "mp_next p' = mp_next p + (word_of_nat n + 1) * 4096"
  shows "regions_ok (B + MAX_STEP) p'"
proof -
  have s: "slot < length (mp_mmap p)" using slot by (auto simp: free_entry_def dest: find_index_SomeD)
  have b: "unat (mp_next p) \<le> B" using ok by (simp add: regions_ok_def)
  have nx: "unat (mp_next p') = unat (mp_next p) + (n + 1) * 4096"
    unfolding p'(2) by (rule next_addr) (use room b e(3) in auto)
  have re: "region_end e + 4096 = unat (mp_next p')" by (simp add: region_end_def e(1,2) nx)
  have old: "region_end (mp_mmap p ! i) + 4096 \<le> unat (mp_next p)"
    if "i < length (mp_mmap p)" "mm_used (mp_mmap p ! i)" for i
    using ok that by (auto simp: regions_ok_def)
  then have ap: "apart (mp_mmap p ! i) e" "apart e (mp_mmap p ! i)"
    if "i < length (mp_mmap p)" "mm_used (mp_mmap p ! i)" for i
    using that e(1) by (auto simp: apart_def)
  have "unat (mp_next p') \<le> B + MAX_STEP" using nx b e(3) by (simp add: MAX_STEP_def)
  then show ?thesis
    using ok s re old ap nx unfolding regions_ok_def p'(1)
    by (auto simp: nth_list_update) (meson le_add1 le_trans order_trans)+
qed

lemma drop_entry_used:
  "j < length (mp_mmap p) \<Longrightarrow> mm_used (mp_mmap (drop_entry i p) ! j) \<Longrightarrow>
    mp_mmap (drop_entry i p) ! j = mp_mmap p ! j \<and> mm_used (mp_mmap p ! j)"
  by (cases "j = i") (auto simp: drop_entry_def)

lemma regions_drop:
  assumes "regions_ok B p" "mp_mmap p' = mp_mmap (drop_entry i p)" "mp_next p' = mp_next p"
  shows "regions_ok B p'"
proof -
  have "length (mp_mmap p') = length (mp_mmap p)" using assms(2) by (simp add: drop_entry_def)
  then show ?thesis using assms drop_entry_used [of _ p i] unfolding regions_ok_def by metis
qed

section \<open>All calls keep the layout\<close>

datatype mm_op = Mmap u64 u64 u64 u64 | Munmap u64 | Fmmap u64 | ShmGet u64 u64 | ShmAt u64 | ShmDt u64
  | Mmap2 u64 u64 | MmapFile u64 u64 u64 | Mprotect u64 u64 u64 | MmapGuard u64 | Fault u64 u64

definition mm_exec :: "vfs_reader \<Rightarrow> mm_op \<Rightarrow> mm \<Rightarrow> mm option" where
  "mm_exec rd op s = (case op of
     Mmap a l pr fl \<Rightarrow> map_option snd (sys_mmap a l pr fl s)
   | Munmap v \<Rightarrow> map_option snd (sys_munmap v s)
   | Fmmap fd \<Rightarrow> map_option snd (sys_fmmap rd fd s)
   | ShmGet k n \<Rightarrow> map_option snd (sys_shmget k n s)
   | ShmAt i \<Rightarrow> Some (snd (sys_shmat i s))
   | ShmDt v \<Rightarrow> map_option snd (sys_shmdt v s)
   | Mmap2 n fl \<Rightarrow> Some (snd (sys_mmap2 n fl s))
   | MmapFile fd off n \<Rightarrow> Some (snd (sys_mmap_file fd off n s))
   | Mprotect v l pr \<Rightarrow> Some (snd (sys_mprotect v l pr s))
   | MmapGuard n \<Rightarrow> map_option snd (sys_mmap_guard n s)
   | Fault a e \<Rightarrow> map_option snd (page_fault_handler rd a e s))"

fun not_fixed :: "mm_op \<Rightarrow> bool" where
  "not_fixed (Mmap a l pr fl) \<longleftrightarrow> fl AND MAP_FIXED = 0"
| "not_fixed _ \<longleftrightarrow> True"

text \<open>A call either leaves the table of regions and the next address alone, drops one entry, or enters
one region at the next address.\<close>

definition proc_step :: "mm \<Rightarrow> mm \<Rightarrow> bool" where
  "proc_step s s' \<longleftrightarrow> (\<forall>p. m_proc s = Some p \<longrightarrow> (\<exists>p'. m_proc s' = Some p' \<and>
     ((mp_mmap p' = mp_mmap p \<and> mp_next p' = mp_next p)
      \<or> (\<exists>i. mp_mmap p' = mp_mmap (drop_entry i p) \<and> mp_next p' = mp_next p)
      \<or> (\<exists>slot e n. free_entry p = Some slot \<and> mm_virt e = mp_next p \<and> unat (mm_num_pages e) = n \<and> n \<le> 524288
           \<and> mp_mmap p' = (mp_mmap p)[slot := e] \<and> mp_next p' = mp_next p + (word_of_nat n + 1) * 4096))))"

lemma proc_step_same: "m_proc s' = m_proc s \<Longrightarrow> proc_step s s'"
  by (auto simp: proc_step_def)

lemma proc_step_drop:
  "m_proc s = Some p \<Longrightarrow> m_proc s' = Some p' \<Longrightarrow> mp_mmap p' = mp_mmap (drop_entry i p) \<Longrightarrow>
    mp_next p' = mp_next p \<Longrightarrow> proc_step s s'"
  by (auto simp: proc_step_def)

lemma proc_step_enter:
  assumes "m_proc s = Some p" "m_proc s' = Some p'" "free_entry p = Some slot"
    "mp_mmap p' = (mp_mmap p)[slot := e]" "mm_virt e = mp_next p" "mm_num_pages e = ucast n"
    "n \<le> MMAP_MAX_PAGES" "mp_next p' = mp_next p + (n + 1) * 4096"
  shows "proc_step s s'"
proof -
  have n: "unat n \<le> 524288" using assms(7) by (simp add: MMAP_MAX_PAGES_def word_le_nat_alt)
  then have "unat (ucast n :: u32) = unat n" by (simp add: unsigned_ucast_eq take_bit_nat_eq_self)
  then have "unat (mm_num_pages e) = unat n \<and> mp_next p' = mp_next p + (word_of_nat (unat n) + 1) * 4096"
    using assms(6,8) by simp
  with assms(1-5) n show ?thesis unfolding proc_step_def by (metis option.inject)
qed

lemma free_entry_lt: "free_entry p = Some slot \<Longrightarrow> slot < length (mp_mmap p)"
  by (auto simp: free_entry_def dest: find_index_SomeD)

lemma proc_step_new:
  assumes "m_proc s = Some p" "free_entry p = Some slot" "n \<le> MMAP_MAX_PAGES" "m_proc s' \<noteq> None"
    and "slot < length (mp_mmap p) \<Longrightarrow> mp_mmap (the (m_proc s')) = (mp_mmap p)[slot := mp_mmap (the (m_proc s')) ! slot]
      \<and> mm_virt (mp_mmap (the (m_proc s')) ! slot) = mp_next p \<and> mm_num_pages (mp_mmap (the (m_proc s')) ! slot) = ucast n
      \<and> mp_next (the (m_proc s')) = mp_next p + (n + 1) * 4096"
  shows "proc_step s s'"
proof -
  obtain p' where p': "m_proc s' = Some p'" using assms(4) by blast
  show ?thesis
    by (rule proc_step_enter [OF assms(1) p' assms(2) _ _ _ assms(3), of "mp_mmap p' ! slot"])
      (use assms(5) [OF free_entry_lt [OF assms(2)]] p' in simp_all)
qed

lemma layout_step:
  assumes "layout_ok B s" "proc_step s s'" "B + MAX_STEP < 2 ^ 64"
    "shm_small (m_shm s')"
  shows "layout_ok (B + MAX_STEP) s'"
proof -
  obtain p where p: "m_proc s = Some p" "regions_ok B p" using assms(1) by (auto simp: layout_ok_def)
  then obtain p' where p': "m_proc s' = Some p'" "(mp_mmap p' = mp_mmap p \<and> mp_next p' = mp_next p)
      \<or> (\<exists>i. mp_mmap p' = mp_mmap (drop_entry i p) \<and> mp_next p' = mp_next p)
      \<or> (\<exists>slot e n. free_entry p = Some slot \<and> mm_virt e = mp_next p \<and> unat (mm_num_pages e) = n \<and> n \<le> 524288
           \<and> mp_mmap p' = (mp_mmap p)[slot := e] \<and> mp_next p' = mp_next p + (word_of_nat n + 1) * 4096)"
    using assms(2) unfolding proc_step_def by blast
  have "regions_ok (B + MAX_STEP) p'"
    using p'(2)
  proof (elim disjE exE conjE)
    assume "mp_mmap p' = mp_mmap p" "mp_next p' = mp_next p"
    then have "regions_ok B p'" using p(2) by (simp add: regions_ok_def)
    then show ?thesis by (rule regions_mono) simp
  next
    fix i assume "mp_mmap p' = mp_mmap (drop_entry i p)" "mp_next p' = mp_next p"
    from regions_drop [OF p(2) this] show ?thesis by (rule regions_mono) simp
  qed (use regions_enter [OF p(2) _ assms(3)] in blast)
  then show ?thesis using p'(1) assms(4) by (auto simp: layout_ok_def)
qed

lemma set_vm_fields [simp]:
  "m_proc (set_vm v s) = m_proc s" "m_shm (set_vm v s) = m_shm s" "m_ns (set_vm v s) = m_ns s" "m_vm (set_vm v s) = v"
  by (simp_all add: set_vm_def)

lemma mmap_step:
  assumes "sys_mmap a l pr fl s = Some (r, s')" "fl AND MAP_FIXED = 0"
  shows "proc_step s s' \<and> m_shm s' = m_shm s"
proof (cases "m_proc s")
  case None
  then show ?thesis using assms(1) by (auto simp: sys_mmap_def Let_def intro!: proc_step_same split: if_splits)
next
  case (Some p)
  from Some assms(2,1) show ?thesis
  proof (cases rule: sys_mmap_cases)
    case (fail e v)
    then show ?thesis by (simp add: proc_step_same)
  next
    case (mapped slot first v)
    have "proc_step s s'" by (rule proc_step_new [OF Some mapped(3,2)]) (simp_all add: mapped(7))
    then show ?thesis by (simp add: mapped(7))
  qed
qed

lemma mmap2_step: "proc_step s (snd (sys_mmap2 n fl s)) \<and> m_shm (snd (sys_mmap2 n fl s)) = m_shm s"
  by (auto simp: sys_mmap2_def Let_def lazy_entry_def eager_entry_def not_less intro: proc_step_same proc_step_new split: option.splits prod.splits bool.splits)

lemma mmap_file_step:
  "proc_step s (snd (sys_mmap_file fd off n s)) \<and> m_shm (snd (sys_mmap_file fd off n s)) = m_shm s"
  by (auto simp: sys_mmap_file_def Let_def lazy_entry_def not_less intro: proc_step_same proc_step_new split: option.splits)

lemma mmap_guard_step:
  assumes "sys_mmap_guard n s = Some (r, s')"
  shows "proc_step s s' \<and> m_shm s' = m_shm s"
  using assms by (auto simp: sys_mmap_guard_def Let_def eager_entry_def not_less intro: proc_step_same proc_step_new split: option.splits prod.splits bool.splits if_splits)

lemma fmmap_step:
  assumes "sys_fmmap rd fd s = Some (r, s')"
  shows "proc_step s s' \<and> m_shm s' = m_shm s"
  using assms by (auto simp: sys_fmmap_def Let_def not_less simp del: fmmap_loop.simps intro: proc_step_same proc_step_new split: option.splits prod.splits if_splits)

lemma shm_free_page_num: "shm_free_page i (r, v) = Some (r', v') \<Longrightarrow> sh_num r' = sh_num r"
  by (auto simp: shm_free_page_def split: if_splits)

lemma shm_small_update:
  assumes "shm_small t" "i < length t \<Longrightarrow> unat (sh_num r) \<le> 16"
  shows "shm_small (t[i := r])"
  using assms set_update_subset_insert [of t i r] by (cases "i < length t") (auto simp: shm_small_def list_update_beyond)

lemma shm_drop_small:
  assumes "shm_drop sid (t, v) = Some (t', v')" "shm_small t"
  shows "shm_small t'"
proof -
  have "t' = t \<or> (\<exists>r. t' = t[sid := r] \<and> (sh_num r = sh_num (t ! sid) \<or> sh_num r = 0))"
    using assms(1) by (auto simp: shm_drop_def Let_def split: if_splits)
  moreover have "unat (sh_num (t ! sid)) \<le> 16" if "sid < length t" using assms(2) that by (auto simp: shm_small_def)
  ultimately show ?thesis using assms(2) by (auto intro!: shm_small_update)
qed

lemma munmap_step:
  assumes "sys_munmap v s = Some (r, s')" "shm_small (m_shm s)"
  shows "proc_step s s' \<and> shm_small (m_shm s')"
proof (cases "m_proc s")
  case None
  then show ?thesis using assms by (auto simp: sys_munmap_def intro: proc_step_same)
next
  case (Some p)
  show ?thesis
  proof (cases "find_index (\<lambda>e. mm_used e \<and> mm_virt e = v) (mp_mmap p)")
    case None
    then show ?thesis using assms Some by (auto simp: sys_munmap_def intro: proc_step_same)
  next
    case i: (Some i)
    then have "\<exists>p'. m_proc s' = Some p' \<and> mp_mmap p' = mp_mmap (drop_entry i p) \<and> mp_next p' = mp_next p"
      using assms(1) Some by (auto simp: sys_munmap_def Let_def drop_entry_def split: if_splits prod.splits)
    moreover have "shm_small (m_shm s')"
      using assms Some i shm_drop_small by (auto simp: sys_munmap_def Let_def split: if_splits prod.splits)
    ultimately show ?thesis using proc_step_drop [OF Some] by blast
  qed
qed

lemma shmdt_step:
  assumes "sys_shmdt v s = Some (r, s')" "shm_small (m_shm s)"
  shows "proc_step s s' \<and> shm_small (m_shm s')"
proof (cases "m_proc s")
  case None
  then show ?thesis using assms by (auto simp: sys_shmdt_def intro: proc_step_same)
next
  case (Some p)
  show ?thesis
  proof (cases "find_index (\<lambda>e. mm_used e \<and> mm_virt e = v \<and> 0 \<le> mm_shm_id e) (mp_mmap p)")
    case None
    then show ?thesis using assms Some by (auto simp: sys_shmdt_def intro: proc_step_same)
  next
    case i: (Some i)
    then have "m_proc s' = Some (drop_entry i p) \<and> shm_small (m_shm s')"
      using assms Some shm_drop_small by (auto simp: sys_shmdt_def Let_def split: option.splits prod.splits)
    then show ?thesis using proc_step_drop [OF Some] by (auto simp: drop_entry_def)
  qed
qed

lemma shmget_fill_step:
  assumes "shmget_fill slot i n s = Some (r, s')" "shm_small (m_shm s)"
  shows "m_proc s' = m_proc s \<and> shm_small (m_shm s')"
  using assms
proof (induction slot i n s arbitrary: r s' rule: shmget_fill.induct)
  case (2 slot i n s)
  have u: "shm_small ((m_shm s)[slot := f (m_shm s ! slot)])" if "\<And>x. sh_num (f x) = sh_num x" for f
    using 2(3) that by (intro shm_small_update) (auto simp: shm_small_def)
  obtain pg pm where a: "pmm_alloc_page (vm_pmm (m_vm s)) = (pg, pm)" by fastforce
  show ?case
  proof (cases "pg = 0")
    case True
    then show ?thesis using 2(2) a u by auto
  next
    case False
    then show ?thesis using 2(1) [OF a [symmetric] False refl refl] 2(2) a u by (auto simp: Let_def)
  qed
qed simp

lemma shmget_step:
  assumes "sys_shmget k n s = Some (r, s')" "shm_small (m_shm s)"
  shows "proc_step s s' \<and> shm_small (m_shm s')"
proof -
  let ?k = "sint (ucast k :: u32)"
  have "m_proc s' = m_proc s \<and> shm_small (m_shm s')"
  proof (cases "n = 0 \<or> 16 < n")
    case True
    then show ?thesis using assms by (auto simp: sys_shmget_def)
  next
    case False
    obtain x t where t: "shmget_reserve ?k n (m_shm s) = (x, t)" by fastforce
    have "unat n \<le> 16" using False by (simp add: word_less_nat_alt)
    then have "unat (ucast n :: u32) \<le> 16" by (simp add: unsigned_ucast_eq take_bit_nat_eq_self)
    then have "shm_small t"
      using t assms(2) by (auto simp: shmget_reserve_def split: option.splits intro!: shm_small_update)
    then show ?thesis
      using assms(1) t False shmget_fill_step [of _ 0 "unat n" "s\<lparr>m_shm := t\<rparr>" r s']
      by (auto simp: sys_shmget_def split: sum.splits prod.splits bool.splits)
  qed
  then show ?thesis by (simp add: proc_step_same)
qed

lemma shmat_step:
  assumes "shm_small (m_shm s)"
  shows "proc_step s (snd (sys_shmat i s)) \<and> shm_small (m_shm (snd (sys_shmat i s)))"
proof (cases "word_of_nat MAX_SHM_REGIONS \<le> i")
  case True
  then show ?thesis using assms by (simp add: sys_shmat_def proc_step_same)
next
  case False
  define r where "r = m_shm s ! unat i"
  have i: "unat i < length (m_shm s)"
    using False assms by (simp add: shm_small_def MAX_SHM_REGIONS_def word_le_nat_alt)
  have n: "unat (sh_num r) \<le> 16" using assms i by (auto simp: shm_small_def r_def)
  have m: "(ucast (sh_num r) :: u64) \<le> MMAP_MAX_PAGES"
    using n by (simp add: MMAP_MAX_PAGES_def word_le_nat_alt unsigned_ucast_eq take_bit_nat_eq_self)
  have w: "ucast (sh_num r + 1) * 4096 = (ucast (sh_num r) :: u64) * 4096 + 4096"
  proof -
    have "unat (sh_num r + 1) = unat (sh_num r) + 1" using n by (simp add: unat_word_ariths)
    then have "(ucast (sh_num r + 1) :: u64) = ucast (sh_num r) + 1"
      by (simp add: word_unat_eq_iff unsigned_ucast_eq take_bit_nat_eq_self unat_word_ariths)
    then show ?thesis by (simp add: algebra_simps)
  qed
  have c: "(ucast (ucast (sh_num r) :: u64) :: u32) = sh_num r" by (rule bit_word_eqI) (simp add: bit_simps)
  have u: "shm_small ((m_shm s)[unat i := r\<lparr>sh_refs := k\<rparr>])" for k
    using n by (intro shm_small_update [OF assms]) simp
  show ?thesis
    using False m u assms
    by (auto simp: sys_shmat_def Let_def r_def [symmetric] w c intro: proc_step_same proc_step_new [where n = "ucast (sh_num r)"]
        split: option.splits prod.splits bool.splits)
qed

lemma fault_step:
  assumes "page_fault_handler rd a e s = Some (r, s')"
  shows "m_proc s' = m_proc s \<and> m_shm s' = m_shm s"
  using assms
  by (auto simp: page_fault_handler_def fault_absent_def Let_def split: option.splits prod.splits if_splits sum.splits)

lemma mprotect_step: "m_proc (snd (sys_mprotect v l pr s)) = m_proc s \<and> m_shm (snd (sys_mprotect v l pr s)) = m_shm s"
  by (auto simp: sys_mprotect_def Let_def split: option.splits)

lemma mm_exec_step:
  assumes "mm_exec rd op s = Some s'" "not_fixed op" "shm_small (m_shm s)"
  shows "proc_step s s' \<and> shm_small (m_shm s')"
proof (cases op)
  case (Mmap a l pr fl)
  then show ?thesis using assms mmap_step [of a l pr fl s] by (auto simp: mm_exec_def)
next
  case (Munmap v)
  then show ?thesis using assms munmap_step [of v s] by (auto simp: mm_exec_def)
next
  case (Fmmap fd)
  then show ?thesis using assms fmmap_step [of rd fd s] by (auto simp: mm_exec_def)
next
  case (ShmGet k n)
  then show ?thesis using assms shmget_step [of k n s] by (auto simp: mm_exec_def)
next
  case (ShmAt i)
  then show ?thesis using assms shmat_step [of s i] by (auto simp: mm_exec_def)
next
  case (ShmDt v)
  then show ?thesis using assms shmdt_step [of v s] by (auto simp: mm_exec_def)
next
  case (Mmap2 n fl)
  then show ?thesis using assms mmap2_step [of s n fl] by (auto simp: mm_exec_def)
next
  case (MmapFile fd off n)
  then show ?thesis using assms mmap_file_step [of s fd off n] by (auto simp: mm_exec_def)
next
  case (Mprotect v l pr)
  then show ?thesis using assms mprotect_step [of v l pr s] by (auto simp: mm_exec_def intro: proc_step_same)
next
  case (MmapGuard n)
  then show ?thesis using assms mmap_guard_step [of n s] by (auto simp: mm_exec_def)
next
  case (Fault a e)
  then show ?thesis using assms fault_step [of rd a e s] by (auto simp: mm_exec_def intro: proc_step_same)
qed

lemma layout_run:
  assumes "fold_opt (mm_exec rd) ops s = Some s'" "\<forall>op\<in>set ops. not_fixed op" "layout_ok B s"
    "B + length ops * MAX_STEP < 2 ^ 64"
  shows "layout_ok (B + length ops * MAX_STEP) s'"
  using assms
proof (induction ops arbitrary: s B)
  case (Cons op ops)
  obtain t where t: "mm_exec rd op s = Some t" "fold_opt (mm_exec rd) ops t = Some s'"
    using Cons.prems(1) by (auto split: option.splits)
  have st: "proc_step s t \<and> shm_small (m_shm t)"
    using mm_exec_step [OF t(1)] Cons.prems(2,3) by (simp add: layout_ok_def)
  have "layout_ok (B + MAX_STEP) t"
    using layout_step [OF Cons.prems(3)] st Cons.prems(4) by simp
  from Cons.IH [OF t(2) _ this] Cons.prems(2,4) show ?case by (simp add: algebra_simps)
qed simp



end
