(* ===== verification/Sys_Mm_Prot.thy ===== *)
theory Sys_Mm_Prot
  imports Sys_Mm_Map
begin

text \<open>What page faults, mprotect, munmap and the shared memory calls of theory Sys_Mm do to the page
tables: the private copy of a copy-on-write fault, the exact effect of a change of protection, and the
cases in which the calls reach memory that does not belong to the caller.\<close>

section \<open>Copy-on-write faults\<close>

definition cow_pte :: "u64 \<Rightarrow> u64 \<Rightarrow> u64" where
  "cow_pte pte phys = phys OR PTE_MAKE_WRITABLE ((pte AND NOT PTE_ADDR_MASK) AND NOT (PTE_COW OR PTE_WAS_WRITABLE))
     OR PTE_PRESENT"

lemma cow_pte_facts:
  assumes "phys AND NOT PTE_ADDR_MASK = 0"
  shows "has (cow_pte pte phys) PTE_PRESENT" "has (cow_pte pte phys) PTE_WRITABLE" "\<not> has (cow_pte pte phys) PTE_COW"
    "next_table (cow_pte pte phys) = next_table phys"
proof -
  have b: "\<not> bit phys n" if "n < 12" for n
  proof
    assume "bit phys n"
    then have "bit (phys AND NOT PTE_ADDR_MASK) n"
      using that by (simp add: bit_simps bit_imp_le_length [of phys n, simplified])
    then show False using assms by simp
  qed
  show "has (cow_pte pte phys) PTE_PRESENT" "has (cow_pte pte phys) PTE_WRITABLE"
    unfolding has_iffs by (simp_all add: cow_pte_def PTE_MAKE_WRITABLE_def bit_simps pte_bits)
  show "\<not> has (cow_pte pte phys) PTE_COW"
    unfolding has_iffs using b [of 9] by (simp add: cow_pte_def PTE_MAKE_WRITABLE_def bit_simps pte_bits)
  have "(PTE_MAKE_WRITABLE ((pte AND NOT PTE_ADDR_MASK) AND NOT (PTE_COW OR PTE_WAS_WRITABLE)) OR PTE_PRESENT) AND PTE_ADDR_MASK = 0"
    by (rule bit_word_eqI) (auto simp: PTE_MAKE_WRITABLE_def bit_simps pte_bits)
  then show "next_table (cow_pte pte phys) = next_table phys"
    unfolding cow_pte_def or.assoc by (rule next_table_or)
qed

lemma masked_clean: "(e AND PTE_ADDR_MASK) AND NOT PTE_ADDR_MASK = 0"
  by (simp add: and.assoc)

lemma page_addr_clean:
  assumes "p < 2 ^ 40"
  shows "page_addr p AND NOT PTE_ADDR_MASK = 0"
  using masked_clean page_addr_masked [OF assms] by metis

lemma ref_dec_facts:
  assumes "pmm_ok m"
  shows "pmm_ok (snd (pmm_ref_dec m a))" "free_set (snd (pmm_ref_dec m a)) = free_set m"
    "pm_total (snd (pmm_ref_dec m a)) = pm_total m"
    "\<And>q. q \<noteq> addr_page a \<Longrightarrow> pm_refs (snd (pmm_ref_dec m a)) ! q = pm_refs m ! q"
    "addr_page a \<noteq> 0 \<Longrightarrow> addr_page a < pm_total m \<Longrightarrow> 0 < pm_refs m ! addr_page a \<Longrightarrow>
      pm_refs (snd (pmm_ref_dec m a)) ! addr_page a = pm_refs m ! addr_page a - 1"
proof -
  show "pmm_ok (snd (pmm_ref_dec m a))" using pmm_exec_ok [OF assms, of "RefDec a"] by simp
  show "free_set (snd (pmm_ref_dec m a)) = free_set m" "pm_total (snd (pmm_ref_dec m a)) = pm_total m"
    by (auto simp: pmm_ref_dec_def Let_def free_set_def)
  show "\<And>q. q \<noteq> addr_page a \<Longrightarrow> pm_refs (snd (pmm_ref_dec m a)) ! q = pm_refs m ! q"
    by (auto simp: pmm_ref_dec_def Let_def)
  show "addr_page a \<noteq> 0 \<Longrightarrow> addr_page a < pm_total m \<Longrightarrow> 0 < pm_refs m ! addr_page a \<Longrightarrow>
      pm_refs (snd (pmm_ref_dec m a)) ! addr_page a = pm_refs m ! addr_page a - 1"
    using assms by (auto simp: pmm_ref_dec_def Let_def pmm_ok_def)
qed

text \<open>What a resolved copy-on-write fault at address a of the address space r guarantees.\<close>

definition cow_resolved :: "nat set \<Rightarrow> nat \<Rightarrow> u64 \<Rightarrow> vm \<Rightarrow> vm \<Rightarrow> bool" where
  "cow_resolved R r a v v' \<longleftrightarrow>
     (let f = next_table (pte_at (vm_mem v) r a); e = pte_at (vm_mem v') r a in
      vm_ok R v' \<and> has e PTE_PRESENT \<and> has e PTE_WRITABLE \<and> \<not> has e PTE_COW
      \<and> (\<forall>j<512. vm_mem v' (next_table e) j = vm_mem v f j) \<and> vm_mem v' f = vm_mem v f
      \<and> (\<forall>r'\<in>R. \<forall>va. uva va \<and> \<not> (r' = r \<and> same_page va a) \<longrightarrow> pte_at (vm_mem v') r' va = pte_at (vm_mem v) r' va)
      \<and> (if pmm_ref_get (vm_pmm v) (page_addr f) = 1 then next_table e = f \<and> vm_pmm v' = vm_pmm v
         else next_table e \<in> free_set (vm_pmm v) \<and> pm_refs (vm_pmm v') ! next_table e = 1
           \<and> (0 < pm_refs (vm_pmm v) ! f \<longrightarrow> pm_refs (vm_pmm v') ! f = pm_refs (vm_pmm v) ! f - 1)))"

lemma cow_write_leaf:
  fixes pte :: u64
  assumes ok: "vm_ok R v" and r: "r \<in> R" and a: "uva a" and pt: "walk (vm_mem v) r (va_path a) = Some pt"
    and clean: "phys AND NOT PTE_ADDR_MASK = 0"
  defines "v' \<equiv> v\<lparr>vm_mem := put (vm_mem v) pt (PT_INDEX a) (cow_pte pte phys)\<rparr>"
  shows "vm_ok R v'" "has (pte_at (vm_mem v') r a) PTE_PRESENT" "has (pte_at (vm_mem v') r a) PTE_WRITABLE"
    "\<not> has (pte_at (vm_mem v') r a) PTE_COW" "next_table (pte_at (vm_mem v') r a) = next_table phys"
    "\<And>r' va. r' \<in> R \<Longrightarrow> uva va \<Longrightarrow> \<not> (r' = r \<and> same_page va a) \<Longrightarrow> pte_at (vm_mem v') r' va = pte_at (vm_mem v) r' va"
    "\<And>g. g \<notin> tables R v \<Longrightarrow> vm_mem v' g = vm_mem v g"
proof -
  note w = write_leaf [OF ok r a pt, where v = "cow_pte pte phys", OF refl, folded v'_def]
  have e: "pte_at (vm_mem v') r a = cow_pte pte phys" using w(2) [OF r a] by (simp add: same_page_def)
  show "vm_ok R v'" using grows_ok [OF w(1)] .
  show "has (pte_at (vm_mem v') r a) PTE_PRESENT" "has (pte_at (vm_mem v') r a) PTE_WRITABLE"
    "\<not> has (pte_at (vm_mem v') r a) PTE_COW" "next_table (pte_at (vm_mem v') r a) = next_table phys"
    unfolding e using cow_pte_facts [OF clean] by blast+
  show "pte_at (vm_mem v') r' va = pte_at (vm_mem v) r' va" if "r' \<in> R" "uva va" "\<not> (r' = r \<and> same_page va a)" for r' va
    using w(2) [OF that(1,2)] that(3) by auto
  have "pt \<in> tables R v" using r pt va_path_upath [OF a] by (auto simp: tables_def)
  then show "\<And>g. g \<notin> tables R v \<Longrightarrow> vm_mem v' g = vm_mem v g" by (auto simp: v'_def put_def)
qed

lemma cow_fault_spec:
  assumes ok: "vm_ok R v" and r: "r \<in> R" and a: "uva a" and pt: "walk (vm_mem v) r (va_path a) = Some pt"
    and pte: "pte_at (vm_mem v) r a = vm_mem v pt (PT_INDEX a)"
    and f: "f = next_table (pte_at (vm_mem v) r a)" "0 < f" "f < pm_total (vm_pmm v)" "f \<notin> free_set (vm_pmm v)" "f \<notin> tables R v"
    and c: "cow_fault pt (PT_INDEX a) v = (res, v')"
  shows "(res \<longrightarrow> cow_resolved R r a v v')
    \<and> (res \<longleftrightarrow> has (pte_at (vm_mem v) r a) PTE_WAS_WRITABLE
        \<and> (pmm_ref_get (vm_pmm v) (page_addr f) = 1 \<or> free_set (vm_pmm v) \<noteq> {}))
    \<and> (\<not> res \<longrightarrow> v' = v)"
proof -
  let ?e = "vm_mem v pt (PT_INDEX a)"
  have pok: "pmm_ok (vm_pmm v)" "pm_total (vm_pmm v) \<le> 2 ^ 40" using ok by (simp_all add: vm_ok_def)
  have fb: "f < 2 ^ 40" using f(3) pok(2) by simp
  have old: "(?e AND PTE_ADDR_MASK) AND NOT PTE_ADDR_MASK = 0" by (rule masked_clean)
  have fo: "addr_page (?e AND PTE_ADDR_MASK) = f" using f(1) pte by (simp add: next_table_def)
  have rg: "pmm_ref_get (vm_pmm v) (?e AND PTE_ADDR_MASK) = pmm_ref_get (vm_pmm v) (page_addr f)"
    using fo fb by (simp add: pmm_ref_get_def)
  show ?thesis
  proof (cases "has ?e PTE_WAS_WRITABLE")
    case False
    then show ?thesis using c pte by (auto simp: cow_fault_def Let_def)
  next
    case was: True
    show ?thesis
    proof (cases "pmm_ref_get (vm_pmm v) (page_addr f) = 1")
      case True
      have "res" "v' = v\<lparr>vm_mem := put (vm_mem v) pt (PT_INDEX a) (cow_pte ?e (?e AND PTE_ADDR_MASK))\<rparr>"
        using c was True rg by (auto simp: cow_fault_def Let_def cow_pte_def or.assoc)
      note w = cow_write_leaf [OF ok r a pt old, where pte = ?e, folded this(2)]
      have "next_table (pte_at (vm_mem v') r a) = f" using w(5) f(1) pte by (simp add: next_table_mask)
      then have "cow_resolved R r a v v'"
        using w True f(5) \<open>v' = _\<close> unfolding cow_resolved_def Let_def f(1) [symmetric] by simp
      then show ?thesis using \<open>res\<close> True was pte by simp
    next
      case shared: False
      from pok(1) show ?thesis
      proof (cases rule: alloc_page_spec)
        case none
        then show ?thesis using c was shared rg pte by (auto simp: cow_fault_def Let_def)
      next
        case (page q pm)
        have qb: "q < 2 ^ 40" "0 < q" and aq: "addr_page (page_addr q) = q"
          using vm_free_page_bound [OF ok page(3)] by simp_all
        define v1 where "v1 = v\<lparr>vm_pmm := pm, vm_mem := load_page (vm_mem v) q (vm_mem v f)\<rparr>"
        note fr = fresh_fill [OF ok page(1,3-7), where x = "vm_mem v f", folded v1_def]
        have ok1: "vm_ok R v1" using grows_ok [OF fr(1)] .
        have pt1: "walk (vm_mem v1) r (va_path a) = Some pt" using fr(7) [OF r] va_path_upath [OF a] pt by simp
        define v2 where "v2 = v1\<lparr>vm_mem := put (vm_mem v1) pt (PT_INDEX a) (cow_pte ?e (page_addr q))\<rparr>"
        note w = cow_write_leaf [OF ok1 r a pt1 page_addr_clean [OF qb(1)], where pte = ?e, folded v2_def]
        have pm2: "pm = vm_pmm v2" by (simp add: v2_def v1_def)
        have pm2ok: "pmm_ok (vm_pmm v2)" using page(4) pm2 by simp
        note rd = ref_dec_facts [OF pm2ok, where a = "?e AND PTE_ADDR_MASK"]
        have v': "res" "v' = v2\<lparr>vm_pmm := snd (pmm_ref_dec (vm_pmm v2) (?e AND PTE_ADDR_MASK))\<rparr>"
          using c was shared rg page(1,2) aq fo
          by (auto simp: cow_fault_def Let_def cow_pte_def or.assoc v2_def v1_def)
        have "vm_ok R v'" unfolding v'(2) by (rule vm_ok_pmm [OF w(1)]) (use rd in auto)
        moreover have nt: "next_table (pte_at (vm_mem v2) r a) = q" using w(5) next_table_page_addr [OF qb(1)] by simp
        moreover have "vm_mem v2 q j = vm_mem v f j" if "j < 512" for j using w(7) [OF fr(3)] fr(4) [OF that] by simp
        moreover have "f \<noteq> q" using f(4) page(3) by auto
        moreover have "vm_mem v2 f = vm_mem v f"
          using w(7) [of f] fr(6) f(5) \<open>f \<noteq> q\<close> by (simp add: v1_def load_page_def)
        moreover have "pm_refs pm ! f = pm_refs (vm_pmm v) ! f" using page(7) \<open>f \<noteq> q\<close> by simp
        moreover have "pm_refs pm ! q = 1"
          using page(3,7) pok(1) by (auto simp: free_set_def clear_below_def pmm_ok_def)
        moreover have "pte_at (vm_mem v2) r' va = pte_at (vm_mem v) r' va"
          if "r' \<in> R" "uva va" "\<not> (r' = r \<and> same_page va a)" for r' va
          using w(6) [OF that] fr(5) [OF that(1,2)] by simp
        ultimately have "cow_resolved R r a v v'"
          using w(2-4) shared page(3,5) rd(4,5) fo f(2,3) pm2
          unfolding cow_resolved_def Let_def f(1) [symmetric] v'(2) by auto
        then show ?thesis using v'(1) was pte page(3) by auto
      qed
    qed
  qed
qed

text \<open>C6: A write to a copy-on-write page gives the process its own writable copy. The fault is resolved
exactly if the page was writable before the clone and the frame is not shared or a free frame is
left; otherwise the process is killed and memory is unchanged. A resolved fault leaves the page
present, writable and no longer copy-on-write with the contents it had; a frame referenced once is
kept, a shared one is copied to a frame that was free, its count drops by one and its contents stay;
no other page of any address space changes its entry.\<close>

theorem cow_fault_private_copy:
  assumes ok: "vm_ok R (m_vm s)" and p: "m_proc s = Some p" and r: "addr_page (mp_cr3 p) \<in> R" and a: "uva a"
    and cow: "has (pte_at (vm_mem (m_vm s)) (addr_page (mp_cr3 p)) a) PTE_COW"
    and f: "f = next_table (pte_at (vm_mem (m_vm s)) (addr_page (mp_cr3 p)) a)" "0 < f" "f < pm_total (vm_pmm (m_vm s))"
      "f \<notin> free_set (vm_pmm (m_vm s))" "f \<notin> tables R (m_vm s)"
    and run: "page_fault_handler rd a 7 s = Some (res, s')"
  shows "(res = Resolved \<longleftrightarrow> has (pte_at (vm_mem (m_vm s)) (addr_page (mp_cr3 p)) a) PTE_WAS_WRITABLE
        \<and> (pmm_ref_get (vm_pmm (m_vm s)) (page_addr f) = 1 \<or> free_set (vm_pmm (m_vm s)) \<noteq> {}))
    \<and> (res = Resolved \<longrightarrow> cow_resolved R (addr_page (mp_cr3 p)) a (m_vm s) (m_vm s'))
    \<and> (res \<noteq> Resolved \<longrightarrow> res = Killed (fault_kill a p) \<and> m_vm s' = m_vm s)"
proof -
  obtain pt where pt: "walk (vm_mem (m_vm s)) (addr_page (mp_cr3 p)) (va_path a) = Some pt"
    "pte_at (vm_mem (m_vm s)) (addr_page (mp_cr3 p)) a = vm_mem (m_vm s) pt (PT_INDEX a)"
    using pte_at_SomeD [OF cow] by metis
  obtain ok' v' where c: "cow_fault pt (PT_INDEX a) (m_vm s) = (ok', v')" by fastforce
  have "vmm_get_pte (vm_mem (m_vm s)) (mp_cr3 p) a = Some (pt, PT_INDEX a)"
    using pt(1) by (simp add: vmm_get_pte_walk)
  then have "res = (if ok' then Resolved else Killed (fault_kill a p)) \<and> s' = set_vm v' s"
    using run p cow pt(2) c by (auto simp: page_fault_handler_def Let_def)
  then show ?thesis using cow_fault_spec [OF ok r a pt f c] by auto
qed

theorem cow_fault_private_copy_witness:
  "\<exists>s'. page_fault_handler (\<lambda>_ _ _. []) 0x1000 7 (set_vm demo_cow_vm demo_mm) = Some (Resolved, s')
     \<and> cow_resolved {1} 1 0x1000 demo_cow_vm (m_vm s')"
proof -
  let ?s = "set_vm demo_cow_vm demo_mm"
  have ap: "addr_page (page_addr 1) = 1" by (simp add: addr_page_def page_addr_def PAGE_SIZE_def)
  have p: "m_proc ?s = Some demo_proc" "mp_cr3 demo_proc = page_addr 1" by (simp_all add: demo_mm_def demo_proc_def)
  have u: "uva 0x1000" by (simp add: uva_def PML4_INDEX_def)
  have e: "has (page_addr 5 OR 0xA05) PTE_COW" "has (page_addr 5 OR 0xA05) PTE_WAS_WRITABLE" "next_table (page_addr 5 OR 0xA05) = 5"
    by (simp_all add: has_def pte_bits page_addr_def PAGE_SIZE_def next_table_def addr_page_def PTE_ADDR_MASK_def)
  have t: "5 < pm_total (vm_pmm demo_cow_vm)" by (simp add: demo_cow_vm_def take_page_def demo_vm_def demo_pmm_def)
  have rg: "pmm_ref_get (vm_pmm demo_cow_vm) (page_addr 5) = 1"
    by (simp add: pmm_ref_get_def demo_cow_vm_def take_page_def demo_vm_def demo_pmm_def addr_page_def page_addr_def PAGE_SIZE_def)
  have "page_fault_handler (\<lambda>_ _ _. []) 0x1000 7 ?s \<noteq> None"
    using p by (auto simp: page_fault_handler_def Let_def split: option.splits prod.splits)
  then obtain res s' where run: "page_fault_handler (\<lambda>_ _ _. []) 0x1000 7 ?s = Some (res, s')" by auto
  from cow_fault_private_copy [OF _ p(1) _ u _ _ _ _ _ _ run, of "{1}" 5] show ?thesis
    using run demo_cow_facts e t rg p ap by auto
qed

section \<open>Protection changes\<close>

lemma protect_pte_frame: "next_table (protect_pte (prot_flags prot) old) = next_table old"
proof -
  have "protect_pte (prot_flags prot) old AND PTE_ADDR_MASK = old AND PTE_ADDR_MASK"
    by (rule bit_word_eqI) (auto simp: protect_pte_def Let_def prot_flags_def bit_simps bit_pte)
  then show ?thesis by (simp add: next_table_def)
qed

lemma protect_pte_bits:
  "has (protect_pte (prot_flags prot) old) PTE_PRESENT \<longleftrightarrow> prot \<noteq> PROT_NONE"
  "has old PTE_COW \<Longrightarrow> has (protect_pte (prot_flags prot) old) PTE_COW \<and> \<not> has (protect_pte (prot_flags prot) old) PTE_WRITABLE"
  "\<not> has old PTE_COW \<Longrightarrow> has (protect_pte (prot_flags prot) old) PTE_WRITABLE \<longleftrightarrow> prot \<noteq> PROT_NONE \<and> prot AND PROT_WRITE \<noteq> 0"
  "\<not> has (protect_pte (prot_flags prot) old) PTE_SWAP"
proof -
  have c: "x AND PTE_COW = 0 \<longleftrightarrow> \<not> bit x 9" "x AND PTE_WRITABLE = 0 \<longleftrightarrow> \<not> bit x 1" for x
    using has_iffs(2,5) [of x] unfolding has_def by blast+
  show "has (protect_pte (prot_flags prot) old) PTE_PRESENT \<longleftrightarrow> prot \<noteq> PROT_NONE"
    unfolding has_iffs by (auto simp: c protect_pte_def Let_def prot_flags_def bit_simps bit_pte)
  show "has old PTE_COW \<Longrightarrow> has (protect_pte (prot_flags prot) old) PTE_COW \<and> \<not> has (protect_pte (prot_flags prot) old) PTE_WRITABLE"
    unfolding has_iffs by (auto simp: c protect_pte_def Let_def prot_flags_def bit_simps bit_pte)
  show "\<not> has old PTE_COW \<Longrightarrow> has (protect_pte (prot_flags prot) old) PTE_WRITABLE \<longleftrightarrow> prot \<noteq> PROT_NONE \<and> prot AND PROT_WRITE \<noteq> 0"
    unfolding has_iffs by (auto simp: c protect_pte_def Let_def prot_flags_def bit_simps bit_pte)
  show "\<not> has (protect_pte (prot_flags prot) old) PTE_SWAP"
    unfolding has_iffs by (auto simp: c protect_pte_def Let_def prot_flags_def bit_simps bit_pte)
qed

definition mapped_pte :: "u64 \<Rightarrow> bool" where
  "mapped_pte e \<longleftrightarrow> has e PTE_PRESENT \<or> has e PTE_SWAP"

lemma protect_page_spec:
  fixes fl :: u64
  assumes ok: "vm_ok R v" and r: "addr_page cr3 \<in> R" and va: "uva va"
  defines "v' \<equiv> protect_page cr3 fl va v"
  shows "vm_ok R v'" "vm_pmm v' = vm_pmm v"
    "\<And>r' a. r' \<in> R \<Longrightarrow> uva a \<Longrightarrow> pte_at (vm_mem v') r' a =
       (if r' = addr_page cr3 \<and> same_page a va \<and> mapped_pte (pte_at (vm_mem v) r' a)
        then protect_pte fl (pte_at (vm_mem v) r' a) else pte_at (vm_mem v) r' a)"
proof -
  have eq: "pte_at (vm_mem v) r' a = pte_at (vm_mem v) r' va" if "same_page a va" for r' a
    using that unfolding pte_at_def same_page_def by metis
  have "vm_ok R v' \<and> vm_pmm v' = vm_pmm v \<and> (\<forall>r' a. r' \<in> R \<longrightarrow> uva a \<longrightarrow> pte_at (vm_mem v') r' a =
       (if r' = addr_page cr3 \<and> same_page a va \<and> mapped_pte (pte_at (vm_mem v) r' a)
        then protect_pte fl (pte_at (vm_mem v) r' a) else pte_at (vm_mem v) r' a))"
  proof (cases "walk (vm_mem v) (addr_page cr3) (va_path va)")
    case None
    then have "v' = v" "pte_at (vm_mem v) (addr_page cr3) va = 0"
      by (simp_all add: v'_def protect_page_def vmm_get_pte_walk pte_at_def)
    then show ?thesis using ok eq by (auto simp: mapped_pte_def)
  next
    case (Some pt)
    have old: "pte_at (vm_mem v) (addr_page cr3) va = vm_mem v pt (PT_INDEX va)" using Some by (simp add: pte_at_def)
    show ?thesis
    proof (cases "mapped_pte (vm_mem v pt (PT_INDEX va))")
      case False
      then have "v' = v" using Some by (auto simp: v'_def protect_page_def vmm_get_pte_walk mapped_pte_def Let_def)
      then show ?thesis using ok eq old False by auto
    next
      case True
      then have v': "v' = v\<lparr>vm_mem := put (vm_mem v) pt (PT_INDEX va) (protect_pte fl (vm_mem v pt (PT_INDEX va)))\<rparr>"
        using Some by (auto simp: v'_def protect_page_def vmm_get_pte_walk mapped_pte_def Let_def)
      note w = write_leaf [OF ok r va Some v']
      show ?thesis using grows_ok [OF w(1)] w(2) eq old True by (auto simp: v')
    qed
  qed
  then show "vm_ok R v'" "vm_pmm v' = vm_pmm v" "\<And>r' a. r' \<in> R \<Longrightarrow> uva a \<Longrightarrow> pte_at (vm_mem v') r' a =
       (if r' = addr_page cr3 \<and> same_page a va \<and> mapped_pte (pte_at (vm_mem v) r' a)
        then protect_pte fl (pte_at (vm_mem v) r' a) else pte_at (vm_mem v) r' a)" by blast+
qed

lemma protect_range:
  fixes fl :: u64
  assumes ok: "vm_ok R v" and r: "addr_page cr3 \<in> R" and u: "user_range virt n" and k: "k \<le> n"
  defines "v' \<equiv> fold (\<lambda>pg. protect_page cr3 fl (virt + word_of_nat pg * 4096)) [0..<k] v"
  shows "vm_ok R v' \<and> vm_pmm v' = vm_pmm v \<and> (\<forall>r'\<in>R. \<forall>a. canon a \<longrightarrow> pte_at (vm_mem v') r' a =
       (if r' = addr_page cr3 \<and> vpn virt \<le> vpn a \<and> vpn a < vpn virt + k \<and> mapped_pte (pte_at (vm_mem v) r' a)
        then protect_pte fl (pte_at (vm_mem v) r' a) else pte_at (vm_mem v) r' a))"
  using k unfolding v'_def
proof (induction k)
  case (Suc k)
  define w where "w = fold (\<lambda>pg. protect_page cr3 fl (virt + word_of_nat pg * 4096)) [0..<k] v"
  have ih: "vm_ok R w" "vm_pmm w = vm_pmm v" "\<And>r' a. r' \<in> R \<Longrightarrow> canon a \<Longrightarrow> pte_at (vm_mem w) r' a =
       (if r' = addr_page cr3 \<and> vpn virt \<le> vpn a \<and> vpn a < vpn virt + k \<and> mapped_pte (pte_at (vm_mem v) r' a)
        then protect_pte fl (pte_at (vm_mem v) r' a) else pte_at (vm_mem v) r' a)"
    using Suc by (simp_all add: w_def)
  have k: "k < n" using Suc.prems by simp
  note rp = range_page [OF u k]
  note st = protect_page_spec [OF ih(1) r canon_uva [OF rp(2)], where fl = fl]
  have "pte_at (vm_mem (protect_page cr3 fl (virt + word_of_nat k * 4096) w)) r' a =
       (if r' = addr_page cr3 \<and> vpn virt \<le> vpn a \<and> vpn a < vpn virt + Suc k \<and> mapped_pte (pte_at (vm_mem v) r' a)
        then protect_pte fl (pte_at (vm_mem v) r' a) else pte_at (vm_mem v) r' a)" if "r' \<in> R" "canon a" for r' a
    using st(3) [OF that(1) canon_uva [OF that(2)]] ih(3) [OF that] same_page_vpn [OF that(2) rp(2)] rp(3)
    by (auto simp: less_Suc_eq)
  then show ?case using st(1,2) ih(2) by (simp add: w_def)
qed (use ok in auto)

definition pages_of :: "u64 \<Rightarrow> nat" where
  "pages_of len = (unat len + 4095) div 4096"

lemma num_pages_word:
  assumes "unat (len :: u64) + 4095 < 2 ^ 64"
  shows "(len + 4096 - 1) div 4096 = word_of_nat (pages_of len)" "unat ((len + 4096 - 1) div 4096) = pages_of len"
proof -
  have "unat (len + 4095) = unat len + 4095" using assms by (simp add: unat_word_ariths)
  then show u: "unat ((len + 4096 - 1) div 4096) = pages_of len"
    by (simp add: unat_div pages_of_def add_diff_eq [symmetric] del: add_diff_eq)
  show "(len + 4096 - 1) div 4096 = word_of_nat (pages_of len)" unfolding u [symmetric] by simp
qed

lemma aligned_and: "(a :: u64) AND 0xFFF = 0 \<longleftrightarrow> unat a mod 4096 = 0"
proof -
  have "a AND 0xFFF = take_bit 12 a" by (simp add: take_bit_eq_mask mask_eq_exp_minus_1)
  moreover have "unat (take_bit 12 a) = unat a mod 4096" by (simp only: unsigned_take_bit_eq) (simp add: take_bit_eq_mod)
  ultimately show ?thesis by (metis unsigned_0 word_unat_eq_iff)
qed

lemma range_end_word:
  assumes "user_range virt n"
  shows "unat (virt + word_of_nat n * 4096) = unat virt + n * 4096"
proof -
  have "virt + word_of_nat n * 4096 = word_of_nat (unat virt + n * 4096)" by simp
  moreover have "unat virt + n * 4096 < 2 ^ 64" using assms by (simp add: user_range_def)
  ultimately show ?thesis by (simp only: unat_of_nat) (simp add: take_bit_nat_eq_self)
qed

lemma entry_end_word:
  assumes "region_end e < 2 ^ 64"
  shows "unat (entry_end e) = region_end e"
proof -
  have "entry_end e = word_of_nat (region_end e)" by (simp add: entry_end_def region_end_def)
  then show ?thesis using assms by (simp only: unat_of_nat) (simp add: take_bit_nat_eq_self)
qed

lemma mprotect_core:
  assumes ok: "vm_ok R (m_vm s)" and p: "m_proc s = Some p" and r: "addr_page (mp_cr3 p) \<in> R"
    and len: "len \<noteq> 0" "unat len + 4095 < 2 ^ 64" and u: "user_range virt (pages_of len)"
    and ends: "\<forall>e\<in>set (mp_mmap p). region_end e < 2 ^ 64"
  defines "inside \<equiv> (\<exists>e\<in>set (mp_mmap p). mm_used e \<and> unat (mm_virt e) \<le> unat virt
      \<and> unat virt + pages_of len * 4096 \<le> region_end e)"
  obtains v' where "sys_mprotect virt len prot s = (if inside then (Inr (), set_vm v' s) else (Inl EINVAL, s))"
    "vm_ok R v'" "vm_pmm v' = vm_pmm (m_vm s)"
    "\<And>r' a. r' \<in> R \<Longrightarrow> canon a \<Longrightarrow> pte_at (vm_mem v') r' a =
       (if r' = addr_page (mp_cr3 p) \<and> in_range a virt (pages_of len) \<and> mapped_pte (pte_at (vm_mem (m_vm s)) r' a)
        then protect_pte (prot_flags prot) (pte_at (vm_mem (m_vm s)) r' a) else pte_at (vm_mem (m_vm s)) r' a)"
proof -
  let ?n = "pages_of len"
  have n: "(len + 4096 - 1) div 4096 = word_of_nat ?n" "unat (word_of_nat ?n :: u64) = ?n"
    using num_pages_word [OF len(2)] by simp_all
  have al: "virt AND 0xFFF = 0" using u by (simp add: aligned_and user_range_def)
  have chk: "list_ex (\<lambda>e. mm_used e \<and> mm_virt e \<le> virt \<and> virt + word_of_nat ?n * 4096 \<le> entry_end e) (mp_mmap p) \<longleftrightarrow> inside"
    using ends entry_end_word range_end_word [OF u] by (auto simp: inside_def list_ex_iff word_le_nat_alt)
  define v' where "v' = fold (\<lambda>pg. protect_page (mp_cr3 p) (prot_flags prot) (virt + word_of_nat pg * 4096)) [0..<?n] (m_vm s)"
  note pr = protect_range [OF ok r u order_refl, of "prot_flags prot", folded v'_def, folded in_range_vpn [OF u]]
  have "sys_mprotect virt len prot s =
      (if list_ex (\<lambda>e. mm_used e \<and> mm_virt e \<le> virt \<and> virt + word_of_nat ?n * 4096 \<le> entry_end e) (mp_mmap p)
       then (Inr (), set_vm v' s) else (Inl EINVAL, s))"
    using p al len(1) unfolding sys_mprotect_def Let_def n v'_def by auto
  then show ?thesis unfolding chk using that pr in_range_vpn [OF u] by auto
qed


definition demo_region :: mmap_entry where
  "demo_region = demo_entry\<lparr>mm_virt := 0x1000, mm_phys := page_addr 5, mm_num_pages := 1, mm_used := True\<rparr>"

definition demo_cow_mm :: mm where
  "demo_cow_mm = (set_vm demo_cow_vm demo_mm)\<lparr>m_proc := Some (demo_proc\<lparr>mp_mmap := [demo_region]\<rparr>)\<rparr>"


text \<open>The range check of sys_mprotect computes the end of the range modulo 2 to the 64. A length of 2 to
the 64 minus one page makes the end wrap to one page below the start, the check passes for every
region, and the loop runs over the whole address space, the kernel half included.\<close>

lemma mprotect_accepts_wrapped_range:
  assumes p: "m_proc s = Some p" and e: "e \<in> set (mp_mmap p)" "mm_used e" "mm_virt e AND 0xFFF = 0" "4096 \<le> unat (mm_virt e)"
    and en: "region_end e < 2 ^ 64"
  shows "fst (sys_mprotect (mm_virt e) (- 4096) prot s) = Inr ()"
proof -
  have n: "(- 4096 + 4096 - 1 :: u64) div 4096 = 0xFFFFFFFFFFFFF" by (simp add: word_arith_nat_div unsigned_minus_1_eq_mask mask_eq_exp_minus_1)
  have "mm_virt e + 0xFFFFFFFFFFFFF * 4096 = mm_virt e - 4096" by simp
  moreover have "mm_virt e - 4096 \<le> entry_end e"
  proof -
    have "unat (mm_virt e - 4096) = unat (mm_virt e) - 4096"
      using e(4) by (simp add: unat_sub word_le_nat_alt)
    then show ?thesis using entry_end_word [OF en] by (simp add: word_le_nat_alt region_end_def)
  qed
  ultimately have "list_ex (\<lambda>x. mm_used x \<and> mm_virt x \<le> mm_virt e \<and> mm_virt e + 0xFFFFFFFFFFFFF * 4096 \<le> entry_end x) (mp_mmap p)"
    unfolding list_ex_iff using e(1,2) by (metis order_refl)
  then show ?thesis using p e(3) unfolding sys_mprotect_def Let_def n by simp
qed

text \<open>sys_mprotect also rewrites the entries of pages that are swapped out, and drops the mark that
makes them swap entries: unless the new protection is PROT_NONE the page is then mapped, for the
user, to the physical frame whose number is the swap slot.\<close>

lemma swap_pte_frame:
  assumes "slot < SWAP_NUM_PAGES"
  shows "next_table (swap_pte slot) = slot"
proof -
  have "swap_pte slot = page_addr slot OR PTE_SWAP"
    by (simp add: swap_pte_def page_addr_push SWAP_SLOT_SHIFT_def or.commute)
  moreover have "PTE_SWAP AND PTE_ADDR_MASK = 0" by (simp add: PTE_SWAP_def PTE_ADDR_MASK_def)
  ultimately show ?thesis
    using next_table_or next_table_page_addr [of slot] assms by (simp add: SWAP_NUM_PAGES_def)
qed

lemma mprotect_maps_swap_slot:
  assumes ok: "vm_ok R (m_vm s)" and p: "m_proc s = Some p" and r: "addr_page (mp_cr3 p) \<in> R"
    and len: "len \<noteq> 0" "unat len + 4095 < 2 ^ 64" and u: "user_range virt (pages_of len)"
    and ends: "\<forall>e\<in>set (mp_mmap p). region_end e < 2 ^ 64"
    and run: "sys_mprotect virt len prot s = (Inr (), s')" and prot: "prot \<noteq> PROT_NONE"
    and a: "canon a" "in_range a virt (pages_of len)"
    and sw: "slot < SWAP_NUM_PAGES" "pte_at (vm_mem (m_vm s)) (addr_page (mp_cr3 p)) a = swap_pte slot"
  shows "has (pte_at (vm_mem (m_vm s')) (addr_page (mp_cr3 p)) a) PTE_PRESENT
    \<and> next_table (pte_at (vm_mem (m_vm s')) (addr_page (mp_cr3 p)) a) = slot"
proof -
  obtain v' where v': "sys_mprotect virt len prot s = (if \<exists>e\<in>set (mp_mmap p). mm_used e \<and> unat (mm_virt e) \<le> unat virt
      \<and> unat virt + pages_of len * 4096 \<le> region_end e then (Inr (), set_vm v' s) else (Inl EINVAL, s))"
    "\<And>r' a. r' \<in> R \<Longrightarrow> canon a \<Longrightarrow> pte_at (vm_mem v') r' a =
       (if r' = addr_page (mp_cr3 p) \<and> in_range a virt (pages_of len) \<and> mapped_pte (pte_at (vm_mem (m_vm s)) r' a)
        then protect_pte (prot_flags prot) (pte_at (vm_mem (m_vm s)) r' a) else pte_at (vm_mem (m_vm s)) r' a)"
    by (rule mprotect_core [OF ok p r len u ends, where prot = prot]) (rule that)
  have "m_vm s' = v'" using run v'(1) by (auto split: if_splits)
  moreover have "mapped_pte (swap_pte slot)"
    using swap_pte_entry [OF sw(1)] by (auto simp: mapped_pte_def swap_is_entry_def)
  ultimately have "pte_at (vm_mem (m_vm s')) (addr_page (mp_cr3 p)) a = protect_pte (prot_flags prot) (swap_pte slot)"
    using v'(2) [OF r a(1)] a(2) sw(2) by simp
  then show ?thesis using protect_pte_frame protect_pte_bits(1) swap_pte_frame [OF sw(1)] prot by simp
qed

section \<open>Memory of others\<close>

text \<open>The fallback of sys_munmap for pages that are not present takes the frames of a region to be
consecutive, while sys_mmap allocates them one by one. Once a region is not present any more, as after
a change of its protection to PROT_NONE, unmapping it frees the frame that follows the first one, to
whomever it belongs.\<close>

lemma munmap_frees_neighbour:
  assumes ok: "pmm_ok (vm_pmm (m_vm s))" and p: "m_proc s = Some p"
    and i: "find_index (\<lambda>e. mm_used e \<and> mm_virt e = virt) (mp_mmap p) = Some i"
    and e: "mm_shm_id (mp_mmap p ! i) < 0" "mm_num_pages (mp_mmap p ! i) = 2" "mm_phys (mp_mmap p ! i) = page_addr f"
    and np: "\<not> has (pte_at (vm_mem (m_vm s)) (addr_page (mp_cr3 p)) virt) PTE_PRESENT"
      "\<not> has (pte_at (vm_mem (m_vm s)) (addr_page (mp_cr3 p)) (virt + 4096)) PTE_PRESENT"
    and f: "0 < f" "f + 1 < pm_total (vm_pmm (m_vm s))" "f \<notin> free_set (vm_pmm (m_vm s))" "f + 1 \<notin> free_set (vm_pmm (m_vm s))"
      "pm_refs (vm_pmm (m_vm s)) ! f = 1" "pm_refs (vm_pmm (m_vm s)) ! (f + 1) = 1"
  shows "\<exists>s'. sys_munmap virt s = Some (Inr (), s') \<and> f + 1 \<in> free_set (vm_pmm (m_vm s'))"
proof -
  let ?v = "m_vm s"
  have fb: "f + 1 < 2 ^ 52" using ok f(2) by (simp add: pmm_ok_def)
  obtain m1 where m1: "pmm_free_page (vm_pmm ?v) (page_addr f) = Some m1" "pmm_ok m1" "free_set m1 = insert f (free_set (vm_pmm ?v))"
    "pm_total m1 = pm_total (vm_pmm ?v)" "\<And>k. k \<noteq> f \<Longrightarrow> pm_refs m1 ! k = pm_refs (vm_pmm ?v) ! k"
    using free_page_release [OF ok f(1) _ f(3,5)] f(2) by auto
  have g: "0 < f + 1" "f + 1 < pm_total m1" "f + 1 \<notin> free_set m1" "pm_refs m1 ! (f + 1) = 1"
    using f m1 by simp_all
  obtain m2 where m2: "pmm_free_page m1 (page_addr (f + 1)) = Some m2" "free_set m2 = insert (f + 1) (free_set m1)"
    by (rule free_page_release [OF m1(2) g]) (rule that)
  have nx: "page_addr f + 4096 = page_addr (f + 1)" by (simp add: page_addr_def PAGE_SIZE_def)
  have nz: "page_addr f \<noteq> 0" using page_addr_nonzero f(1) fb by simp
  have fallback: "unmap_private (mp_cr3 p) virt (page_addr f) j w = vm_free_page (page_addr f + word_of_nat j * 4096) w"
    if "vm_mem w = vm_mem ?v" "j \<in> {0, 1}" for j w
    using that np nz by (auto simp: unmap_private_def vmm_get_pte_walk pte_at_def Let_def split: option.splits)
  have "fold_opt (unmap_private (mp_cr3 p) virt (page_addr f)) [0..<2] ?v = Some (?v\<lparr>vm_pmm := m2\<rparr>)"
    using m1(1) m2(1) nx by (simp add: upt_conv_Cons fallback vm_free_page_def)
  then show ?thesis
    using p i e m2(2) by (simp add: sys_munmap_def Let_def not_le)
qed

text \<open>sys_mmap with MAP_FIXED does not check the address. A page-aligned address of the kernel half is
mapped, user-accessible and writable, in a page table that every address space shares.\<close>

lemma mmap_fixed_maps_kernel_half:
  assumes ok: "pmm_ok (vm_pmm (m_vm s))" and free: "free_set (vm_pmm (m_vm s)) \<noteq> {}"
    and p: "m_proc s = Some p" "\<not> over_limit p 1" "free_entry p = Some slot"
    and args: "hint \<noteq> 0" "hint AND NOT (4096 - 1) = hint" "prot \<noteq> 0" "flags AND MAP_FIXED \<noteq> 0" "len \<noteq> 0" "mmap_pages len flags = 1"
    and t3: "has (vm_mem (m_vm s) (addr_page (mp_cr3 p)) (PML4_INDEX hint)) PTE_PRESENT"
      "t3 = next_table (vm_mem (m_vm s) (addr_page (mp_cr3 p)) (PML4_INDEX hint))"
    and t2: "has (vm_mem (m_vm s) t3 (PDPT_INDEX hint)) PTE_PRESENT" "t2 = next_table (vm_mem (m_vm s) t3 (PDPT_INDEX hint))"
    and t1: "has (vm_mem (m_vm s) t2 (PD_INDEX hint)) PTE_PRESENT" "t1 = next_table (vm_mem (m_vm s) t2 (PD_INDEX hint))"
    and other: "vm_mem (m_vm s) r (PML4_INDEX hint) = vm_mem (m_vm s) (addr_page (mp_cr3 p)) (PML4_INDEX hint)"
    and apart: "distinct [addr_page (mp_cr3 p), r, t3, t2, t1]"
      "\<forall>t\<in>{addr_page (mp_cr3 p), r, t3, t2, t1}. t \<notin> free_set (vm_pmm (m_vm s))" "r < 2 ^ 40"
  shows "\<exists>s' q. sys_mmap hint len prot flags s = Some (Inr hint, s')
    \<and> vmm_get_pte (vm_mem (m_vm s')) (page_addr r) hint = Some (t1, PT_INDEX hint)
    \<and> vm_mem (m_vm s') t1 (PT_INDEX hint) = leaf_pte (page_addr q) MAP_FLAGS"
  using ok
proof (cases rule: alloc_page_spec)
  case none
  then show ?thesis using free by simp
next
  case (page q pm)
  let ?r = "addr_page (mp_cr3 p)" and ?i4 = "PML4_INDEX hint" and ?i3 = "PDPT_INDEX hint" and ?i2 = "PD_INDEX hint"
  define mem where "mem = zero_page (vm_mem (m_vm s)) q"
  have nq: "q \<noteq> ?r" "q \<noteq> r" "q \<noteq> t3" "q \<noteq> t2" "q \<noteq> t1" using page(3) apart(2) by auto
  have mem: "mem g = vm_mem (m_vm s) g" if "g \<noteq> q" for g using that by (simp add: mem_def zero_page_def)
  define u where "u e = (if has e PTE_USER then e else e OR PTE_USER)" for e
  have u: "next_table (u e) = next_table e" "has (u e) PTE_PRESENT = has e PTE_PRESENT" for e
    by (simp_all add: u_def next_table_user present_user)
  have fl: "has MAP_FLAGS PTE_USER" by (simp add: MAP_FLAGS_def has_def pte_bits)
  have lvl: "map_level w t i MAP_FLAGS = (Some (next_table (vm_mem w t i)), w\<lparr>vm_mem := put (vm_mem w) t i (u (vm_mem w t i))\<rparr>)"
    if "has (vm_mem w t i) PTE_PRESENT" for w t i
    using that fl by (auto simp: map_level_def Let_def u_def next_table_user)
  define m3 where "m3 = put (put (put mem ?r ?i4 (u (mem ?r ?i4))) t3 ?i3 (u (mem t3 ?i3))) t2 ?i2 (u (mem t2 ?i2))"
  let ?m = "put m3 t1 (PT_INDEX hint) (leaf_pte (page_addr q) MAP_FLAGS)"
  have d: "t3 \<noteq> ?r" "t2 \<noteq> ?r" "t2 \<noteq> t3" "t1 \<noteq> ?r" "t1 \<noteq> t3" "t1 \<noteq> t2" "r \<noteq> ?r" "r \<noteq> t3" "r \<noteq> t2" "r \<noteq> t1"
    using apart(1) by auto
  have aq: "addr_page (page_addr q) = q" using free_set_pos [OF ok page(3)] by simp
  have map: "vmm_map_page_in ((m_vm s)\<lparr>vm_pmm := pm, vm_mem := mem\<rparr>) (mp_cr3 p) hint (page_addr q) MAP_FLAGS
      = (Inr (), (m_vm s)\<lparr>vm_pmm := pm, vm_mem := ?m\<rparr>)"
    using t3 t2 t1 d mem nq u by (simp add: vmm_map_page_in_def lvl put_if m3_def)
  have loop: "mmap_loop (mp_cr3 p) hint 0 1 0 (m_vm s) = Some (Inr (page_addr q), (m_vm s)\<lparr>vm_pmm := pm, vm_mem := ?m\<rparr>)"
    using page(1,2) map aq by (simp add: mem_def)
  have "\<exists>s'. sys_mmap hint len prot flags s = Some (Inr hint, s') \<and> vm_mem (m_vm s') = ?m"
    using p args loop by (simp add: sys_mmap_def Let_def MMAP_MAX_PAGES_def)
  moreover have "vmm_get_pte ?m (page_addr r) hint = Some (t1, PT_INDEX hint)"
    using other t3 t2 t1 d mem nq u apart(3) by (simp add: vmm_get_pte_def Let_def put_if m3_def)
  ultimately show ?thesis by auto
qed

section \<open>Shared memory\<close>

lemma ref_inc_facts:
  "free_set (pmm_ref_inc m a) = free_set m" "pm_total (pmm_ref_inc m a) = pm_total m"
  "pmm_ok m \<Longrightarrow> pmm_ok (pmm_ref_inc m a)"
  using pmm_exec_ok [of m "RefInc a"] by (auto simp: pmm_ref_inc_def Let_def free_set_def)

lemma shmat_loop_spec:
  assumes "vm_ok R v" "addr_page cr3 \<in> R" "user_range virt (i + length ps)" "shmat_loop cr3 virt i ps v = (True, v')"
  shows "vm_ok R v' \<and> (\<forall>r'\<in>R. \<forall>a. canon a \<longrightarrow> pte_at (vm_mem v') r' a =
    (if r' = addr_page cr3 \<and> vpn virt + i \<le> vpn a \<and> vpn a < vpn virt + i + length ps
     then leaf_pte (ps ! (vpn a - (vpn virt + i))) MAP_FLAGS else pte_at (vm_mem v) r' a))"
  using assms
proof (induction ps arbitrary: i v)
  case (Cons p ps)
  have i: "i < i + length (p # ps)" by simp
  note rp = range_page [OF Cons.prems(3) i]
  from Cons.prems(1,2) canon_uva [OF rp(2)] show ?case
  proof (cases rule: vmm_map_page_in_cases [where phys = p and fl = MAP_FLAGS])
    case (fail s')
    then show ?thesis using Cons.prems(4) by simp
  next
    case (mapped w)
    define w' where "w' = w\<lparr>vm_pmm := pmm_ref_inc (vm_pmm w) p\<rparr>"
    have okw: "vm_ok R w" using grows_ok [OF mapped(2)] .
    then have ok': "vm_ok R w'"
      unfolding w'_def by (rule vm_ok_pmm) (use okw in \<open>simp_all add: ref_inc_facts vm_ok_def\<close>)
    have l: "shmat_loop cr3 virt (Suc i) ps w' = (True, v')" using Cons.prems(4) mapped(1) by (simp add: w'_def)
    have ur: "user_range virt (Suc i + length ps)" using Cons.prems(3) by simp
    note ih = Cons.IH [OF ok' Cons.prems(2) ur l]
    have "pte_at (vm_mem v') r' a =
       (if r' = addr_page cr3 \<and> vpn virt + i \<le> vpn a \<and> vpn a < vpn virt + i + length (p # ps)
        then leaf_pte ((p # ps) ! (vpn a - (vpn virt + i))) MAP_FLAGS else pte_at (vm_mem v) r' a)"
      if r': "r' \<in> R" and c: "canon a" for r' a
    proof -
      have 1: "pte_at (vm_mem v') r' a = (if r' = addr_page cr3 \<and> vpn virt + Suc i \<le> vpn a \<and> vpn a < vpn virt + Suc i + length ps
          then leaf_pte (ps ! (vpn a - (vpn virt + Suc i))) MAP_FLAGS else pte_at (vm_mem w) r' a)"
        using ih r' c by (simp add: w'_def)
      have 2: "pte_at (vm_mem w) r' a = (if r' = addr_page cr3 \<and> vpn a = vpn virt + i then leaf_pte p MAP_FLAGS else pte_at (vm_mem v) r' a)"
        using mapped(3) [OF r' canon_uva [OF c]] same_page_vpn [OF c rp(2)] rp(3) by simp
      consider "vpn a = vpn virt + i" | "vpn a < vpn virt + i" | "vpn virt + Suc i \<le> vpn a" by linarith
      then show ?thesis
      proof cases
        case 3
        then obtain d where "vpn a = vpn virt + Suc i + d" by (metis le_Suc_ex)
        then show ?thesis unfolding 1 2 by simp
      qed (simp_all add: 1 2)
    qed
    then show ?thesis using ih by blast
  qed
qed auto

lemma shmat_maps:
  assumes ok: "vm_ok R (m_vm s)" and p: "m_proc s = Some p" and r: "addr_page (mp_cr3 p) \<in> R"
    and i: "i < MAX_SHM_REGIONS" and reg: "reg = m_shm s ! i" "n = unat (sh_num reg)" "n \<le> length (sh_pages reg)"
    and u: "user_range (mp_next p) n" and run: "sys_shmat (word_of_nat i) s = (virt, s')" "virt \<noteq> 0"
  shows "virt = mp_next p \<and> vm_ok R (m_vm s') \<and> m_shm s' = (m_shm s)[i := reg\<lparr>sh_refs := sh_refs reg + 1\<rparr>]
    \<and> (\<forall>k<n. pte_at (vm_mem (m_vm s')) (addr_page (mp_cr3 p)) (virt + word_of_nat k * 4096) = leaf_pte (sh_pages reg ! k) MAP_FLAGS)
    \<and> (\<forall>r'\<in>R. \<forall>a. canon a \<and> \<not> (r' = addr_page (mp_cr3 p) \<and> in_range a virt n) \<longrightarrow>
         pte_at (vm_mem (m_vm s')) r' a = pte_at (vm_mem (m_vm s)) r' a)"
proof -
  have iw: "unat (word_of_nat i :: u64) = i" "\<not> (word_of_nat MAX_SHM_REGIONS :: u64) \<le> word_of_nat i"
    using i by (simp_all add: MAX_SHM_REGIONS_def unat_of_nat take_bit_nat_eq_self word_le_nat_alt)
  let ?ps = "take n (sh_pages reg)"
  have key: "sh_key reg \<noteq> -1" using run iw by (auto simp: sys_shmat_def reg(1) [symmetric])
  obtain slot where slot: "free_entry p = Some slot"
    using run iw p key by (cases "free_entry p") (auto simp: sys_shmat_def Let_def reg(1) [symmetric])
  obtain okay v where l: "shmat_loop (mp_cr3 p) (mp_next p) 0 ?ps (m_vm s) = (okay, v)" by fastforce
  have "okay" using run iw p key slot l by (auto simp: sys_shmat_def Let_def reg(1,2) [symmetric] split: bool.splits)
  then have s': "virt = mp_next p" "m_vm s' = v" "m_shm s' = (m_shm s)[i := reg\<lparr>sh_refs := sh_refs reg + 1\<rparr>]"
    using run(1) iw p key slot l by (auto simp: sys_shmat_def Let_def reg(1,2) [symmetric])
  have ln: "length ?ps = n" using reg(3) by simp
  have sp: "vm_ok R v" "\<And>r' a. r' \<in> R \<Longrightarrow> canon a \<Longrightarrow> pte_at (vm_mem v) r' a =
      (if r' = addr_page (mp_cr3 p) \<and> in_range a virt n then leaf_pte (?ps ! (vpn a - vpn virt)) MAP_FLAGS
       else pte_at (vm_mem (m_vm s)) r' a)"
    using shmat_loop_spec [OF ok r, of virt 0 ?ps v] l \<open>okay\<close> u ln s'(1) in_range_vpn [OF u] by auto
  have "pte_at (vm_mem v) (addr_page (mp_cr3 p)) (virt + word_of_nat k * 4096) = leaf_pte (sh_pages reg ! k) MAP_FLAGS" if "k < n" for k
    using sp(2) [OF r] range_page [OF u that] in_range_vpn [OF u] that s'(1) by simp
  then show ?thesis using s' sp by auto
qed

text \<open>The two critical sections of sys_shmget: a slot is visible under its key before its pages are
allocated. A call of sys_shmat in between maps whatever the slot held before, user-writable: after
boot and after the release of a region that is the physical page 0.\<close>

lemma shmat_between_reserve_and_fill:
  assumes ok: "vm_ok R (m_vm s)" and p: "m_proc s = Some p" and r: "addr_page (mp_cr3 p) \<in> R"
    and rsv: "shmget_reserve key np (m_shm s) = (Inr (False, slot), t)" "np \<noteq> 0" "np \<le> 16"
    and sh: "length (m_shm s) = MAX_SHM_REGIONS" "sh_pages (m_shm s ! slot) = replicate 16 0"
    and u: "user_range (mp_next p) 16" and run: "sys_shmat (word_of_nat slot) (s\<lparr>m_shm := t\<rparr>) = (virt, s')" "virt \<noteq> 0"
  shows "pte_at (vm_mem (m_vm s')) (addr_page (mp_cr3 p)) virt = leaf_pte 0 MAP_FLAGS"
proof -
  have slot: "slot < MAX_SHM_REGIONS" "t ! slot = (m_shm s ! slot)\<lparr>sh_key := key, sh_num := ucast np, sh_refs := 0\<rparr>"
    using rsv(1) sh(1) by (auto simp: shmget_reserve_def split: option.splits dest: find_index_SomeD)
  have n: "unat (ucast np :: u32) = unat np" "unat np \<le> 16" "0 < unat np"
    using rsv(2,3) by (auto simp: word_le_nat_alt unsigned_ucast_eq unat_gt_0 intro!: take_bit_nat_eq_self)
  have u': "user_range (mp_next p) (unat np)" using u n(2) by (auto simp: user_range_def)
  have "\<forall>k<unat np. pte_at (vm_mem (m_vm s')) (addr_page (mp_cr3 p)) (virt + word_of_nat k * 4096) = leaf_pte (sh_pages (t ! slot) ! k) MAP_FLAGS"
    using shmat_maps [of R "s\<lparr>m_shm := t\<rparr>" p slot "t ! slot" "unat np" virt s'] ok p r slot n sh(2) u' run by auto
  from this [rule_format, OF n(3)] show ?thesis using slot(2) sh(2) by simp
qed

end
