(* ===== verification/Task_Graph.thy ===== *)
theory Task_Graph
  imports Cap_Token
begin

text \<open>
  Workflow tasks, \<^verbatim>\<open>kernel/src/ipc/taskgraph.{h,c}\<close>: 32 task slots, each with up to four
  dependencies on other tasks; a task may start only when its dependencies are done, and a
  dependency into another namespace needs \<^verbatim>\<open>CAP_XNS_TASK\<close> or a capability token for it.
\<close>

section \<open>State\<close>

datatype task_state = TASK_PENDING | TASK_RUNNING | TASK_DONE | TASK_FAILED

record workflow_task =
  wt_id :: u32
  wt_owner_pid :: u64
  wt_worker_pid :: u64
  wt_name :: string
  wt_ns_id :: u32
  wt_deps :: "u32 list"
  wt_dep_count :: nat
  wt_status :: task_state
  wt_result :: "32 word"
  wt_used :: bool

record task_status =
  ts_id :: u32
  ts_status :: task_state
  ts_dep_count :: nat
  ts_result :: "32 word"
  ts_deps :: "u32 list"
  ts_name :: string

record task_graph =
  tasks :: "workflow_task list"
  next_task_id :: u32

definition MAX_TASKS :: nat where "MAX_TASKS = 32"
definition MAX_TASK_DEPS :: nat where "MAX_TASK_DEPS = 4"
definition TASK_NAME_MAX :: nat where "TASK_NAME_MAX = 32"

definition CAP_XNS_TASK :: u32 where "CAP_XNS_TASK = push_bit 9 1"

definition task_zero :: workflow_task where
  "task_zero = \<lparr>wt_id = 0, wt_owner_pid = 0, wt_worker_pid = 0, wt_name = replicate TASK_NAME_MAX NUL,
     wt_ns_id = 0, wt_deps = replicate MAX_TASK_DEPS 0, wt_dep_count = 0, wt_status = TASK_PENDING,
     wt_result = 0, wt_used = False\<rparr>"

definition task_boot :: task_graph where
  "task_boot = \<lparr>tasks = replicate MAX_TASKS task_zero, next_task_id = 1\<rparr>"

section \<open>Operations\<close>

definition find_task :: "u32 \<Rightarrow> task_graph \<Rightarrow> nat option" where
  "find_task tid g = lookup_slot wt_used wt_id tid (tasks g)"

fun task_init :: "u32 \<times> string option \<times> u32 \<times> u64 \<Rightarrow> workflow_task \<Rightarrow> workflow_task" where
  "task_init (tid, name, ns, owner) t =
     t\<lparr>wt_used := True, wt_id := tid, wt_owner_pid := owner, wt_worker_pid := 0, wt_ns_id := ns,
       wt_dep_count := 0, wt_status := TASK_PENDING, wt_result := 0,
       wt_name := str_copy (wt_name t) (opt_str name) TASK_NAME_MAX,
       wt_deps := map (\<lambda>_. 0) (wt_deps t)\<rparr>"

definition task_clear :: "workflow_task \<Rightarrow> workflow_task" where
  "task_clear t = t\<lparr>wt_used := False\<rparr>"

definition taskgraph_create :: "string option \<Rightarrow> u32 \<Rightarrow> u64 \<Rightarrow> task_graph \<Rightarrow> u32 ret \<times> task_graph" where
  "taskgraph_create name ns_id owner_pid g =
     (case alloc_slot wt_used (task_init (next_task_id g, name, ns_id, owner_pid)) (tasks g) of
        None \<Rightarrow> (Inl ENOMEM, g)
      | Some (i, ts) \<Rightarrow>
          (Inr (next_task_id g), g\<lparr>tasks := ts, next_task_id := next_task_id g + 1\<rparr>))"

text \<open>
  The resource name \<^verbatim>\<open>ns/<n>\<close> the kernel checks tokens against, with its own two-digit
  conversion: from ten on it writes the quotient and the remainder by ten as characters.
\<close>

definition digit_char :: "nat \<Rightarrow> char" where
  "digit_char n = char_of (48 + n)"

definition ns_resource :: "u32 \<Rightarrow> string" where
  "ns_resource ns =
     (if ns < 10 then ''ns/'' @ [digit_char (unat ns)]
      else ''ns/'' @ [digit_char (unat ns div 10), digit_char (unat ns mod 10)])"

text \<open>The checks both critical sections of \<^verbatim>\<open>taskgraph_depend\<close> make, in the order of the second.\<close>

definition depend_validate :: "u32 \<Rightarrow> u32 \<Rightarrow> u64 \<Rightarrow> task_graph \<Rightarrow> (nat \<times> nat) ret" where
  "depend_validate task_id dep_id caller_pid g =
     (case (find_task task_id g, find_task dep_id g) of
        (Some i, Some j) \<Rightarrow>
          if wt_owner_pid (tasks g ! i) \<noteq> caller_pid then Inl EPERM
          else if wt_status (tasks g ! i) \<noteq> TASK_PENDING then Inl EINVAL
          else Inr (i, j)
      | _ \<Rightarrow> Inl ENOENT)"

text \<open>The tail of the function, under the lock, on the task in slot \<open>i\<close>.\<close>

definition depend_add :: "u32 \<Rightarrow> u32 \<Rightarrow> nat \<Rightarrow> task_graph \<Rightarrow> unit ret \<times> task_graph" where
  "depend_add task_id dep_id i g =
     (let t = tasks g ! i in
      if task_id = dep_id then (Inl EINVAL, g)
      else if wt_dep_count t \<ge> MAX_TASK_DEPS then (Inl ENOMEM, g)
      else if dep_id \<in> set (take (wt_dep_count t) (wt_deps t)) then (Inr (), g)
      else (Inr (), g\<lparr>tasks := (tasks g)[i :=
              t\<lparr>wt_deps := (wt_deps t)[wt_dep_count t := dep_id],
                wt_dep_count := wt_dep_count t + 1\<rparr>]\<rparr>))"

definition taskgraph_depend ::
  "u32 \<Rightarrow> u32 \<Rightarrow> u64 \<Rightarrow> u32 \<Rightarrow> token_state \<Rightarrow> task_graph \<Rightarrow> unit ret \<times> task_graph" where
  "taskgraph_depend task_id dep_id caller_pid caller_caps toks g =
     (case find_task task_id g of
        None \<Rightarrow> (Inl ENOENT, g)
      | Some i \<Rightarrow>
          if wt_owner_pid (tasks g ! i) \<noteq> caller_pid then (Inl EPERM, g)
          else if wt_status (tasks g ! i) \<noteq> TASK_PENDING then (Inl EINVAL, g)
          else case find_task dep_id g of
            None \<Rightarrow> (Inl ENOENT, g)
          | Some j \<Rightarrow>
              if wt_ns_id (tasks g ! j) \<noteq> wt_ns_id (tasks g ! i) then
                if caller_caps AND CAP_XNS_TASK = 0 \<and>
                   \<not> cap_token_check caller_pid CAP_XNS_TASK
                        (Some (ns_resource (wt_ns_id (tasks g ! j)))) toks
                then (Inl EPERM, g)
                else case depend_validate task_id dep_id caller_pid g of
                       Inl e \<Rightarrow> (Inl e, g)
                     | Inr (i', _) \<Rightarrow> depend_add task_id dep_id i' g
              else depend_add task_id dep_id i g)"

definition dep_ready :: "task_graph \<Rightarrow> u32 \<Rightarrow> bool" where
  "dep_ready g d = (case find_task d g of None \<Rightarrow> False | Some j \<Rightarrow> wt_status (tasks g ! j) = TASK_DONE)"

definition taskgraph_start :: "u32 \<Rightarrow> u64 \<Rightarrow> task_graph \<Rightarrow> unit ret \<times> task_graph" where
  "taskgraph_start task_id caller_pid g =
     (case find_task task_id g of
        None \<Rightarrow> (Inl ENOENT, g)
      | Some i \<Rightarrow>
          let t = tasks g ! i in
          if wt_status t \<noteq> TASK_PENDING then (Inl EINVAL, g)
          else if \<not> list_all (dep_ready g) (take (wt_dep_count t) (wt_deps t)) then (Inl EAGAIN, g)
          else (Inr (), g\<lparr>tasks := (tasks g)[i :=
                  t\<lparr>wt_status := TASK_RUNNING, wt_worker_pid := caller_pid\<rparr>]\<rparr>))"

definition taskgraph_complete ::
  "u32 \<Rightarrow> 32 word \<Rightarrow> u64 \<Rightarrow> u32 \<Rightarrow> task_graph \<Rightarrow> unit ret \<times> task_graph" where
  "taskgraph_complete task_id result caller_pid caller_ns_id g =
     (case find_task task_id g of
        None \<Rightarrow> (Inl ENOENT, g)
      | Some i \<Rightarrow>
          let t = tasks g ! i in
          if wt_owner_pid t \<noteq> caller_pid \<and> wt_worker_pid t \<noteq> caller_pid \<and> wt_ns_id t \<noteq> caller_ns_id
          then (Inl EPERM, g)
          else (Inr (), g\<lparr>tasks := (tasks g)[i :=
                  t\<lparr>wt_status := (if 0 \<le>s result then TASK_DONE else TASK_FAILED),
                    wt_result := result\<rparr>]\<rparr>))"

definition taskgraph_status :: "u32 \<Rightarrow> task_graph \<Rightarrow> task_status ret" where
  "taskgraph_status task_id g =
     (case find_task task_id g of
        None \<Rightarrow> Inl ENOENT
      | Some i \<Rightarrow>
          let t = tasks g ! i in
          Inr \<lparr>ts_id = wt_id t, ts_status = wt_status t, ts_dep_count = wt_dep_count t,
               ts_result = wt_result t, ts_deps = wt_deps t, ts_name = wt_name t\<rparr>)"

definition taskgraph_is_done :: "u32 \<Rightarrow> task_graph \<Rightarrow> bool" where
  "taskgraph_is_done task_id g =
     (case find_task task_id g of
        None \<Rightarrow> True
      | Some i \<Rightarrow> wt_status (tasks g ! i) = TASK_DONE \<or> wt_status (tasks g ! i) = TASK_FAILED)"

definition taskgraph_cleanup_pid :: "u64 \<Rightarrow> task_graph \<Rightarrow> task_graph" where
  "taskgraph_cleanup_pid pid g =
     g\<lparr>tasks := release_where wt_used task_clear (\<lambda>t. wt_owner_pid t = pid) (tasks g)\<rparr>"

section \<open>The table contract\<close>

interpretation task: keyed_table wt_used task_init task_clear wt_id fst
proof unfold_locales
  fix a e show "wt_used (task_init a e)" by (cases a) simp
next
  fix e show "\<not> wt_used (task_clear e)" by (simp add: task_clear_def)
next
  fix a e show "wt_id (task_init a e) = fst a" by (cases a) simp
qed

lemma task_clear_simps [simp]:
  "wt_id (task_clear t) = wt_id t" "wt_deps (task_clear t) = wt_deps t"
  "wt_dep_count (task_clear t) = wt_dep_count t" "wt_status (task_clear t) = wt_status t"
  "\<not> wt_used (task_clear t)"
  by (simp_all add: task_clear_def)

text \<open>The dependencies of a task are the first \<open>wt_dep_count\<close> entries of its array.\<close>

definition task_deps :: "workflow_task \<Rightarrow> u32 list" where
  "task_deps t = take (wt_dep_count t) (wt_deps t)"

definition task_ok :: "u32 \<Rightarrow> workflow_task \<Rightarrow> bool" where
  "task_ok n t \<longleftrightarrow> length (wt_deps t) = MAX_TASK_DEPS \<and> wt_dep_count t \<le> MAX_TASK_DEPS \<and>
     length (wt_name t) = TASK_NAME_MAX \<and>
     (wt_used t \<longrightarrow> wt_id t < n \<and> distinct (task_deps t) \<and> wt_id t \<notin> set (task_deps t) \<and>
        (\<forall>d \<in> set (task_deps t). d < n))"

definition task_inv :: "task_graph \<Rightarrow> bool" where
  "task_inv g \<longleftrightarrow> length (tasks g) = MAX_TASKS \<and> uniq_keys wt_used wt_id (tasks g) \<and>
     (\<forall>t \<in> set (tasks g). task_ok (next_task_id g) t)"

section \<open>The invariant under every operation\<close>

lemma find_task_SomeD:
  "find_task tid g = Some i \<Longrightarrow> i < length (tasks g) \<and> wt_used (tasks g ! i) \<and> wt_id (tasks g ! i) = tid"
  unfolding find_task_def by (rule lookup_slot_SomeD)

lemma find_task_uniq:
  "task_inv g \<Longrightarrow> i < length (tasks g) \<Longrightarrow> wt_used (tasks g ! i) \<Longrightarrow>
   find_task (wt_id (tasks g ! i)) g = Some i"
  unfolding find_task_def task_inv_def by (intro lookup_slot_uniq) auto

text \<open>Rewriting one live task, keeping its identity, cannot disturb the lookup of any task.\<close>

lemma find_task_update:
  assumes "find_task tid g = Some i" and "wt_used t" and "wt_id t = tid"
  shows "find_task x (g\<lparr>tasks := (tasks g)[i := t]\<rparr>) = find_task x g"
proof -
  have "map (\<lambda>e. wt_used e \<and> wt_id e = x) ((tasks g)[i := t])
      = map (\<lambda>e. wt_used e \<and> wt_id e = x) (tasks g)"
    using find_task_SomeD [OF assms(1)] assms(2,3)
    by (intro nth_equalityI) (auto simp: nth_list_update_if)
  from find_index_cong [OF this] show ?thesis by (simp add: find_task_def lookup_slot_def)
qed

lemma task_inv_update:
  assumes inv: "task_inv g" and i: "find_task tid g = Some i"
    and t: "wt_used t" "wt_id t = tid" "task_ok (next_task_id g) t"
  shows "task_inv (g\<lparr>tasks := (tasks g)[i := t]\<rparr>)"
proof -
  have f: "i < length (tasks g)" "wt_used (tasks g ! i)" "wt_id (tasks g ! i) = tid"
    using find_task_SomeD [OF i] by auto
  have "uniq_keys wt_used wt_id ((tasks g)[i := t])"
    using inv f t unfolding task_inv_def uniq_keys_def by (auto simp: nth_list_update)
  moreover have "task_ok (next_task_id g) x" if "x \<in> set ((tasks g)[i := t])" for x
    using that set_update_subset_insert [of "tasks g" i t] inv t by (auto simp: task_inv_def)
  ultimately show ?thesis using inv by (simp add: task_inv_def)
qed

lemma task_ok_nth: "task_inv g \<Longrightarrow> i < length (tasks g) \<Longrightarrow> task_ok (next_task_id g) (tasks g ! i)"
  by (simp add: task_inv_def)

lemma task_inv_boot: "task_inv task_boot"
  by (simp add: task_inv_def task_boot_def task_zero_def task_ok_def uniq_keys_def)

lemma taskgraph_create_InrD:
  assumes "taskgraph_create name ns owner g = (Inr n, g')"
  obtains i where "alloc_slot wt_used (task_init (n, name, ns, owner)) (tasks g)
      = Some (i, (tasks g)[i := task_init (n, name, ns, owner) (tasks g ! i)])"
    "i < length (tasks g)" "\<not> wt_used (tasks g ! i)" "n = next_task_id g"
    "g' = g\<lparr>tasks := (tasks g)[i := task_init (n, name, ns, owner) (tasks g ! i)],
           next_task_id := n + 1\<rparr>"
proof -
  note rule = that
  obtain i ts where al: "alloc_slot wt_used (task_init (next_task_id g, name, ns, owner)) (tasks g)
      = Some (i, ts)" and g': "n = next_task_id g" "g' = g\<lparr>tasks := ts, next_task_id := n + 1\<rparr>"
    using assms by (auto simp: taskgraph_create_def split: option.splits)
  then show thesis using alloc_slot_SomeD [OF al] by (intro rule [of i]) auto
qed

lemma task_ok_mono: "task_ok n t \<Longrightarrow> n \<le> m \<Longrightarrow> task_ok m t"
  unfolding task_ok_def by (auto intro: less_le_trans)

lemma task_inv_create:
  assumes inv: "task_inv g" and wrap: "next_task_id g + 1 \<noteq> 0"
    and run: "taskgraph_create name ns owner g = (r, g')"
  shows "task_inv g'"
proof (cases r)
  case (Inl e)
  then show ?thesis using run inv by (auto simp: taskgraph_create_def split: option.splits)
next
  case (Inr n)
  obtain i where al: "alloc_slot wt_used (task_init (n, name, ns, owner)) (tasks g)
      = Some (i, (tasks g)[i := task_init (n, name, ns, owner) (tasks g ! i)])"
    and i: "i < length (tasks g)" "n = next_task_id g"
    and g': "g' = g\<lparr>tasks := (tasks g)[i := task_init (n, name, ns, owner) (tasks g ! i)],
           next_task_id := n + 1\<rparr>"
    using taskgraph_create_InrD [OF run [unfolded Inr]] by metis
  let ?t = "task_init (n, name, ns, owner) (tasks g ! i)"
  have n: "next_task_id g < next_task_id g + 1" using wrap by (simp add: word_less_inc_iff)
  have "wt_id e \<noteq> n" if "e \<in> set (tasks g)" "wt_used e" for e
  proof -
    have "task_ok (next_task_id g) e" using inv that(1) by (simp add: task_inv_def)
    then have "wt_id e < n" using that(2) i(2) by (simp add: task_ok_def)
    then show ?thesis by simp
  qed
  then have fresh: "lookup_slot wt_used wt_id (fst (n, name, ns, owner)) (tasks g) = None"
    by (simp add: lookup_slot_None_iff)
  have "uniq_keys wt_used wt_id (tasks g)" using inv by (simp add: task_inv_def)
  then have u: "uniq_keys wt_used wt_id ((tasks g)[i := ?t])"
    by (rule task.alloc_uniq [OF _ fresh al])
  have "task_ok (n + 1) ?t"
    using task_ok_nth [OF inv i(1)] n i(2) by (simp add: task_ok_def task_deps_def)
  moreover have "task_ok (n + 1) x" if "x \<in> set (tasks g)" for x
    using that inv n i(2) by (auto simp: task_inv_def intro: task_ok_mono)
  ultimately have "task_ok (n + 1) x" if "x \<in> set ((tasks g)[i := ?t])" for x
    using that set_update_subset_insert [of "tasks g" i ?t] by blast
  then show ?thesis using g' u inv by (simp add: task_inv_def del: task_init.simps)
qed

lemma depend_add_cases:
  assumes "depend_add tid did i g = (r, g')"
  shows "g' = g \<or> (r = Inr () \<and> tid \<noteq> did \<and> wt_dep_count (tasks g ! i) < MAX_TASK_DEPS \<and>
     did \<notin> set (task_deps (tasks g ! i)) \<and>
     g' = g\<lparr>tasks := (tasks g)[i := (tasks g ! i)
        \<lparr>wt_deps := (wt_deps (tasks g ! i))[wt_dep_count (tasks g ! i) := did],
         wt_dep_count := wt_dep_count (tasks g ! i) + 1\<rparr>]\<rparr>)"
  using assms by (auto simp: depend_add_def task_deps_def Let_def not_le split: if_splits)

lemma task_deps_add:
  assumes "length (wt_deps t) = MAX_TASK_DEPS" and "wt_dep_count t < MAX_TASK_DEPS"
  shows "task_deps (t\<lparr>wt_deps := (wt_deps t)[wt_dep_count t := d], wt_dep_count := wt_dep_count t + 1\<rparr>)
     = task_deps t @ [d]"
  using assms by (simp add: task_deps_def take_Suc_conv_app_nth)

text \<open>What a \<^verbatim>\<open>taskgraph_depend\<close> that returns zero has established.\<close>

lemma taskgraph_depend_InrD:
  assumes run: "taskgraph_depend tid did pid caps toks g = (Inr (), g')"
  obtains i j where "find_task tid g = Some i" "find_task did g = Some j"
    "wt_owner_pid (tasks g ! i) = pid" "wt_status (tasks g ! i) = TASK_PENDING"
    "wt_ns_id (tasks g ! j) = wt_ns_id (tasks g ! i) \<or> caps AND CAP_XNS_TASK \<noteq> 0 \<or>
       cap_token_check pid CAP_XNS_TASK (Some (ns_resource (wt_ns_id (tasks g ! j)))) toks"
    "depend_add tid did i g = (Inr (), g')"
proof -
  note rule = that
  obtain i where i: "find_task tid g = Some i"
    using run by (auto simp: taskgraph_depend_def split: option.splits)
  have ow: "wt_owner_pid (tasks g ! i) = pid"
    using run by (simp add: taskgraph_depend_def i split: if_splits)
  have pe: "wt_status (tasks g ! i) = TASK_PENDING"
    using run by (simp add: taskgraph_depend_def i ow split: if_splits)
  obtain j where j: "find_task did g = Some j"
    using run by (auto simp: taskgraph_depend_def i ow pe split: option.splits)
  have "depend_validate tid did pid g = Inr (i, j)"
    by (simp add: depend_validate_def i j ow pe)
  then show thesis
    using run by (intro rule [OF i j ow pe])
      (auto simp: taskgraph_depend_def i j ow pe split: if_splits)
qed

lemma taskgraph_depend_errD:
  "taskgraph_depend tid did pid caps toks g = (Inl e, g') \<Longrightarrow> g' = g"
  by (auto simp: taskgraph_depend_def depend_add_def Let_def
      split: option.splits if_splits sum.splits prod.splits)

lemma task_inv_depend:
  assumes inv: "task_inv g" and run: "taskgraph_depend tid did pid caps toks g = (r, g')"
  shows "task_inv g'"
proof (cases r)
  case (Inl e)
  then show ?thesis using taskgraph_depend_errD run inv by blast
next
  case (Inr u)
  then have run': "taskgraph_depend tid did pid caps toks g = (Inr (), g')" using run by simp
  obtain i j where i: "find_task tid g = Some i" and j: "find_task did g = Some j"
    and add: "depend_add tid did i g = (Inr (), g')"
    using taskgraph_depend_InrD [OF run'] by metis
  let ?t = "tasks g ! i"
  have ok: "task_ok (next_task_id g) ?t" and okj: "task_ok (next_task_id g) (tasks g ! j)"
    using task_ok_nth [OF inv] find_task_SomeD [OF i] find_task_SomeD [OF j] by auto
  have idj: "wt_id (tasks g ! j) = did" "wt_used (tasks g ! j)" and idi: "wt_id ?t = tid" "wt_used ?t"
    using find_task_SomeD [OF i] find_task_SomeD [OF j] by auto
  from depend_add_cases [OF add] show ?thesis
  proof
    assume "g' = g" then show ?thesis using inv by simp
  next
    let ?t' = "?t\<lparr>wt_deps := (wt_deps ?t)[wt_dep_count ?t := did], wt_dep_count := wt_dep_count ?t + 1\<rparr>"
    assume *: "Inr () = Inr () \<and> tid \<noteq> did \<and> wt_dep_count ?t < MAX_TASK_DEPS \<and>
      did \<notin> set (task_deps ?t) \<and> g' = g\<lparr>tasks := (tasks g)[i := ?t']\<rparr>"
    then have "task_deps ?t' = task_deps ?t @ [did]"
      using ok by (intro task_deps_add) (auto simp: task_ok_def)
    then have "task_ok (next_task_id g) ?t'"
      using ok okj * idi idj by (auto simp: task_ok_def)
    then show ?thesis using * idi by (auto intro: task_inv_update [OF inv i])
  qed
qed

lemma task_inv_start:
  assumes inv: "task_inv g" and run: "taskgraph_start tid pid g = (r, g')"
  shows "task_inv g'"
proof (cases "g' = g")
  case True
  then show ?thesis using inv by simp
next
  case False
  then obtain i where i: "find_task tid g = Some i"
    and g': "g' = g\<lparr>tasks := (tasks g)[i :=
       (tasks g ! i)\<lparr>wt_status := TASK_RUNNING, wt_worker_pid := pid\<rparr>]\<rparr>"
    using run by (auto simp: taskgraph_start_def Let_def split: option.splits if_splits)
  show ?thesis
    unfolding g' using find_task_SomeD [OF i] task_ok_nth [OF inv]
    by (intro task_inv_update [OF inv i]) (auto simp: task_ok_def task_deps_def)
qed

lemma taskgraph_complete_cases:
  assumes "taskgraph_complete tid res pid ns g = (r, g')"
  shows "g' = g \<or> (\<exists>i. find_task tid g = Some i \<and> g' = g\<lparr>tasks := (tasks g)[i :=
     (tasks g ! i)\<lparr>wt_status := (if 0 \<le>s res then TASK_DONE else TASK_FAILED), wt_result := res\<rparr>]\<rparr>)"
  using assms by (auto simp: taskgraph_complete_def Let_def split: option.splits if_splits)

lemma task_inv_complete:
  assumes inv: "task_inv g" and run: "taskgraph_complete tid res pid ns g = (r, g')"
  shows "task_inv g'"
  using taskgraph_complete_cases [OF run]
proof (elim disjE exE conjE)
  fix i
  assume i: "find_task tid g = Some i" and g': "g' = g\<lparr>tasks := (tasks g)[i := (tasks g ! i)
     \<lparr>wt_status := (if 0 \<le>s res then TASK_DONE else TASK_FAILED), wt_result := res\<rparr>]\<rparr>"
  show ?thesis
    unfolding g' using find_task_SomeD [OF i] task_ok_nth [OF inv]
    by (intro task_inv_update [OF inv i]) (auto simp: task_ok_def task_deps_def)
qed (use inv in simp)

lemma task_ok_clear: "task_ok n t \<Longrightarrow> task_ok n (task_clear t)"
  by (simp add: task_ok_def task_clear_def)

lemma task_inv_cleanup: "task_inv g \<Longrightarrow> task_inv (taskgraph_cleanup_pid pid g)"
  using task.release_uniq [of "tasks g" "\<lambda>t. wt_owner_pid t = pid"]
  by (auto simp: task_inv_def taskgraph_cleanup_pid_def release_where_def intro: task_ok_clear)

section \<open>Runs of operations\<close>

text \<open>
  The calls the rest of the kernel makes on the task graph, one after another: each operation is
  one critical section of the task lock, so every interleaving of processes is such a sequence.
\<close>

datatype task_op =
    Create "string option" u32 u64
  | Depend u32 u32 u64 u32 token_state
  | Start u32 u64
  | Complete u32 "32 word" u64 u32
  | Cleanup u64

fun task_exec :: "task_op \<Rightarrow> task_graph \<Rightarrow> task_graph" where
  "task_exec (Create name ns owner) g = snd (taskgraph_create name ns owner g)"
| "task_exec (Depend tid did pid caps toks) g = snd (taskgraph_depend tid did pid caps toks g)"
| "task_exec (Start tid pid) g = snd (taskgraph_start tid pid g)"
| "task_exec (Complete tid res pid ns) g = snd (taskgraph_complete tid res pid ns g)"
| "task_exec (Cleanup pid) g = taskgraph_cleanup_pid pid g"

definition task_run :: "task_op list \<Rightarrow> task_graph \<Rightarrow> task_graph" where
  "task_run ops g = fold task_exec ops g"

lemma task_inv_exec:
  assumes "task_inv g" and "next_task_id g + 1 \<noteq> 0"
  shows "task_inv (task_exec op g)"
proof (cases op)
  case (Create name ns owner)
  then show ?thesis using task_inv_create [OF assms] by (metis prod.collapse task_exec.simps(1))
next
  case (Depend tid did pid caps toks)
  then show ?thesis using task_inv_depend [OF assms(1)] by (metis prod.collapse task_exec.simps(2))
next
  case (Start tid pid)
  then show ?thesis using task_inv_start [OF assms(1)] by (metis prod.collapse task_exec.simps(3))
next
  case (Complete tid res pid ns)
  then show ?thesis using task_inv_complete [OF assms(1)] by (metis prod.collapse task_exec.simps(4))
next
  case (Cleanup pid)
  then show ?thesis using task_inv_cleanup [OF assms(1)] by simp
qed

lemma task_exec_next:
  "next_task_id (task_exec op g) = next_task_id g \<or>
   next_task_id (task_exec op g) = next_task_id g + 1"
proof (cases op)
  case (Depend tid did pid caps toks)
  have "next_task_id (snd (depend_add tid did i g)) = next_task_id g" for i
    by (simp add: depend_add_def Let_def)
  then show ?thesis using Depend
    by (simp add: taskgraph_depend_def split: option.splits sum.splits prod.splits)
qed (auto simp: taskgraph_create_def taskgraph_start_def taskgraph_complete_def
    taskgraph_cleanup_pid_def Let_def split: option.splits)

lemma task_exec_next_unat:
  assumes "Suc (unat (next_task_id g)) < 2 ^ 32"
  shows "next_task_id g + 1 \<noteq> 0"
    and "unat (next_task_id (task_exec op g)) \<le> Suc (unat (next_task_id g))"
    and "next_task_id g \<le> next_task_id (task_exec op g)"
proof -
  have s: "unat (next_task_id g + 1) = Suc (unat (next_task_id g))"
    using assms by (simp add: unat_word_ariths)
  then show "next_task_id g + 1 \<noteq> 0" by (metis nat.distinct(1) unat_0)
  show "unat (next_task_id (task_exec op g)) \<le> Suc (unat (next_task_id g))"
    using task_exec_next [of op g] s by auto
  show "next_task_id g \<le> next_task_id (task_exec op g)"
    using task_exec_next [of op g] s by (auto simp: word_le_nat_alt)
qed

lemma task_inv_run:
  "task_inv g \<Longrightarrow> unat (next_task_id g) + length ops < 2 ^ 32 \<Longrightarrow> task_inv (task_run ops g)"
proof (induction ops arbitrary: g)
  case Nil
  then show ?case by (simp add: task_run_def)
next
  case (Cons op ops)
  have lt: "Suc (unat (next_task_id g)) < 2 ^ 32" using Cons.prems(2) by simp
  have "task_inv (task_exec op g)"
    by (rule task_inv_exec [OF Cons.prems(1) task_exec_next_unat(1) [OF lt]])
  moreover have "unat (next_task_id (task_exec op g)) + length ops < 2 ^ 32"
    using task_exec_next_unat(2) [OF lt, of op] Cons.prems(2) by simp
  ultimately show ?case using Cons.IH by (simp add: task_run_def)
qed

section \<open>The abstract view: a map from task ids to tasks\<close>

definition task_at :: "task_graph \<Rightarrow> u32 \<Rightarrow> workflow_task option" where
  "task_at g tid = map_option ((!) (tasks g)) (find_task tid g)"

lemma task_at_SomeD: "task_at g tid = Some t \<Longrightarrow> t \<in> set (tasks g) \<and> wt_used t \<and> wt_id t = tid"
  by (auto simp: task_at_def dest: find_task_SomeD)

lemma task_at_iff:
  assumes "task_inv g"
  shows "task_at g tid = Some t \<longleftrightarrow> t \<in> set (tasks g) \<and> wt_used t \<and> wt_id t = tid"
proof
  assume t: "t \<in> set (tasks g) \<and> wt_used t \<and> wt_id t = tid"
  then obtain i where "i < length (tasks g)" "tasks g ! i = t" by (auto simp: in_set_conv_nth)
  then show "task_at g tid = Some t" using find_task_uniq [OF assms, of i] t by (simp add: task_at_def)
qed (rule task_at_SomeD)

lemma task_at_update:
  assumes i: "find_task tid g = Some i" and t: "wt_used t" "wt_id t = tid"
  shows "task_at (g\<lparr>tasks := (tasks g)[i := t]\<rparr>) = (task_at g)(tid \<mapsto> t)"
proof
  fix x
  note f = find_task_update [OF i t, of x]
  show "task_at (g\<lparr>tasks := (tasks g)[i := t]\<rparr>) x = ((task_at g)(tid \<mapsto> t)) x"
  proof (cases "x = tid")
    case True
    then show ?thesis using i find_task_SomeD [OF i] f by (simp add: task_at_def)
  next
    case False
    have "j \<noteq> i" if "find_task x g = Some j" for j
    proof
      assume "j = i"
      then have "wt_id (tasks g ! i) = x" using find_task_SomeD [OF that] by blast
      then show False using find_task_SomeD [OF i] False by blast
    qed
    then show ?thesis using False f by (cases "find_task x g") (simp_all add: task_at_def)
  qed
qed

lemma task_at_create:
  assumes inv: "task_inv g" and run: "taskgraph_create name ns owner g = (r, g')"
    and x: "x < next_task_id g" and inv': "task_inv g'"
  shows "task_at g' x = Some t \<longleftrightarrow> task_at g x = Some t"
proof (cases r)
  case (Inl e)
  then show ?thesis using run by (auto simp: taskgraph_create_def split: option.splits)
next
  case (Inr n)
  obtain i where i: "i < length (tasks g)" "\<not> wt_used (tasks g ! i)" "n = next_task_id g"
    and g': "g' = g\<lparr>tasks := (tasks g)[i := task_init (n, name, ns, owner) (tasks g ! i)],
           next_task_id := n + 1\<rparr>"
    using taskgraph_create_InrD [OF run [unfolded Inr]] by metis
  have "e \<in> set (tasks g') \<and> wt_used e \<and> wt_id e = x \<longleftrightarrow> e \<in> set (tasks g) \<and> wt_used e \<and> wt_id e = x" for e
    using i x by (auto simp: g' in_set_conv_nth nth_list_update_if)
  then show ?thesis using task_at_iff [OF inv] task_at_iff [OF inv'] by blast
qed

lemma task_at_cleanup:
  assumes "task_inv g"
  shows "task_at (taskgraph_cleanup_pid pid g) x = Some t \<longleftrightarrow>
     task_at g x = Some t \<and> wt_owner_pid t \<noteq> pid"
proof -
  have "e \<in> set (tasks (taskgraph_cleanup_pid pid g)) \<and> wt_used e \<longleftrightarrow>
      e \<in> set (tasks g) \<and> wt_used e \<and> wt_owner_pid e \<noteq> pid" for e
    by (auto simp: taskgraph_cleanup_pid_def release_where_def)
  then show ?thesis
    using task_at_iff [OF assms] task_at_iff [OF task_inv_cleanup [OF assms]] by blast
qed

lemma task_at_complete:
  assumes "taskgraph_complete tid res pid ns g = (r, g')" and "x \<noteq> tid"
  shows "task_at g' x = task_at g x"
  using taskgraph_complete_cases [OF assms(1)]
proof (elim disjE exE conjE)
  fix i
  assume i: "find_task tid g = Some i" and g': "g' = g\<lparr>tasks := (tasks g)[i := (tasks g ! i)
     \<lparr>wt_status := (if 0 \<le>s res then TASK_DONE else TASK_FAILED), wt_result := res\<rparr>]\<rparr>"
  show ?thesis unfolding g'
    using find_task_SomeD [OF i] assms(2) by (subst task_at_update [OF i]) auto
qed simp

lemma task_at_depend:
  assumes inv: "task_inv g" and run: "taskgraph_depend tid did pid caps toks g = (r, g')"
    and at: "task_at g' x = Some t'"
  shows "\<exists>t. task_at g x = Some t \<and> wt_status t' = wt_status t \<and> set (task_deps t) \<subseteq> set (task_deps t')"
proof (cases "g' = g")
  case True
  then show ?thesis using at by auto
next
  case False
  then have run': "taskgraph_depend tid did pid caps toks g = (Inr (), g')"
    using run taskgraph_depend_errD by (cases r) auto
  obtain i where i: "find_task tid g = Some i" and add: "depend_add tid did i g = (Inr (), g')"
    using taskgraph_depend_InrD [OF run'] by metis
  let ?t = "tasks g ! i"
  let ?t' = "?t\<lparr>wt_deps := (wt_deps ?t)[wt_dep_count ?t := did], wt_dep_count := wt_dep_count ?t + 1\<rparr>"
  have g': "g' = g\<lparr>tasks := (tasks g)[i := ?t']\<rparr>" and lt: "wt_dep_count ?t < MAX_TASK_DEPS"
    using depend_add_cases [OF add] False by auto
  have f: "i < length (tasks g)" "wt_used ?t" "wt_id ?t = tid" using find_task_SomeD [OF i] by auto
  have deps: "task_deps ?t' = task_deps ?t @ [did]"
    using task_ok_nth [OF inv f(1)] lt by (intro task_deps_add) (auto simp: task_ok_def)
  have "task_at g' = (task_at g)(tid \<mapsto> ?t')" unfolding g' using f by (intro task_at_update [OF i]) auto
  then show ?thesis using at i deps by (cases "x = tid") (auto simp: task_at_def)
qed

lemma depend_added:
  assumes inv: "task_inv g" and i: "find_task tid g = Some i"
    and add: "depend_add tid did i g = (Inr (), g')" and st: "wt_status (tasks g ! i) = TASK_PENDING"
    and u: "task_at g did = Some u" "tid \<noteq> did"
  obtains t' where "task_at g' tid = Some t'" "did \<in> set (task_deps t')" "wt_status t' = TASK_PENDING"
    "task_at g' did = Some u"
proof (cases "did \<in> set (task_deps (tasks g ! i))")
  case True
  then have "g' = g" using add by (auto simp: depend_add_def task_deps_def Let_def split: if_splits)
  then show thesis using that [of "tasks g ! i"] True st u i by (simp add: task_at_def)
next
  case False
  let ?t = "tasks g ! i"
  let ?t' = "?t\<lparr>wt_deps := (wt_deps ?t)[wt_dep_count ?t := did], wt_dep_count := wt_dep_count ?t + 1\<rparr>"
  have g': "g' = g\<lparr>tasks := (tasks g)[i := ?t']\<rparr>" and lt: "wt_dep_count ?t < MAX_TASK_DEPS"
    using add False u(2) by (auto simp: depend_add_def task_deps_def Let_def split: if_splits)
  have f: "i < length (tasks g)" "wt_used ?t" "wt_id ?t = tid" using find_task_SomeD [OF i] by auto
  have deps: "task_deps ?t' = task_deps ?t @ [did]"
    using task_ok_nth [OF inv f(1)] lt by (intro task_deps_add) (auto simp: task_ok_def)
  have "task_at g' = (task_at g)(tid \<mapsto> ?t')" unfolding g' using f by (intro task_at_update [OF i]) auto
  then show thesis using that [of ?t'] deps st u by simp
qed

lemma dep_ready_iff: "dep_ready g d \<longleftrightarrow> (\<exists>u. task_at g d = Some u \<and> wt_status u = TASK_DONE)"
  by (auto simp: dep_ready_def task_at_def split: option.splits)

lemma taskgraph_start_at:
  "taskgraph_start tid pid g = (r, g') \<Longrightarrow>
   (case task_at g tid of
      None \<Rightarrow> r = Inl ENOENT \<and> g' = g
    | Some t \<Rightarrow>
        if wt_status t \<noteq> TASK_PENDING then r = Inl EINVAL \<and> g' = g
        else if \<exists>d \<in> set (task_deps t). \<not> dep_ready g d then r = Inl EAGAIN \<and> g' = g
        else r = Inr () \<and> task_at g' = (task_at g)(tid \<mapsto> t\<lparr>wt_status := TASK_RUNNING, wt_worker_pid := pid\<rparr>))"
proof (cases "find_task tid g")
  case (Some i)
  assume "taskgraph_start tid pid g = (r, g')"
  then show ?thesis
    using Some find_task_SomeD [OF Some] task_at_update [OF Some, of
        "(tasks g ! i)\<lparr>wt_status := TASK_RUNNING, wt_worker_pid := pid\<rparr>"]
    by (auto simp: taskgraph_start_def task_at_def task_deps_def list_all_iff Let_def split: if_splits)
qed (simp add: taskgraph_start_def task_at_def)

section \<open>Dependency cycles\<close>

text \<open>
  A set of task ids is stuck when every live member is pending and waits for a member. Nothing in
  \<^verbatim>\<open>taskgraph_depend\<close> prevents it: only a task's dependency on itself is refused.
\<close>

definition stuck :: "u32 set \<Rightarrow> task_graph \<Rightarrow> bool" where
  "stuck S g \<longleftrightarrow> (\<forall>x \<in> S. x < next_task_id g \<and>
     (\<forall>t. task_at g x = Some t \<longrightarrow> wt_status t = TASK_PENDING \<and> set (task_deps t) \<inter> S \<noteq> {}))"

fun completes :: "u32 set \<Rightarrow> task_op \<Rightarrow> bool" where
  "completes S (Complete tid _ _ _) = (tid \<in> S)"
| "completes S _ = False"

lemma stuckI:
  assumes "stuck S g" and "next_task_id g \<le> next_task_id g'"
    and "\<And>x t'. x \<in> S \<Longrightarrow> task_at g' x = Some t' \<Longrightarrow>
       \<exists>t. task_at g x = Some t \<and> wt_status t' = wt_status t \<and> set (task_deps t) \<subseteq> set (task_deps t')"
  shows "stuck S g'"
  unfolding stuck_def
proof (intro ballI conjI allI impI)
  fix x assume x: "x \<in> S"
  then show "x < next_task_id g'" using assms(1,2) unfolding stuck_def by (meson less_le_trans)
  fix t' assume "task_at g' x = Some t'"
  then obtain t where t: "task_at g x = Some t" "wt_status t' = wt_status t" "set (task_deps t) \<subseteq> set (task_deps t')"
    using assms(3) x by blast
  then show "wt_status t' = TASK_PENDING" using assms(1) x by (auto simp: stuck_def)
  have "set (task_deps t) \<inter> S \<noteq> {}" using assms(1) x t(1) by (auto simp: stuck_def)
  then show "set (task_deps t') \<inter> S \<noteq> {}" using t(3) by blast
qed

lemma stuck_start:
  assumes "stuck S g" and "taskgraph_start tid pid g = (r, g')" and x: "x \<in> S"
  shows "task_at g' x = task_at g x" and "tid = x \<Longrightarrow> r = Inl ENOENT \<or> r = Inl EAGAIN"
proof -
  have "\<exists>d \<in> set (task_deps t). \<not> dep_ready g d" if t: "task_at g x = Some t" for t
  proof -
    obtain d where d: "d \<in> set (task_deps t)" "d \<in> S" using assms(1) x t by (auto simp: stuck_def)
    have "\<not> dep_ready g d" using assms(1) d(2) by (auto simp: dep_ready_iff stuck_def)
    then show ?thesis using d(1) by blast
  qed
  moreover have "wt_status t = TASK_PENDING" if "task_at g x = Some t" for t
    using assms(1) x that by (auto simp: stuck_def)
  ultimately show "task_at g' x = task_at g x" "tid = x \<Longrightarrow> r = Inl ENOENT \<or> r = Inl EAGAIN"
    using taskgraph_start_at [OF assms(2)] by (auto split: option.splits if_splits)
qed

lemma stuck_exec:
  assumes inv: "task_inv g" and lt: "Suc (unat (next_task_id g)) < 2 ^ 32"
    and st: "stuck S g" and c: "\<not> completes S op"
  shows "stuck S (task_exec op g)"
proof (rule stuckI [OF st task_exec_next_unat(3) [OF lt]])
  fix x t' assume x: "x \<in> S" and at: "task_at (task_exec op g) x = Some t'"
  have inv': "task_inv (task_exec op g)" by (rule task_inv_exec [OF inv task_exec_next_unat(1) [OF lt]])
  show "\<exists>t. task_at g x = Some t \<and> wt_status t' = wt_status t \<and> set (task_deps t) \<subseteq> set (task_deps t')"
  proof (cases op)
    case (Create name ns owner)
    have "x < next_task_id g" using st x by (simp add: stuck_def)
    from task_at_create [OF inv _ this, of name ns owner "fst (taskgraph_create name ns owner g)"
        "task_exec op g" t'] show ?thesis using at inv' Create by simp
  next
    case (Depend tid did pid caps toks)
    then show ?thesis using task_at_depend [OF inv _ at, of tid did pid caps toks
        "fst (taskgraph_depend tid did pid caps toks g)"] by simp
  next
    case (Start tid pid)
    then have "task_at (task_exec op g) x = task_at g x"
      using stuck_start(1) [OF st _ x, of tid pid "fst (taskgraph_start tid pid g)" "task_exec op g"]
      by simp
    then have "task_at g x = Some t'" using at by simp
    then show ?thesis by blast
  next
    case (Complete tid res pid ns)
    then have "x \<noteq> tid" using c x by auto
    then have "task_at (task_exec op g) x = task_at g x"
      using task_at_complete [of tid res pid ns g
        "fst (taskgraph_complete tid res pid ns g)" "task_exec op g" x] Complete by simp
    then have "task_at g x = Some t'" using at by simp
    then show ?thesis by blast
  next
    case (Cleanup pid)
    then show ?thesis using at task_at_cleanup [OF inv, of pid x t'] by simp
  qed
qed

lemma stuck_run:
  "task_inv g \<Longrightarrow> unat (next_task_id g) + length ops < 2 ^ 32 \<Longrightarrow> stuck S g \<Longrightarrow>
   list_all (\<lambda>op. \<not> completes S op) ops \<Longrightarrow> stuck S (task_run ops g)"
proof (induction ops arbitrary: g)
  case Nil
  then show ?case by (simp add: task_run_def)
next
  case (Cons op ops)
  have lt: "Suc (unat (next_task_id g)) < 2 ^ 32" using Cons.prems(2) by simp
  have "task_inv (task_exec op g)"
    by (rule task_inv_exec [OF Cons.prems(1) task_exec_next_unat(1) [OF lt]])
  moreover have "unat (next_task_id (task_exec op g)) + length ops < 2 ^ 32"
    using task_exec_next_unat(2) [OF lt, of op] Cons.prems(2) by simp
  moreover have "stuck S (task_exec op g)" using stuck_exec [OF Cons.prems(1) lt Cons.prems(3)] Cons.prems(4) by simp
  ultimately show ?case using Cons.IH Cons.prems(4) by (simp add: task_run_def)
qed

section \<open>Properties\<close>

text \<open>A graph with two tasks of process 1 that wait for each other.\<close>

definition demo_cycle :: task_graph where
  "demo_cycle = task_run [Create (Some ''build'') 1 1, Create (Some ''deploy'') 1 1,
     Depend 1 2 1 0 token_boot, Depend 2 1 1 0 token_boot] task_boot"

lemma demo_cycle_facts:
  "task_inv demo_cycle" "next_task_id demo_cycle = 3" "stuck {1, 2} demo_cycle"
proof -
  show "task_inv demo_cycle"
    unfolding demo_cycle_def by (rule task_inv_run [OF task_inv_boot]) (simp add: task_boot_def)
  show n: "next_task_id demo_cycle = 3" by code_simp
  have t: "map_option wt_status (task_at demo_cycle 1) = Some TASK_PENDING"
    "map_option wt_status (task_at demo_cycle 2) = Some TASK_PENDING"
    "map_option task_deps (task_at demo_cycle 1) = Some [2]"
    "map_option task_deps (task_at demo_cycle 2) = Some [1]" by code_simp+
  show "stuck {1, 2} demo_cycle" using t n by (auto simp: stuck_def)
qed

text \<open>
  C9: \<^verbatim>\<open>taskgraph_start\<close> decides exactly the dependency rule: on the map from task ids to live
  tasks it succeeds if and only if the task is pending and every dependency is a live task that is
  done, each refusal has its own error and changes nothing, and success changes only the started
  task, which becomes running with the caller as its worker.
\<close>

theorem taskgraph_start_spec:
  "case (taskgraph_start tid pid g, task_at g tid) of
     ((r, g'), None) \<Rightarrow> r = Inl ENOENT \<and> g' = g
   | ((r, g'), Some t) \<Rightarrow>
       if wt_status t \<noteq> TASK_PENDING then r = Inl EINVAL \<and> g' = g
       else if \<exists>d. d \<in> set (task_deps t) \<and> map_option wt_status (task_at g d) \<noteq> Some TASK_DONE
       then r = Inl EAGAIN \<and> g' = g
       else r = Inr () \<and>
         task_at g' = (task_at g)(tid \<mapsto> t\<lparr>wt_status := TASK_RUNNING, wt_worker_pid := pid\<rparr>)"
proof -
  obtain r g' where run: "taskgraph_start tid pid g = (r, g')" by fastforce
  have d: "dep_ready g d \<longleftrightarrow> map_option wt_status (task_at g d) = Some TASK_DONE" for d
    by (cases "task_at g d") (auto simp: dep_ready_iff)
  show ?thesis
    using taskgraph_start_at [OF run]
    by (cases "task_at g tid") (simp_all only: run d prod.case option.case Bex_def)
qed

text \<open>
  C14: Along every run of fewer than 2^32 - 1 calls from boot the table is well formed: ids are
  unique among live tasks and below the next id, no task lists more than four dependencies, the
  same one twice, itself, or an id that was never given out.
\<close>

theorem task_graph_invariant:
  assumes "length ops < 2 ^ 32 - 1"
  shows "uniq_keys wt_used wt_id (tasks (task_run ops task_boot)) \<and>
     (\<forall>tid t. task_at (task_run ops task_boot) tid = Some t \<longrightarrow>
        tid < next_task_id (task_run ops task_boot) \<and>
        length (task_deps t) \<le> 4 \<and> distinct (task_deps t) \<and> tid \<notin> set (task_deps t) \<and>
        (\<forall>d \<in> set (task_deps t). d < next_task_id (task_run ops task_boot)))"
proof -
  have inv: "task_inv (task_run ops task_boot)"
    using assms by (intro task_inv_run [OF task_inv_boot]) (simp add: task_boot_def)
  have "task_ok (next_task_id (task_run ops task_boot)) t"
    if "task_at (task_run ops task_boot) tid = Some t" for tid t
    using inv task_at_SomeD [OF that] by (simp add: task_inv_def)
  then show ?thesis
    using inv task_at_SomeD [of "task_run ops task_boot"]
    by (force simp: task_inv_def task_ok_def task_deps_def MAX_TASK_DEPS_def)
qed

theorem task_graph_invariant_witness:
  "\<exists>t. task_at demo_cycle 1 = Some t \<and> task_deps t = [2] \<and> 2 < next_task_id demo_cycle"
proof -
  have m: "map_option task_deps (task_at demo_cycle 1) = Some [2]" by code_simp
  then obtain t where t: "task_at demo_cycle 1 = Some t" "task_deps t = [2]" by auto
  show ?thesis
    using task_graph_invariant [of "[Create (Some ''build'') 1 1, Create (Some ''deploy'') 1 1,
       Depend 1 2 1 0 token_boot, Depend 2 1 1 0 token_boot]"] t
    unfolding demo_cycle_def [symmetric] by simp
qed





text \<open>
  \<^verbatim>\<open>taskgraph_status\<close> copies the whole name buffer, but \<^verbatim>\<open>taskgraph_create\<close> only writes the
  new name and its terminator: the bytes after it are those of the task that had the slot before,
  so the status of a new task shows the tail of another process's task name.
\<close>

theorem task_status_leaks_old_name:
  assumes "task_inv g" and "taskgraph_create name ns owner g = (Inr n, g')"
    and "taskgraph_status n g' = Inr st" and "next_task_id g + 1 \<noteq> 0"
  shows "\<exists>i < length (tasks g). \<not> wt_used (tasks g ! i) \<and>
     cstr (ts_name st) = take (TASK_NAME_MAX - 1) (cstr (opt_str name)) \<and>
     drop (Suc (length (cstr (ts_name st)))) (ts_name st)
       = drop (Suc (length (cstr (ts_name st)))) (wt_name (tasks g ! i))"
proof -
  obtain i where i: "i < length (tasks g)" "\<not> wt_used (tasks g ! i)"
    and g': "g' = g\<lparr>tasks := (tasks g)[i := task_init (n, name, ns, owner) (tasks g ! i)],
           next_task_id := n + 1\<rparr>"
    using taskgraph_create_InrD [OF assms(2)] by metis
  have inv': "task_inv g'" by (rule task_inv_create [OF assms(1,4,2)])
  have "find_task n g' = Some i"
    using find_task_uniq [OF inv', of i] i(1) by (simp add: g')
  then have nm: "ts_name st = str_copy (wt_name (tasks g ! i)) (opt_str name) TASK_NAME_MAX"
    using assms(3) i(1) by (auto simp: taskgraph_status_def g' Let_def)
  have len: "length (wt_name (tasks g ! i)) = TASK_NAME_MAX"
    using task_ok_nth [OF assms(1) i(1)] by (simp add: task_ok_def)
  have b: "0 < TASK_NAME_MAX" "TASK_NAME_MAX \<le> length (wt_name (tasks g ! i))"
    using len by (simp_all add: TASK_NAME_MAX_def)
  show ?thesis
    unfolding nm using i str_copy_stale [OF b] cstr_str_copy [OF b] by blast
qed

text \<open>Process 1 names a task, exits, and process 2 takes the slot with a shorter name.\<close>

definition demo_reuse :: task_graph where
  "demo_reuse = task_run [Create (Some ''secret-plan'') 1 1, Cleanup 1] task_boot"

theorem task_status_leaks_old_name_witness:
  "\<exists>st g'. taskgraph_create (Some ''x'') 2 2 demo_reuse = (Inr 2, g') \<and> taskgraph_status 2 g' = Inr st \<and>
     cstr (ts_name st) = ''x'' \<and> take 9 (drop 2 (ts_name st)) = ''cret-plan''"
proof -
  have inv: "task_inv demo_reuse"
    unfolding demo_reuse_def by (rule task_inv_run [OF task_inv_boot]) (simp add: task_boot_def)
  define g' where "g' = snd (taskgraph_create (Some ''x'') 2 2 demo_reuse)"
  have c: "taskgraph_create (Some ''x'') 2 2 demo_reuse = (Inr 2, g')" unfolding g'_def by code_simp
  define st where "st = projr (taskgraph_status 2 g')"
  have s: "taskgraph_status 2 g' = Inr st" unfolding st_def g'_def by code_simp
  have n: "next_task_id demo_reuse + 1 \<noteq> 0" by code_simp
  have d: "take 9 (drop 2 (ts_name st)) = ''cret-plan''" unfolding st_def g'_def by code_simp
  have "cstr (ts_name st) = take (TASK_NAME_MAX - 1) (cstr (opt_str (Some ''x'')))"
    using task_status_leaks_old_name [OF inv c s n] by blast
  moreover have "take (TASK_NAME_MAX - 1) (cstr (opt_str (Some ''x''))) = ''x''" by code_simp
  ultimately show ?thesis using c s d by metis
qed

end
