(* ===== verification/Pub_Sub.thy ===== *)
theory Pub_Sub
  imports Task_Graph Ring_Buffer
begin

text \<open>
  Publish/subscribe topics, \<^verbatim>\<open>kernel/src/ipc/pubsub.{h,c}\<close>: sixteen topics with eight subscribers
  each; every subscriber has its own queue of four messages, from which the oldest is dropped when
  a message arrives at a full queue. Subscribing and publishing across namespaces drop the lock for
  the capability check; the critical sections before and after it are separate definitions.
\<close>

section \<open>State\<close>

record topic_msg =
  tm_publisher_pid :: u64
  tm_len :: nat
  tm_data :: "u8 list"

record topic_sub =
  sb_pid :: u64
  sb_ns_id :: u32
  sb_msgs :: "topic_msg list"
  sb_head :: nat
  sb_tail :: nat
  sb_count :: nat
  sb_used :: bool

record topic =
  tp_name :: string
  tp_owner_pid :: u64
  tp_ns_id :: u32
  tp_subs :: "topic_sub list"
  tp_used :: bool

definition MAX_TOPICS :: nat where "MAX_TOPICS = 16"
definition MAX_SUBSCRIBERS :: nat where "MAX_SUBSCRIBERS = 8"
definition TOPIC_NAME_MAX :: nat where "TOPIC_NAME_MAX = 32"
definition TOPIC_MSG_MAX :: nat where "TOPIC_MSG_MAX = 256"
definition TOPIC_QUEUE_SLOTS :: nat where "TOPIC_QUEUE_SLOTS = 4"

definition CAP_XNS_PUBSUB :: u32 where "CAP_XNS_PUBSUB = push_bit 10 1"

definition sub_zero :: topic_sub where
  "sub_zero = \<lparr>sb_pid = 0, sb_ns_id = 0, sb_msgs = replicate TOPIC_QUEUE_SLOTS
     \<lparr>tm_publisher_pid = 0, tm_len = 0, tm_data = replicate TOPIC_MSG_MAX 0\<rparr>,
     sb_head = 0, sb_tail = 0, sb_count = 0, sb_used = False\<rparr>"

definition topic_zero :: topic where
  "topic_zero = \<lparr>tp_name = replicate TOPIC_NAME_MAX NUL, tp_owner_pid = 0, tp_ns_id = 0,
     tp_subs = replicate MAX_SUBSCRIBERS sub_zero, tp_used = False\<rparr>"

definition topic_boot :: "topic list" where
  "topic_boot = replicate MAX_TOPICS topic_zero"

section \<open>Access across namespaces\<close>

definition check_xns_access :: "u32 \<Rightarrow> u32 \<Rightarrow> u64 \<Rightarrow> u32 \<Rightarrow> token_state \<Rightarrow> bool" where
  "check_xns_access topic_ns caller_ns caller_pid caller_caps toks =
     (if caller_ns = topic_ns then True
      else if topic_ns = 0 then True
      else if caller_caps AND CAP_XNS_PUBSUB \<noteq> 0 then True
      else cap_token_check caller_pid CAP_XNS_PUBSUB (Some (ns_resource topic_ns)) toks)"

section \<open>Topics\<close>

text \<open>The comparison loop over at most \<open>n\<close> characters, stopping at the terminator of the new name.\<close>

definition char_hd :: "string \<Rightarrow> char" where
  "char_hd s = (case s of [] \<Rightarrow> NUL | c # _ \<Rightarrow> c)"

fun name_match :: "nat \<Rightarrow> string \<Rightarrow> string \<Rightarrow> bool" where
  "name_match 0 a b = True"
| "name_match (Suc n) a b =
     (if char_hd a \<noteq> char_hd b then False
      else if char_hd b = NUL then True
      else name_match n (tl a) (tl b))"

definition sub_reset :: "topic_sub \<Rightarrow> topic_sub" where
  "sub_reset s = s\<lparr>sb_used := False, sb_head := 0, sb_tail := 0, sb_count := 0\<rparr>"

fun topic_init :: "string \<times> u32 \<times> u64 \<Rightarrow> topic \<Rightarrow> topic" where
  "topic_init (name, ns, owner) t =
     t\<lparr>tp_used := True, tp_owner_pid := owner, tp_ns_id := ns,
       tp_name := str_copy (tp_name t) name TOPIC_NAME_MAX,
       tp_subs := map sub_reset (tp_subs t)\<rparr>"

definition pubsub_topic_create ::
  "string \<Rightarrow> u32 \<Rightarrow> u64 \<Rightarrow> topic list \<Rightarrow> nat ret \<times> topic list" where
  "pubsub_topic_create name ns_id owner_pid ts =
     (if \<exists>t \<in> set ts. tp_used t \<and> tp_ns_id t = ns_id \<and> name_match TOPIC_NAME_MAX (tp_name t) name
      then (Inl EEXIST, ts)
      else case alloc_slot tp_used (topic_init (name, ns_id, owner_pid)) ts of
             None \<Rightarrow> (Inl ENOMEM, ts)
           | Some (i, ts') \<Rightarrow> (Inr i, ts'))"

fun sub_init :: "u64 \<times> u32 \<Rightarrow> topic_sub \<Rightarrow> topic_sub" where
  "sub_init (pid, ns) s =
     s\<lparr>sb_used := True, sb_pid := pid, sb_ns_id := ns, sb_head := 0, sb_tail := 0, sb_count := 0\<rparr>"

definition sub_clear :: "topic_sub \<Rightarrow> topic_sub" where
  "sub_clear s = s\<lparr>sb_used := False\<rparr>"

text \<open>The part of \<^verbatim>\<open>pubsub_subscribe\<close> after the access check, under the lock.\<close>

definition subscribe_add :: "nat \<Rightarrow> u64 \<Rightarrow> u32 \<Rightarrow> topic list \<Rightarrow> unit ret \<times> topic list" where
  "subscribe_add topic_id pid ns ts =
     (let tp = ts ! topic_id in
      if \<not> tp_used tp then (Inl ENOENT, ts)
      else if \<exists>s \<in> set (tp_subs tp). sb_used s \<and> sb_pid s = pid then (Inr (), ts)
      else case alloc_slot sb_used (sub_init (pid, ns)) (tp_subs tp) of
             None \<Rightarrow> (Inl ENOMEM, ts)
           | Some (_, subs) \<Rightarrow> (Inr (), ts[topic_id := tp\<lparr>tp_subs := subs\<rparr>]))"

definition pubsub_subscribe ::
  "nat \<Rightarrow> u64 \<Rightarrow> u32 \<Rightarrow> u32 \<Rightarrow> token_state \<Rightarrow> topic list \<Rightarrow> unit ret \<times> topic list" where
  "pubsub_subscribe topic_id pid sub_ns_id caller_caps toks ts =
     (if topic_id \<ge> MAX_TOPICS then (Inl EINVAL, ts)
      else if \<not> tp_used (ts ! topic_id) then (Inl ENOENT, ts)
      else let topic_ns = tp_ns_id (ts ! topic_id) in
        if sub_ns_id \<noteq> topic_ns \<and> topic_ns \<noteq> 0 \<and>
           \<not> check_xns_access topic_ns sub_ns_id pid caller_caps toks
        then (Inl EPERM, ts)
        else subscribe_add topic_id pid sub_ns_id ts)"

section \<open>Messages\<close>

definition tmsg_fill :: "u64 \<Rightarrow> nat \<Rightarrow> u8 list \<Rightarrow> topic_msg \<Rightarrow> topic_msg" where
  "tmsg_fill publisher len data m =
     m\<lparr>tm_publisher_pid := publisher, tm_len := len, tm_data := take len data @ drop len (tm_data m)\<rparr>"

definition sub_put :: "topic_msg \<Rightarrow> topic_sub \<Rightarrow> topic_sub" where
  "sub_put m s = s\<lparr>sb_msgs := (sb_msgs s)[sb_tail s := m],
     sb_tail := (sb_tail s + 1) mod TOPIC_QUEUE_SLOTS, sb_count := sb_count s + 1\<rparr>"

definition sub_drop :: "topic_sub \<Rightarrow> topic_sub" where
  "sub_drop s = s\<lparr>sb_head := (sb_head s + 1) mod TOPIC_QUEUE_SLOTS, sb_count := sb_count s - 1\<rparr>"

definition sub_deliver :: "u64 \<Rightarrow> nat \<Rightarrow> u8 list \<Rightarrow> topic_sub \<Rightarrow> topic_sub" where
  "sub_deliver publisher len data s =
     (let s' = (if sb_count s \<ge> TOPIC_QUEUE_SLOTS then sub_drop s else s)
      in sub_put (tmsg_fill publisher len data (sb_msgs s' ! sb_tail s')) s')"

text \<open>The part of \<^verbatim>\<open>pubsub_publish\<close> after the access check, under the lock.\<close>

definition publish_deliver :: "nat \<Rightarrow> u64 \<Rightarrow> nat \<Rightarrow> u8 list \<Rightarrow> topic list \<Rightarrow> nat ret \<times> topic list" where
  "publish_deliver topic_id publisher len data ts =
     (let tp = ts ! topic_id in
      if \<not> tp_used tp then (Inl ENOENT, ts)
      else (Inr (length (filter sb_used (tp_subs tp))),
            ts[topic_id := tp\<lparr>tp_subs := map (\<lambda>s. if sb_used s then sub_deliver publisher len data s else s)
                                          (tp_subs tp)\<rparr>]))"

definition pubsub_publish ::
  "nat \<Rightarrow> u64 \<Rightarrow> u32 \<Rightarrow> u32 \<Rightarrow> u8 list \<Rightarrow> nat \<Rightarrow> token_state \<Rightarrow> topic list \<Rightarrow> nat ret \<times> topic list" where
  "pubsub_publish topic_id publisher_pid pub_ns_id caller_caps data len toks ts =
     (if topic_id \<ge> MAX_TOPICS then (Inl EINVAL, ts)
      else if len > TOPIC_MSG_MAX then (Inl EMSGSIZE, ts)
      else if \<not> tp_used (ts ! topic_id) then (Inl ENOENT, ts)
      else let topic_ns = tp_ns_id (ts ! topic_id) in
        if pub_ns_id \<noteq> topic_ns \<and> topic_ns \<noteq> 0 \<and>
           \<not> check_xns_access topic_ns pub_ns_id publisher_pid caller_caps toks
        then (Inl EPERM, ts)
        else publish_deliver topic_id publisher_pid len data ts)"

definition pubsub_recv ::
  "nat \<Rightarrow> u64 \<Rightarrow> nat \<Rightarrow> topic list \<Rightarrow> (u64 \<times> u8 list) ret \<times> topic list" where
  "pubsub_recv topic_id pid max_len ts =
     (if topic_id \<ge> MAX_TOPICS then (Inl EINVAL, ts)
      else if \<not> tp_used (ts ! topic_id) then (Inl ENOENT, ts)
      else
        let tp = ts ! topic_id in
        case find_index (\<lambda>s. sb_used s \<and> sb_pid s = pid) (tp_subs tp) of
          None \<Rightarrow> (Inl ENOENT, ts)
        | Some i \<Rightarrow>
            let s = tp_subs tp ! i in
            if sb_count s = 0 then (Inl EAGAIN, ts)
            else
              let m = sb_msgs s ! sb_head s;
                  copy_len = (if tm_len m > max_len then max_len else tm_len m)
              in (Inr (tm_publisher_pid m, take copy_len (tm_data m)),
                  ts[topic_id := tp\<lparr>tp_subs := (tp_subs tp)[i := sub_drop s]\<rparr>]))"

definition topic_cleanup :: "u64 \<Rightarrow> topic \<Rightarrow> topic" where
  "topic_cleanup pid t =
     (if \<not> tp_used t then t
      else t\<lparr>tp_subs := release_where sb_used sub_clear (\<lambda>s. sb_pid s = pid) (tp_subs t),
             tp_used := (tp_owner_pid t \<noteq> pid)\<rparr>)"

definition pubsub_cleanup_pid :: "u64 \<Rightarrow> topic list \<Rightarrow> topic list" where
  "pubsub_cleanup_pid pid ts = map (topic_cleanup pid) ts"

section \<open>Contracts\<close>

interpretation tsub: slot_table sb_used sub_init sub_clear
proof unfold_locales
  fix a e show "sb_used (sub_init a e)" by (cases a) simp
qed (simp add: sub_clear_def)

interpretation tq: ring_buffer TOPIC_QUEUE_SLOTS sb_msgs sb_head sb_tail sb_count sub_put sub_drop
  by unfold_locales (simp_all add: sub_put_def sub_drop_def TOPIC_QUEUE_SLOTS_def)

definition tmsg_ok :: "topic_msg \<Rightarrow> bool" where
  "tmsg_ok m \<longleftrightarrow> length (tm_data m) = TOPIC_MSG_MAX \<and> tm_len m \<le> TOPIC_MSG_MAX"

definition sub_ok :: "topic_sub \<Rightarrow> bool" where
  "sub_ok s \<longleftrightarrow> tq.ok s \<and> list_all tmsg_ok (sb_msgs s)"

definition topic_ok :: "topic \<Rightarrow> bool" where
  "topic_ok t \<longleftrightarrow> length (tp_name t) = TOPIC_NAME_MAX \<and> NUL \<in> set (tp_name t) \<and>
     length (tp_subs t) = MAX_SUBSCRIBERS \<and> list_all sub_ok (tp_subs t)"

definition topic_inv :: "topic list \<Rightarrow> bool" where
  "topic_inv ts \<longleftrightarrow> length ts = MAX_TOPICS \<and> list_all topic_ok ts"

definition tmsg_view :: "topic_msg \<Rightarrow> u64 \<times> u8 list" where
  "tmsg_view m = (tm_publisher_pid m, take (tm_len m) (tm_data m))"

definition sub_queue :: "topic_sub \<Rightarrow> (u64 \<times> u8 list) list" where
  "sub_queue s = map tmsg_view (tq.contents s)"

section \<open>The invariant\<close>

lemma topic_inv_nth: "topic_inv ts \<Longrightarrow> i < length ts \<Longrightarrow> topic_ok (ts ! i)"
  by (simp add: topic_inv_def list_all_length)

lemma topic_inv_update: "topic_inv ts \<Longrightarrow> topic_ok t \<Longrightarrow> topic_inv (ts[i := t])"
  by (cases "i < length ts") (auto simp: topic_inv_def list_all_length nth_list_update)

lemma topic_ok_subs:
  "topic_ok t \<Longrightarrow> length ss = length (tp_subs t) \<Longrightarrow> list_all sub_ok ss \<Longrightarrow> topic_ok (t\<lparr>tp_subs := ss\<rparr>)"
  by (simp add: topic_ok_def)

lemma sub_zero_ok: "sub_ok sub_zero"
  by (simp add: sub_ok_def tq.ok_def sub_zero_def ring_ok_def tq.cap_pos tmsg_ok_def list_all_length)

lemma topic_inv_boot: "topic_inv topic_boot"
  using sub_zero_ok
  by (simp add: topic_inv_def topic_boot_def topic_zero_def topic_ok_def list_all_length TOPIC_NAME_MAX_def)

lemma sub_ok_restart:
  assumes "sub_ok s"
  shows "sub_ok (sub_reset s)" and "sub_ok (sub_init a s)" and "sub_queue (sub_init a s) = []"
    and "sub_ok (sub_clear s)"
proof -
  obtain pid ns where a: "a = (pid, ns)" by fastforce
  have r: "ring_ok TOPIC_QUEUE_SLOTS (sb_msgs s) (sb_head s) (sb_tail s) (sb_count s)"
    using assms by (simp add: sub_ok_def tq.ok_def)
  then have r0: "ring_ok TOPIC_QUEUE_SLOTS (sb_msgs s) 0 0 0" by (simp add: ring_ok_def)
  show "sub_ok (sub_reset s)" "sub_ok (sub_init a s)"
    using assms r0 by (simp_all add: a sub_ok_def tq.ok_def sub_reset_def)
  show "sub_queue (sub_init a s) = []" by (simp add: a sub_queue_def tq.contents_def)
  show "sub_ok (sub_clear s)" using assms by (simp add: sub_ok_def tq.ok_def sub_clear_def)
qed

lemma tmsg_fill_ok:
  assumes "tmsg_ok m" and "len \<le> TOPIC_MSG_MAX" and "len \<le> length data"
  shows "tmsg_ok (tmsg_fill p len data m)" and "tmsg_view (tmsg_fill p len data m) = (p, take len data)"
  using assms by (simp_all add: tmsg_ok_def tmsg_fill_def tmsg_view_def)

text \<open>A delivery keeps the last four messages: the queue and the new message, less the oldest if full.\<close>

definition keep_last :: "nat \<Rightarrow> 'a list \<Rightarrow> 'a list" where
  "keep_last n xs = drop (length xs - n) xs"

lemma keep_last_snoc: "length q \<le> n \<Longrightarrow> 0 < n \<Longrightarrow> keep_last n (q @ [m]) = (if length q < n then q @ [m] else tl q @ [m])"
  by (auto simp: keep_last_def drop_Suc not_less le_antisym)

lemma keep_last_keep_last:
  assumes "0 < n"
  shows "keep_last n (keep_last n xs @ [m]) = keep_last n (xs @ [m])"
proof (cases "length xs \<le> n")
  case True
  then show ?thesis by (simp add: keep_last_def)
next
  case False
  then show ?thesis using assms by (simp add: keep_last_def drop_Cons' Suc_diff_le)
qed

lemma sub_deliver_ok:
  assumes ok: "sub_ok s" and len: "len \<le> TOPIC_MSG_MAX" "len \<le> length data"
  shows "sub_ok (sub_deliver p len data s)"
    and "sub_queue (sub_deliver p len data s) = keep_last 4 (sub_queue s @ [(p, take len data)])"
proof -
  let ?s = "if sb_count s \<ge> TOPIC_QUEUE_SLOTS then sub_drop s else s"
  let ?m = "tmsg_fill p len data (sb_msgs ?s ! sb_tail ?s)"
  have q: "tq.ok s" and ms: "list_all tmsg_ok (sb_msgs s)" using ok by (auto simp: sub_ok_def)
  have le: "sb_count s \<le> TOPIC_QUEUE_SLOTS" using tq.cnt_le [OF q] .
  have same: "sb_msgs ?s = sb_msgs s" "sb_tail ?s = sb_tail s" by (simp_all add: sub_drop_def)
  have "tmsg_ok (sb_msgs s ! sb_tail s)" using q ms by (simp add: tq.ok_def ring_ok_def list_all_length)
  then have m: "tmsg_ok ?m" "tmsg_view ?m = (p, take len data)"
    using tmsg_fill_ok [OF _ len] by (simp_all add: same)
  have d: "sub_deliver p len data s = sub_put ?m ?s" by (simp add: sub_deliver_def Let_def)
  have r: "tq.ok (sub_put ?m ?s)"
    "tq.contents (sub_put ?m ?s) = (if sb_count s < TOPIC_QUEUE_SLOTS then tq.contents s @ [?m]
       else tl (tq.contents s) @ [?m])"
    using tq.ok_push [OF q, of ?m] tq.contents_push [OF q, of ?m] tq.drop_oldest_push [OF q, of ?m] le
    by (simp_all add: not_le)
  have "list_all tmsg_ok (sb_msgs (sub_put ?m ?s))"
    using ms m(1) set_update_subset_insert [of "sb_msgs s" "sb_tail s" ?m]
    by (auto simp: list_all_iff sub_put_def same)
  then show "sub_ok (sub_deliver p len data s)" using r(1) unfolding d by (simp add: sub_ok_def)
  have l: "length (sub_queue s) = sb_count s" by (simp add: sub_queue_def)
  have "sub_queue (sub_deliver p len data s) =
      (if sb_count s < TOPIC_QUEUE_SLOTS then sub_queue s @ [(p, take len data)]
       else tl (sub_queue s) @ [(p, take len data)])"
    unfolding d sub_queue_def r(2)
    by (cases "sb_count s < TOPIC_QUEUE_SLOTS") (simp_all only: if_True if_False map_append map_tl list.map m(2))
  also have "\<dots> = (if length (sub_queue s) < 4 then sub_queue s @ [(p, take len data)]
       else tl (sub_queue s) @ [(p, take len data)])" unfolding l by (simp add: TOPIC_QUEUE_SLOTS_def)
  also have "\<dots> = keep_last 4 (sub_queue s @ [(p, take len data)])"
    by (rule keep_last_snoc [symmetric]) (use l le in \<open>simp_all add: TOPIC_QUEUE_SLOTS_def\<close>)
  finally show "sub_queue (sub_deliver p len data s) = keep_last 4 (sub_queue s @ [(p, take len data)])" .
qed

lemma sub_deliver_frame [simp]:
  "sb_used (sub_deliver p len data s) = sb_used s" "sb_pid (sub_deliver p len data s) = sb_pid s"
  by (simp_all add: sub_deliver_def sub_put_def sub_drop_def Let_def)

lemma sub_drop_frame [simp]: "sb_used (sub_drop s) = sb_used s" "sb_pid (sub_drop s) = sb_pid s"
  by (simp_all add: sub_drop_def)

text \<open>What a successful publication has established and does.\<close>

lemma pubsub_publish_InrD:
  assumes "pubsub_publish i p ns caps data len toks ts = (Inr n, ts')"
  shows "i < MAX_TOPICS" "len \<le> TOPIC_MSG_MAX" "tp_used (ts ! i)"
    "check_xns_access (tp_ns_id (ts ! i)) ns p caps toks"
    "n = length (filter sb_used (tp_subs (ts ! i)))"
    "ts' = ts[i := (ts ! i)\<lparr>tp_subs := map (\<lambda>s. if sb_used s then sub_deliver p len data s else s)
                                          (tp_subs (ts ! i))\<rparr>]"
  using assms by (auto simp: pubsub_publish_def publish_deliver_def check_xns_access_def Let_def
      split: if_splits)

lemma topic_inv_publish:
  assumes inv: "topic_inv ts" and run: "pubsub_publish i p ns caps data len toks ts = (Inr n, ts')"
    and len: "len \<le> length data"
  shows "topic_inv ts'"
proof -
  note d = pubsub_publish_InrD [OF run]
  have i: "i < length ts" using d(1) inv by (simp add: topic_inv_def)
  have ok: "topic_ok (ts ! i)" by (rule topic_inv_nth [OF inv i])
  then have "list_all sub_ok (tp_subs (ts ! i))" by (simp add: topic_ok_def)
  then have "list_all sub_ok (map (\<lambda>s. if sb_used s then sub_deliver p len data s else s) (tp_subs (ts ! i)))"
    using sub_deliver_ok(1) [OF _ d(2) len] by (auto simp: list_all_iff)
  then show ?thesis unfolding d(6) by (intro topic_inv_update [OF inv] topic_ok_subs [OF ok]) simp
qed

lemma pubsub_recv_InrD:
  assumes "pubsub_recv i pid max_len ts = (Inr m, ts')"
  obtains k where "i < MAX_TOPICS" "tp_used (ts ! i)"
    "find_index (\<lambda>s. sb_used s \<and> sb_pid s = pid) (tp_subs (ts ! i)) = Some k"
    "0 < sb_count (tp_subs (ts ! i) ! k)"
    "m = (tm_publisher_pid (sb_msgs (tp_subs (ts ! i) ! k) ! sb_head (tp_subs (ts ! i) ! k)),
          take (min max_len (tm_len (sb_msgs (tp_subs (ts ! i) ! k) ! sb_head (tp_subs (ts ! i) ! k))))
               (tm_data (sb_msgs (tp_subs (ts ! i) ! k) ! sb_head (tp_subs (ts ! i) ! k))))"
    "ts' = ts[i := (ts ! i)\<lparr>tp_subs := (tp_subs (ts ! i))[k := sub_drop (tp_subs (ts ! i) ! k)]\<rparr>]"
proof -
  note rule = that
  have b: "i < MAX_TOPICS" "tp_used (ts ! i)"
    using assms by (auto simp: pubsub_recv_def split: if_splits)
  obtain k where k: "find_index (\<lambda>s. sb_used s \<and> sb_pid s = pid) (tp_subs (ts ! i)) = Some k"
    using assms b by (auto simp: pubsub_recv_def Let_def split: option.splits)
  have c: "0 < sb_count (tp_subs (ts ! i) ! k)"
    using assms b k by (auto simp: pubsub_recv_def Let_def split: if_splits)
  show thesis using assms b k c by (intro rule [OF b k c]) (auto simp: pubsub_recv_def Let_def min_def)
qed

section \<open>Sequences of publications and receives\<close>

fun recv_seq :: "nat \<Rightarrow> nat \<Rightarrow> u64 \<Rightarrow> nat \<Rightarrow> topic list \<Rightarrow> (u64 \<times> u8 list) ret list" where
  "recv_seq 0 i pid max_len ts = []"
| "recv_seq (Suc n) i pid max_len ts =
     (case pubsub_recv i pid max_len ts of (r, ts') \<Rightarrow> r # recv_seq n i pid max_len ts')"

fun publish_seq ::
  "(u64 \<times> u8 list) list \<Rightarrow> nat \<Rightarrow> u32 \<Rightarrow> u32 \<Rightarrow> token_state \<Rightarrow> topic list \<Rightarrow> topic list" where
  "publish_seq [] i ns caps toks ts = ts"
| "publish_seq ((p, d) # ms) i ns caps toks ts =
     publish_seq ms i ns caps toks (snd (pubsub_publish i p ns caps d (length d) toks ts))"

text \<open>Process \<open>pid\<close> has subscription \<open>k\<close> of topic \<open>i\<close>, with queue \<open>q\<close>.\<close>

definition subscribed :: "nat \<Rightarrow> u64 \<Rightarrow> nat \<Rightarrow> (u64 \<times> u8 list) list \<Rightarrow> topic list \<Rightarrow> bool" where
  "subscribed i pid k q ts \<longleftrightarrow> i < MAX_TOPICS \<and> tp_used (ts ! i) \<and>
     find_index (\<lambda>s. sb_used s \<and> sb_pid s = pid) (tp_subs (ts ! i)) = Some k \<and>
     sub_queue (tp_subs (ts ! i) ! k) = q"

lemma recv_empty:
  "subscribed i pid k [] ts \<Longrightarrow> pubsub_recv i pid max_len ts = (Inl EAGAIN, ts)"
proof -
  assume s: "subscribed i pid k [] ts"
  then have "tq.contents (tp_subs (ts ! i) ! k) = []" by (simp add: subscribed_def sub_queue_def)
  then have "sb_count (tp_subs (ts ! i) ! k) = 0" using tq.length_contents by (metis list.size(3))
  then show ?thesis using s by (simp add: subscribed_def pubsub_recv_def)
qed

lemma recv_nonempty:
  assumes inv: "topic_inv ts" and s: "subscribed i pid k ((p, b) # q) ts"
  obtains ts' where "pubsub_recv i pid max_len ts = (Inr (p, take max_len b), ts')"
    "topic_inv ts'" "subscribed i pid k q ts'"
proof -
  note rule = that
  let ?t = "ts ! i"
  let ?s = "tp_subs ?t ! k"
  have f: "find_index (\<lambda>s. sb_used s \<and> sb_pid s = pid) (tp_subs ?t) = Some k" and i: "i < length ts"
    and q: "sub_queue ?s = (p, b) # q" and u: "i < MAX_TOPICS" "tp_used ?t"
    using s inv by (auto simp: subscribed_def topic_inv_def)
  have k: "k < length (tp_subs ?t)" using find_index_SomeD [OF f] by simp
  have tok: "topic_ok ?t" by (rule topic_inv_nth [OF inv i])
  then have sok: "sub_ok ?s" using k by (simp add: topic_ok_def list_all_length)
  then have rok: "tq.ok ?s" by (simp add: sub_ok_def)
  obtain m c where c: "tq.contents ?s = m # c" "tmsg_view m = (p, b)" "map tmsg_view c = q"
    using q by (auto simp: sub_queue_def)
  have cnt: "0 < sb_count ?s" using tq.length_contents [of ?s] c(1) by simp
  have m: "sb_msgs ?s ! sb_head ?s = m" using tq.front [OF rok cnt] c(1) by simp
  have c': "tq.contents (sub_drop ?s) = c" using tq.contents_pop [OF cnt] c(1) by simp
  let ?ts = "ts[i := ?t\<lparr>tp_subs := (tp_subs ?t)[k := sub_drop ?s]\<rparr>]"
  have r: "pubsub_recv i pid max_len ts = (Inr (p, take max_len b), ?ts)"
    using u f cnt m c(2) by (auto simp: pubsub_recv_def Let_def tmsg_view_def min_def)
  have "sub_ok (sub_drop ?s)" using sok tq.ok_pop [OF rok cnt] by (simp add: sub_ok_def sub_drop_def)
  then have "list_all sub_ok ((tp_subs ?t)[k := sub_drop ?s])"
    using tok by (auto simp: topic_ok_def intro: list_all_update)
  then have inv': "topic_inv ?ts" by (intro topic_inv_update [OF inv] topic_ok_subs [OF tok]) simp
  have "map (\<lambda>s. sb_used s \<and> sb_pid s = pid) ((tp_subs ?t)[k := sub_drop ?s])
      = map (\<lambda>s. sb_used s \<and> sb_pid s = pid) (tp_subs ?t)"
    using k by (intro nth_equalityI) (auto simp: nth_list_update_if)
  note fc = find_index_cong [OF this]
  have "subscribed i pid k q ?ts"
    using u i k fc f c' c(3) by (simp add: subscribed_def sub_queue_def)
  then show thesis using rule [OF r inv'] by simp
qed

lemma recv_seq_queue:
  "topic_inv ts \<Longrightarrow> subscribed i pid k q ts \<Longrightarrow>
   recv_seq (Suc (length q)) i pid max_len ts
     = map (\<lambda>(p, b). Inr (p, take max_len b)) q @ [Inl EAGAIN]"
proof (induction q arbitrary: ts)
  case Nil
  then show ?case using recv_empty by simp
next
  case (Cons m q)
  obtain p b where m: "m = (p, b)" by fastforce
  obtain ts' where r: "pubsub_recv i pid max_len ts = (Inr (p, take max_len b), ts')"
    "topic_inv ts'" "subscribed i pid k q ts'"
    using recv_nonempty [OF Cons.prems(1) Cons.prems(2) [unfolded m]] by metis
  then show ?case using Cons.IH [OF r(2,3)] m by simp
qed

lemma publish_one:
  assumes inv: "topic_inv ts" and s: "subscribed i pid k q ts" and d: "length d \<le> TOPIC_MSG_MAX"
    and acc: "check_xns_access (tp_ns_id (ts ! i)) ns p caps toks"
    and ts': "ts' = snd (pubsub_publish i p ns caps d (length d) toks ts)"
  shows "topic_inv ts'" and "subscribed i pid k (keep_last 4 (q @ [(p, d)])) ts'"
    and "tp_ns_id (ts' ! i) = tp_ns_id (ts ! i)"
proof -
  have u: "i < MAX_TOPICS" "tp_used (ts ! i)" "i < length ts"
    and f: "find_index (\<lambda>s. sb_used s \<and> sb_pid s = pid) (tp_subs (ts ! i)) = Some k"
    and q: "sub_queue (tp_subs (ts ! i) ! k) = q"
    using s inv by (auto simp: subscribed_def topic_inv_def)
  obtain n where run: "pubsub_publish i p ns caps d (length d) toks ts = (Inr n, ts')"
    using u d acc ts' by (simp add: pubsub_publish_def publish_deliver_def Let_def)
  note D = pubsub_publish_InrD(6) [OF run]
  show "topic_inv ts'" by (rule topic_inv_publish [OF inv run]) simp
  show "tp_ns_id (ts' ! i) = tp_ns_id (ts ! i)" using D u by simp
  have k: "k < length (tp_subs (ts ! i))" "sb_used (tp_subs (ts ! i) ! k)"
    using find_index_SomeD [OF f] by auto
  have sok: "sub_ok (tp_subs (ts ! i) ! k)"
    using topic_inv_nth [OF inv u(3)] k(1) by (simp add: topic_ok_def list_all_length)
  have "map (\<lambda>s. sb_used s \<and> sb_pid s = pid) (tp_subs (ts' ! i)) = map (\<lambda>s. sb_used s \<and> sb_pid s = pid) (tp_subs (ts ! i))"
    using D u(3) by simp
  note fc = find_index_cong [OF this]
  show "subscribed i pid k (keep_last 4 (q @ [(p, d)])) ts'"
    using u f fc q k sub_deliver_ok(2) [OF sok d order_refl, of p] D by (simp add: subscribed_def)
qed

lemma publish_seq_queue:
  "topic_inv ts \<Longrightarrow> subscribed i pid k (keep_last 4 q) ts \<Longrightarrow>
   list_all (\<lambda>(p, d). length d \<le> TOPIC_MSG_MAX \<and> check_xns_access (tp_ns_id (ts ! i)) ns p caps toks) ms \<Longrightarrow>
   topic_inv (publish_seq ms i ns caps toks ts) \<and>
   subscribed i pid k (keep_last 4 (q @ ms)) (publish_seq ms i ns caps toks ts)"
proof (induction ms arbitrary: ts q)
  case Nil
  then show ?case by simp
next
  case (Cons m ms)
  obtain p d where m: "m = (p, d)" by fastforce
  have d: "length d \<le> TOPIC_MSG_MAX" "check_xns_access (tp_ns_id (ts ! i)) ns p caps toks"
    using Cons.prems(3) m by auto
  let ?ts = "snd (pubsub_publish i p ns caps d (length d) toks ts)"
  note one = publish_one [OF Cons.prems(1,2) d refl]
  have "subscribed i pid k (keep_last 4 (q @ [m])) ?ts"
    using one(2) by (simp add: m keep_last_keep_last)
  from Cons.IH [OF one(1) this] show ?case using Cons.prems(3) one(3) m by simp
qed

section \<open>Properties\<close>

text \<open>
  C21: A subscriber receives exactly the last four messages published to its topic since its queue
  was empty, oldest first, each with its publisher and cut to the caller's buffer, and after them
  EAGAIN: whatever sequence of authorised publications of at most 256 bytes came before.
\<close>

theorem subscriber_gets_last_four:
  assumes "topic_inv ts" and "subscribed i pid k [] ts"
    and "list_all (\<lambda>(p, d). length d \<le> TOPIC_MSG_MAX \<and> check_xns_access (tp_ns_id (ts ! i)) ns p caps toks) ms"
  shows "recv_seq (Suc (length (keep_last 4 ms))) i pid max_len (publish_seq ms i ns caps toks ts)
     = map (\<lambda>(p, d). Inr (p, take max_len d)) (keep_last 4 ms) @ [Inl EAGAIN]"
proof -
  have "subscribed i pid k (keep_last 4 []) ts" using assms(2) by (simp add: keep_last_def)
  from publish_seq_queue [OF assms(1) this assms(3)] recv_seq_queue show ?thesis by auto
qed

text \<open>Topic 0 of process 1 in namespace 1, with process 2 subscribed.\<close>

definition demo_topics :: "topic list" where
  "demo_topics = snd (subscribe_add 0 2 1 (snd (pubsub_topic_create ''news'' 1 1 topic_boot)))"

lemma pubsub_topic_create_InrD:
  assumes inv: "topic_inv ts" and run: "pubsub_topic_create name ns owner ts = (Inr i, ts')"
  shows "i < length ts" "\<not> tp_used (ts ! i)" "ts' = ts[i := topic_init (name, ns, owner) (ts ! i)]" "topic_inv ts'"
proof -
  have al: "alloc_slot tp_used (topic_init (name, ns, owner)) ts = Some (i, ts')"
    using run by (auto simp: pubsub_topic_create_def split: if_splits option.splits)
  then show i: "i < length ts" "\<not> tp_used (ts ! i)" and ts': "ts' = ts[i := topic_init (name, ns, owner) (ts ! i)]"
    using alloc_slot_SomeD [OF al] by auto
  have ok: "topic_ok (ts ! i)" by (rule topic_inv_nth [OF inv i(1)])
  have l: "0 < TOPIC_NAME_MAX" "TOPIC_NAME_MAX \<le> length (tp_name (ts ! i))"
    using ok by (simp_all add: topic_ok_def TOPIC_NAME_MAX_def)
  have "NUL \<in> set (str_copy (tp_name (ts ! i)) name TOPIC_NAME_MAX)" by (simp add: str_copy_eq [OF l])
  then have "topic_ok (topic_init (name, ns, owner) (ts ! i))"
    using ok sub_ok_restart(1) by (auto simp: topic_ok_def list_all_iff)
  then show "topic_inv ts'" unfolding ts' by (rule topic_inv_update [OF inv])
qed

lemma topic_inv_subscribe_add:
  assumes inv: "topic_inv ts" and i: "i < length ts"
  shows "topic_inv (snd (subscribe_add i pid ns ts))"
proof (cases "alloc_slot sb_used (sub_init (pid, ns)) (tp_subs (ts ! i))")
  case None
  then show ?thesis using inv by (simp add: subscribe_add_def Let_def)
next
  case (Some a)
  obtain k ss where a: "a = (k, ss)" by fastforce
  have ok: "topic_ok (ts ! i)" by (rule topic_inv_nth [OF inv i])
  have ss: "k < length (tp_subs (ts ! i))" "ss = (tp_subs (ts ! i))[k := sub_init (pid, ns) (tp_subs (ts ! i) ! k)]"
    using alloc_slot_SomeD Some a by blast+
  have "list_all sub_ok ss"
    unfolding ss(2) using ok ss(1)
    by (intro list_all_update sub_ok_restart(2)) (simp_all add: topic_ok_def list_all_length)
  then have "topic_inv (ts[i := (ts ! i)\<lparr>tp_subs := ss\<rparr>])"
    using ss by (intro topic_inv_update [OF inv] topic_ok_subs [OF ok]) auto
  then show ?thesis using inv Some a by (simp add: subscribe_add_def Let_def)
qed

lemma topic_inv_cleanup: "topic_inv ts \<Longrightarrow> topic_inv (pubsub_cleanup_pid pid ts)"
  using sub_ok_restart(4)
  by (auto simp: topic_inv_def pubsub_cleanup_pid_def topic_cleanup_def topic_ok_def release_where_def list_all_iff)

lemma demo_zero_simps:
  "tp_used topic_zero = False" "tp_owner_pid topic_zero = 0" "tp_subs topic_zero = replicate 8 sub_zero"
  "sb_used sub_zero = False" "topic_boot = topic_zero # replicate 15 topic_zero"
  by (simp_all add: topic_zero_def sub_zero_def topic_boot_def MAX_TOPICS_def MAX_SUBSCRIBERS_def
      numeral_eq_Suc)

lemma demo_created:
  "pubsub_topic_create ''news'' 1 1 topic_boot
     = (Inr 0, topic_init (''news'', 1, 1) topic_zero # replicate 15 topic_zero)"
  by (simp add: pubsub_topic_create_def alloc_slot_def demo_zero_simps del: topic_init.simps)

lemma demo_topics_eq:
  "demo_topics = (topic_init (''news'', 1, 1) topic_zero)
     \<lparr>tp_subs := sub_init (2, 1) (sub_reset sub_zero) # replicate 7 (sub_reset sub_zero)\<rparr>
     # replicate 15 topic_zero"
  unfolding demo_topics_def demo_created snd_conv
  by (simp add: subscribe_add_def alloc_slot_def demo_zero_simps numeral_eq_Suc sub_reset_def)

lemma demo_topics_inv: "topic_inv demo_topics"
proof -
  note c = pubsub_topic_create_InrD [OF topic_inv_boot demo_created]
  show ?thesis unfolding demo_topics_def demo_created snd_conv
    by (rule topic_inv_subscribe_add [OF c(4)]) simp
qed

theorem subscriber_gets_last_four_witness:
  "recv_seq 5 0 2 2 (publish_seq [(1, [1]), (1, [2]), (1, [3]), (3, [4, 4, 4]), (3, [5])] 0 1 0 token_boot demo_topics)
     = [Inr (1, [2]), Inr (1, [3]), Inr (3, [4, 4]), Inr (3, [5]), Inl EAGAIN]"
proof -
  have f: "tp_used (demo_topics ! 0)" "tp_ns_id (demo_topics ! 0) = 1"
    "find_index (\<lambda>s. sb_used s \<and> sb_pid s = 2) (tp_subs (demo_topics ! 0)) = Some 0"
    "sb_count (tp_subs (demo_topics ! 0) ! 0) = 0" by (simp_all add: demo_topics_eq)
  have q: "sub_queue (tp_subs (demo_topics ! 0) ! 0) = []"
    using f(4) by (simp add: sub_queue_def tq.contents_def)
  have s: "subscribed 0 2 0 [] demo_topics"
    unfolding subscribed_def by (intro conjI f q) (simp add: MAX_TOPICS_def)
  have "list_all (\<lambda>(p, d). length d \<le> TOPIC_MSG_MAX \<and> check_xns_access (tp_ns_id (demo_topics ! 0)) 1 p 0 token_boot)
      [(1, [1]), (1, [2]), (1, [3]), (3, [4, 4, 4]), (3, [5])]"
    by (simp add: f(2) check_xns_access_def TOPIC_MSG_MAX_def)
  note r = subscriber_gets_last_four [OF demo_topics_inv s this, of 2]
  have k: "keep_last 4 [(1 :: u64, [1 :: u8]), (1, [2]), (1, [3]), (3, [4, 4, 4]), (3, [5])]
      = [(1, [2]), (1, [3]), (3, [4, 4, 4]), (3, [5])]" by (simp add: keep_last_def)
  have n: "Suc (length [(1 :: u64, [2 :: u8]), (1, [3]), (3, [4, 4, 4]), (3, [5])]) = 5" by simp
  show ?thesis using r [unfolded k n] by (simp del: publish_seq.simps)
qed



text \<open>
  The access check of a subscription can be made against a different topic than the one
  subscribed to: if, while the lock is dropped for the check, the topic's owner exits and another
  process creates a topic in its slot, the subscription goes to the new topic although the same call
  made now would be refused with EPERM.
\<close>

theorem subscribe_race_unauthorised:
  assumes "topic_inv ts" and "pubsub_topic_create name ns2 owner2 (pubsub_cleanup_pid owner ts) = (Inr i, ts2)"
    and "check_xns_access (tp_ns_id (ts ! i)) ns pid caps toks"
    and "\<not> check_xns_access ns2 ns pid caps toks"
  shows "fst (pubsub_subscribe i pid ns caps toks ts2) = Inl EPERM \<and>
     (\<exists>ts3. subscribe_add i pid ns ts2 = (Inr (), ts3) \<and> tp_ns_id (ts3 ! i) = ns2 \<and>
        (\<exists>s \<in> set (tp_subs (ts3 ! i)). sb_used s \<and> sb_pid s = pid))"
proof -
  note inv = topic_inv_cleanup [OF assms(1), of owner]
  note c = pubsub_topic_create_InrD [OF inv assms(2)]
  let ?t = "ts2 ! i"
  have i: "i < MAX_TOPICS" "i < length ts2" using c(1,3) inv by (auto simp: topic_inv_def)
  have t: "tp_used ?t" "tp_ns_id ?t = ns2" "tp_subs ?t = map sub_reset (tp_subs (pubsub_cleanup_pid owner ts ! i))"
    using c(1,3) by simp_all
  have no: "\<not> sb_used s" if "s \<in> set (tp_subs ?t)" for s
    using that by (auto simp: t(3) sub_reset_def)
  have ne: "tp_subs ?t \<noteq> []"
    using topic_inv_nth [OF c(4) i(2)] by (auto simp: topic_ok_def MAX_SUBSCRIBERS_def)
  have "alloc_slot sb_used (sub_init (pid, ns)) (tp_subs ?t) \<noteq> None"
    using no ne by (simp add: alloc_slot_None_iff)
  then obtain k ss where al: "alloc_slot sb_used (sub_init (pid, ns)) (tp_subs ?t) = Some (k, ss)" by auto
  have ss: "k < length (tp_subs ?t)" "ss = (tp_subs ?t)[k := sub_init (pid, ns) (tp_subs ?t ! k)]"
    using alloc_slot_SomeD [OF al] by auto
  have add: "subscribe_add i pid ns ts2 = (Inr (), ts2[i := ?t\<lparr>tp_subs := ss\<rparr>])"
    using t(1) no al by (auto simp: subscribe_add_def Let_def)
  have mem: "sub_init (pid, ns) (tp_subs ?t ! k) \<in> set ss" using ss by (simp add: set_update_memI del: sub_init.simps)
  have "fst (pubsub_subscribe i pid ns caps toks ts2) = Inl EPERM"
  proof -
    have "ns \<noteq> ns2" "ns2 \<noteq> 0" using assms(4) by (auto simp: check_xns_access_def split: if_splits)
    then show ?thesis using i t assms(4) by (simp add: pubsub_subscribe_def Let_def)
  qed
  moreover have "\<exists>s \<in> set ss. sb_used s \<and> sb_pid s = pid" by (rule bexI [OF _ mem]) simp
  ultimately show ?thesis using add i t by (intro conjI exI [of _ "ts2[i := ?t\<lparr>tp_subs := ss\<rparr>]"]) auto
qed

text \<open>
  In the witness process 5 of namespace 2 holds a token for namespace 1; the topic it means to join
  is replaced by one of namespace 3.
\<close>

definition demo_xns_token :: token_state where
  "demo_xns_token = snd (cap_token_create 1 CAP_XNS_PUBSUB CAP_XNS_PUBSUB 5 (Some ''ns/1'') token_boot)"

theorem subscribe_race_unauthorised_witness:
  "\<exists>ts2 ts3. pubsub_topic_create ''x'' 3 9 (pubsub_cleanup_pid 1 demo_topics) = (Inr 0, ts2) \<and>
     subscribe_add 0 5 2 ts2 = (Inr (), ts3) \<and> tp_ns_id (ts3 ! 0) = 3 \<and>
     fst (pubsub_subscribe 0 5 2 0 demo_xns_token ts2) = Inl EPERM"
proof -
  define ts2 where "ts2 = snd (pubsub_topic_create ''x'' 3 9 (pubsub_cleanup_pid 1 demo_topics))"
  have "fst (pubsub_topic_create ''x'' 3 9 (pubsub_cleanup_pid 1 demo_topics)) = Inr 0"
    by (simp add: demo_topics_eq pubsub_topic_create_def pubsub_cleanup_pid_def topic_cleanup_def
        alloc_slot_def demo_zero_simps)
  then have c: "pubsub_topic_create ''x'' 3 9 (pubsub_cleanup_pid 1 demo_topics) = (Inr 0, ts2)"
    unfolding ts2_def by (metis prod.collapse)
  have "check_xns_access 1 2 5 0 demo_xns_token" by code_simp
  then have a: "check_xns_access (tp_ns_id (demo_topics ! 0)) 2 5 0 demo_xns_token"
    by (simp add: demo_topics_eq)
  have b: "\<not> check_xns_access 3 2 5 0 demo_xns_token" by code_simp
  from subscribe_race_unauthorised [OF demo_topics_inv c a b] c show ?thesis by blast
qed

end
