(* ===== verification/Supervisor.thy ===== *)
theory Supervisor
  imports Slot_Table
begin

text \<open>
  Process supervisors, \<^verbatim>\<open>kernel/src/ipc/supervisor.{h,c}\<close>: a supervisor restarts its children when
  they exit with a failure, at most five times per window of 50 timer ticks. Loading an ELF file and
  creating a process belong to the file system and the process table; they are the parameter
  \<open>load_elf\<close>, which takes and returns the state of that part of the system. What the supervisor does
  to the outside is recorded: the processes it launches, the signals it sends, and the references it
  takes on the console terminal.
\<close>

section \<open>State\<close>

record super_child =
  sc_pid :: u64
  sc_elf_path :: string
  sc_ns_id :: "64 word"
  sc_caps :: u64
  sc_used :: bool

record supervisor =
  sv_owner_pid :: u64
  sv_id :: u32
  sv_used :: bool
  sv_policy :: u8
  sv_child_count :: u8
  sv_name :: string
  sv_children :: "super_child list"
  sv_window_start :: u64
  sv_restart_count :: u32

record super_info =
  si_id :: u32
  si_policy :: u8
  si_child_count :: u8
  si_name :: string
  si_owner_pid :: u64
  si_child_pids :: "u64 list"
  si_restart_count :: u32

text \<open>A launched process: its id and what the supervisor sets in it.\<close>

record launch =
  la_pid :: u64
  la_parent_pid :: u64
  la_capabilities :: u32
  la_ns_id :: u32
  la_console :: bool

record 'w super_env =
  se_world :: 'w
  se_launched :: "launch list"
  se_killed :: "u64 list"
  se_slave_refs :: nat

definition MAX_SUPERVISORS :: nat where "MAX_SUPERVISORS = 8"
definition MAX_SUPER_CHILDREN :: nat where "MAX_SUPER_CHILDREN = 8"
definition SUPER_NAME_MAX :: nat where "SUPER_NAME_MAX = 32"
definition ELF_PATH_MAX :: nat where "ELF_PATH_MAX = 64"
definition SUPER_ONE_FOR_ONE :: u8 where "SUPER_ONE_FOR_ONE = 0"
definition SUPER_ONE_FOR_ALL :: u8 where "SUPER_ONE_FOR_ALL = 1"
definition SUPER_MAX_RESTARTS :: u32 where "SUPER_MAX_RESTARTS = 5"
definition SUPER_RESTART_WINDOW :: u64 where "SUPER_RESTART_WINDOW = 50"

definition super_child_zero :: super_child where
  "super_child_zero = \<lparr>sc_pid = 0, sc_elf_path = replicate ELF_PATH_MAX NUL, sc_ns_id = 0, sc_caps = 0,
     sc_used = False\<rparr>"

definition supervisor_zero :: supervisor where
  "supervisor_zero = \<lparr>sv_owner_pid = 0, sv_id = 0, sv_used = False, sv_policy = 0, sv_child_count = 0,
     sv_name = replicate SUPER_NAME_MAX NUL, sv_children = replicate MAX_SUPER_CHILDREN super_child_zero,
     sv_window_start = 0, sv_restart_count = 0\<rparr>"

section \<open>Configuration\<close>

definition supervisor_init :: "supervisor list \<Rightarrow> supervisor list" where
  "supervisor_init svs =
     map (\<lambda>i. (svs ! i)\<lparr>sv_used := False, sv_id := of_nat i\<rparr>) [0..<length svs]"

definition supervisor_boot :: "supervisor list" where
  "supervisor_boot = supervisor_init (replicate MAX_SUPERVISORS supervisor_zero)"

text \<open>
  The copy used for names and paths: the characters of the source, and a NUL in the last byte of the
  buffer; no terminator is written behind the text itself.
\<close>

definition copy_last_nul :: "nat \<Rightarrow> string \<Rightarrow> string \<Rightarrow> string" where
  "copy_last_nul n src dst = (fst (copy_loop (n - 1) 0 src dst))[n - 1 := NUL]"

fun super_setup :: "u64 \<times> string \<Rightarrow> supervisor \<Rightarrow> supervisor" where
  "super_setup (owner, name) sv =
     sv\<lparr>sv_used := True, sv_owner_pid := owner, sv_policy := SUPER_ONE_FOR_ONE, sv_child_count := 0,
        sv_window_start := 0, sv_restart_count := 0,
        sv_name := copy_last_nul SUPER_NAME_MAX name (sv_name sv),
        sv_children := map (\<lambda>c. c\<lparr>sc_used := False\<rparr>) (sv_children sv)\<rparr>"

definition supervisor_create :: "u64 \<Rightarrow> string \<Rightarrow> supervisor list \<Rightarrow> nat ret \<times> supervisor list" where
  "supervisor_create owner_pid name svs =
     (case alloc_slot sv_used (super_setup (owner_pid, name)) svs of
        None \<Rightarrow> (Inl EGENERIC, svs)
      | Some (i, svs') \<Rightarrow> (Inr i, svs'))"

fun child_setup :: "string \<times> 64 word \<times> u64 \<Rightarrow> super_child \<Rightarrow> super_child" where
  "child_setup (path, ns, caps) c =
     c\<lparr>sc_used := True, sc_ns_id := ns, sc_caps := caps, sc_pid := 0,
       sc_elf_path := copy_last_nul ELF_PATH_MAX path (sc_elf_path c)\<rparr>"

definition child_clear :: "super_child \<Rightarrow> super_child" where
  "child_clear c = c\<lparr>sc_used := False, sc_pid := 0\<rparr>"

definition supervisor_add_child ::
  "nat \<Rightarrow> string \<Rightarrow> 64 word \<Rightarrow> u64 \<Rightarrow> supervisor list \<Rightarrow> nat ret \<times> supervisor list" where
  "supervisor_add_child super_id elf_path ns_id caps svs =
     (if super_id \<ge> MAX_SUPERVISORS \<or> \<not> sv_used (svs ! super_id) then (Inl EGENERIC, svs)
      else
        let sv = svs ! super_id in
        case alloc_slot sc_used (child_setup (elf_path, ns_id, caps)) (sv_children sv) of
          None \<Rightarrow> (Inl EGENERIC, svs)
        | Some (i, cs) \<Rightarrow>
            (Inr i, svs[super_id := sv\<lparr>sv_children := cs, sv_child_count := sv_child_count sv + 1\<rparr>]))"

definition supervisor_set_policy :: "nat \<Rightarrow> u8 \<Rightarrow> supervisor list \<Rightarrow> unit ret \<times> supervisor list" where
  "supervisor_set_policy super_id policy svs =
     (if super_id \<ge> MAX_SUPERVISORS \<or> \<not> sv_used (svs ! super_id) then (Inl EGENERIC, svs)
      else if policy > SUPER_ONE_FOR_ALL then (Inl EGENERIC, svs)
      else (Inr (), svs[super_id := (svs ! super_id)\<lparr>sv_policy := policy\<rparr>]))"

section \<open>Starting, restarting and stopping\<close>

text \<open>
  \<open>load_elf w path\<close> creates a process from the file at \<open>path\<close>, and is \<open>None\<close> where
  \<^verbatim>\<open>supervisor_load_elf\<close> returns NULL; \<open>console\<close> says whether there is a console terminal.
\<close>

type_synonym 'w loader = "'w \<Rightarrow> string \<Rightarrow> u64 option \<times> 'w"

definition supervisor_restart_child ::
  "'w loader \<Rightarrow> bool \<Rightarrow> nat \<Rightarrow> nat \<Rightarrow> 'w super_env \<times> supervisor list \<Rightarrow> 'w super_env \<times> supervisor list" where
  "supervisor_restart_child load_elf console i j st =
     (case st of (env, svs) \<Rightarrow>
        let sv = svs ! i; ch = sv_children sv ! j in
        if \<not> sc_used ch then (env, svs)
        else
          case load_elf (se_world env) (cstr (sc_elf_path ch)) of
            (None, w) \<Rightarrow> (env\<lparr>se_world := w\<rparr>, svs)
          | (Some pid, w) \<Rightarrow>
              (env\<lparr>se_world := w,
                   se_launched := se_launched env @
                     [\<lparr>la_pid = pid, la_parent_pid = sv_owner_pid sv, la_capabilities = ucast (sc_caps ch),
                       la_ns_id = ucast (sc_ns_id ch), la_console = console\<rparr>],
                   se_slave_refs := se_slave_refs env + (if console then 3 else 0)\<rparr>,
               svs[i := sv\<lparr>sv_children := (sv_children sv)[j := ch\<lparr>sc_pid := pid\<rparr>]\<rparr>]))"

definition restart_children ::
  "'w loader \<Rightarrow> bool \<Rightarrow> nat \<Rightarrow> nat list \<Rightarrow> 'w super_env \<times> supervisor list \<Rightarrow> 'w super_env \<times> supervisor list" where
  "restart_children load_elf console i js st = fold (supervisor_restart_child load_elf console i) js st"

definition children_where :: "(super_child \<Rightarrow> bool) \<Rightarrow> supervisor \<Rightarrow> nat list" where
  "children_where P sv = filter (\<lambda>j. P (sv_children sv ! j)) [0..<length (sv_children sv)]"

definition supervisor_start ::
  "'w loader \<Rightarrow> bool \<Rightarrow> nat \<Rightarrow> 'w super_env \<times> supervisor list \<Rightarrow> nat ret \<times> 'w super_env \<times> supervisor list" where
  "supervisor_start load_elf console super_id st =
     (if super_id \<ge> MAX_SUPERVISORS \<or> \<not> sv_used (snd st ! super_id) then (Inl EGENERIC, st)
      else
        let to_start = children_where (\<lambda>c. sc_used c \<and> sc_pid c = 0) (snd st ! super_id)
        in (Inr (length to_start), restart_children load_elf console super_id to_start st))"

definition super_info_of :: "supervisor \<Rightarrow> super_info" where
  "super_info_of sv =
     \<lparr>si_id = sv_id sv, si_policy = sv_policy sv, si_child_count = sv_child_count sv,
      si_name = sv_name sv, si_owner_pid = sv_owner_pid sv,
      si_child_pids = map (\<lambda>c. if sc_used c then sc_pid c else 0) (sv_children sv),
      si_restart_count = sv_restart_count sv\<rparr>"

definition supervisor_list :: "nat \<Rightarrow> supervisor list \<Rightarrow> super_info list" where
  "supervisor_list max_count svs = map super_info_of (take max_count (filter sv_used svs))"

text \<open>\<open>alive pid\<close>: the process exists and has not exited, so the signal is delivered.\<close>

definition kill_pids :: "(u64 \<Rightarrow> bool) \<Rightarrow> u64 list \<Rightarrow> 'w super_env \<Rightarrow> 'w super_env" where
  "kill_pids alive pids env = env\<lparr>se_killed := se_killed env @ filter alive pids\<rparr>"

definition supervisor_stop ::
  "(u64 \<Rightarrow> bool) \<Rightarrow> nat \<Rightarrow> u64 \<Rightarrow> 'w super_env \<times> supervisor list \<Rightarrow> unit ret \<times> 'w super_env \<times> supervisor list" where
  "supervisor_stop alive super_id caller_pid st =
     (case st of (env, svs) \<Rightarrow>
        if super_id \<ge> MAX_SUPERVISORS \<or> \<not> sv_used (svs ! super_id) then (Inl EINVAL, env, svs)
        else
          let sv = svs ! super_id in
          if sv_owner_pid sv \<noteq> caller_pid then (Inl EACCES, env, svs)
          else
            let pids = map sc_pid (filter (\<lambda>c. sc_used c \<and> sc_pid c \<noteq> 0) (sv_children sv))
            in (Inr (), kill_pids alive pids env,
                svs[super_id := sv\<lparr>sv_used := False, sv_children := map child_clear (sv_children sv),
                                   sv_child_count := 0\<rparr>]))"

text \<open>The rate limit: whether this restart is allowed, and the supervisor with its counters updated.\<close>

definition restart_allowed :: "u64 \<Rightarrow> supervisor \<Rightarrow> bool \<times> supervisor" where
  "restart_allowed now sv =
     (let sv1 = (if now - sv_window_start sv > SUPER_RESTART_WINDOW
                 then sv\<lparr>sv_restart_count := 0, sv_window_start := now\<rparr> else sv);
          sv2 = sv1\<lparr>sv_restart_count := sv_restart_count sv1 + 1\<rparr>
      in (\<not> sv_restart_count sv2 > SUPER_MAX_RESTARTS, sv2))"

definition child_of :: "u64 \<Rightarrow> supervisor \<Rightarrow> nat option" where
  "child_of pid sv = find_index (\<lambda>c. sc_used c \<and> sc_pid c = pid) (sv_children sv)"

definition supervisor_on_exit ::
  "'w loader \<Rightarrow> bool \<Rightarrow> (u64 \<Rightarrow> bool) \<Rightarrow> u64 \<Rightarrow> u64 \<Rightarrow> int \<Rightarrow> 'w super_env \<times> supervisor list
     \<Rightarrow> 'w super_env \<times> supervisor list" where
  "supervisor_on_exit load_elf console alive now pid exit_status st =
     (case st of (env, svs) \<Rightarrow>
        if exit_status = 0 then (env, svs)
        else
          case find_index (\<lambda>sv. sv_used sv \<and> child_of pid sv \<noteq> None) svs of
            None \<Rightarrow> (env, svs)
          | Some i \<Rightarrow>
              let (allowed, sv) = restart_allowed now (svs ! i);
                  svs' = svs[i := sv]
              in if \<not> allowed then (env, svs')
                 else if sv_policy sv = SUPER_ONE_FOR_ONE
                 then supervisor_restart_child load_elf console i (the (child_of pid sv)) (env, svs')
                 else
                   let pids = map sc_pid (filter (\<lambda>c. sc_used c \<and> sc_pid c \<noteq> pid) (sv_children sv));
                       restart = children_where sc_used sv
                   in restart_children load_elf console i restart (kill_pids alive pids env, svs'))"

section \<open>Contracts\<close>

interpretation sup: slot_table sv_used super_setup "\<lambda>sv. sv\<lparr>sv_used := False\<rparr>"
proof unfold_locales
  fix a e show "sv_used (super_setup a e)" by (cases a) simp
qed simp

interpretation supch: slot_table sc_used child_setup child_clear
proof unfold_locales
  fix a e show "sc_used (child_setup a e)" by (cases a) simp
qed (simp add: child_clear_def)

section \<open>The restart rate\<close>

text \<open>The decisions for crashes at the ticks \<open>ts\<close>, one after another.\<close>

fun crash_decisions :: "u64 list \<Rightarrow> supervisor \<Rightarrow> bool list" where
  "crash_decisions [] sv = []"
| "crash_decisions (t # ts) sv =
     (case restart_allowed t sv of (a, sv') \<Rightarrow> a # crash_decisions ts sv')"

definition restarts :: "u64 list \<Rightarrow> supervisor \<Rightarrow> nat" where
  "restarts ts sv = length (filter (\<lambda>a. a) (crash_decisions ts sv))"

lemma restart_allowed_cases:
  assumes "sv_window_start sv \<le> now" and "unat (sv_restart_count sv) + 1 < 2 ^ 32"
  shows "fst (restart_allowed now sv) \<longleftrightarrow>
       (unat now - unat (sv_window_start sv) > 50 \<or> unat (sv_restart_count sv) < 5)"
    and "unat (sv_restart_count (snd (restart_allowed now sv))) =
       (if unat now - unat (sv_window_start sv) > 50 then 1 else unat (sv_restart_count sv) + 1)"
    and "sv_window_start (snd (restart_allowed now sv)) =
       (if unat now - unat (sv_window_start sv) > 50 then now else sv_window_start sv)"
proof -
  have d: "now - sv_window_start sv > SUPER_RESTART_WINDOW \<longleftrightarrow> unat now - unat (sv_window_start sv) > 50"
    using assms(1) by (simp add: SUPER_RESTART_WINDOW_def word_less_nat_alt unat_sub)
  have c: "unat (sv_restart_count sv + 1) = unat (sv_restart_count sv) + 1"
    using assms(2) by (simp add: unat_word_ariths)
  show "fst (restart_allowed now sv) \<longleftrightarrow>
       (unat now - unat (sv_window_start sv) > 50 \<or> unat (sv_restart_count sv) < 5)"
    using d c by (auto simp: restart_allowed_def Let_def SUPER_MAX_RESTARTS_def word_less_nat_alt)
  show "unat (sv_restart_count (snd (restart_allowed now sv))) =
       (if unat now - unat (sv_window_start sv) > 50 then 1 else unat (sv_restart_count sv) + 1)"
    using d c by (simp add: restart_allowed_def Let_def)
  show "sv_window_start (snd (restart_allowed now sv)) =
       (if unat now - unat (sv_window_start sv) > 50 then now else sv_window_start sv)"
    using d by (simp add: restart_allowed_def Let_def)
qed

lemma restarts_bound:
  "sorted ts \<Longrightarrow> list_all (\<lambda>t. sv_window_start sv \<le> t \<and> t \<le> m) ts \<Longrightarrow> sv_window_start sv \<le> m \<Longrightarrow>
   unat (sv_restart_count sv) + length ts < 2 ^ 32 \<Longrightarrow>
   restarts ts sv \<le> (5 - unat (sv_restart_count sv)) + 5 * ((unat m - unat (sv_window_start sv)) div 51)"
proof (induction ts arbitrary: sv)
  case Nil
  then show ?case by (simp add: restarts_def)
next
  case (Cons t ts)
  let ?s = "unat (sv_window_start sv)" and ?c = "unat (sv_restart_count sv)"
  let ?sv = "snd (restart_allowed t sv)"
  have le: "sv_window_start sv \<le> t" "t \<le> m" and lt: "?c + 1 < 2 ^ 32" using Cons.prems by auto
  note ra = restart_allowed_cases [OF le(1) lt]
  have tm: "?s \<le> unat t" "unat t \<le> unat m" using le by (simp_all add: word_le_nat_alt)
  have r: "restarts (t # ts) sv = (if fst (restart_allowed t sv) then 1 else 0) + restarts ts ?sv"
    by (simp add: restarts_def split: prod.split)
  have w: "sv_window_start ?sv \<le> t" using ra(3) le(1) by simp
  then have "list_all (\<lambda>u. sv_window_start ?sv \<le> u \<and> u \<le> m) ts"
    using Cons.prems(1,2) by (auto simp: list_all_iff intro: order_trans)
  moreover have "sv_window_start ?sv \<le> m" using w le(2) by (rule order_trans)
  moreover have "unat (sv_restart_count ?sv) + length ts < 2 ^ 32" using ra(2) Cons.prems(4) by simp
  ultimately have ih: "restarts ts ?sv \<le>
      (5 - unat (sv_restart_count ?sv)) + 5 * ((unat m - unat (sv_window_start ?sv)) div 51)"
    using Cons.IH [of ?sv] Cons.prems(1) by simp
  show ?case
  proof (cases "unat t - ?s > 50")
    case True
    have "51 + (unat m - unat t) \<le> unat m - ?s" using True tm by linarith
    then have "(51 + (unat m - unat t)) div 51 \<le> (unat m - ?s) div 51" by (rule div_le_mono)
    then have "1 + (unat m - unat t) div 51 \<le> (unat m - ?s) div 51" by simp
    then show ?thesis using ih True ra r by simp
  next
    case False
    then show ?thesis using ih ra r by auto
  qed
qed

section \<open>Child paths\<close>

lemma copy_last_nul_eq:
  assumes "length dst = n" and "0 < n"
  shows "copy_last_nul n src dst =
     (take (n - 1) (cstr src) @ drop (min (n - 1) (length (cstr src))) dst)[n - 1 := NUL]"
  using copy_loop_eq [of "n - 1" dst 0 src] assms by (simp add: copy_last_nul_def)

lemma cstr_append: "NUL \<notin> set a \<Longrightarrow> cstr (a @ b) = a @ cstr b"
  by (induction a) (auto simp: cstr_Cons)

lemma cstr_copy_last_nul:
  assumes "length dst = n" and "0 < n" and "length (cstr src) < n" and "dst ! (n - 1) = NUL"
  shows "cstr (copy_last_nul n src dst) = cstr src @ cstr (drop (length (cstr src)) dst)"
proof -
  let ?k = "length (cstr src)"
  have k: "?k \<le> n - 1" using assms(2,3) by linarith
  have "(cstr src @ drop ?k dst)[n - 1 := NUL] = cstr src @ (drop ?k dst)[n - 1 - ?k := NUL]"
    using k by (simp add: list_update_append)
  also have "(drop ?k dst)[n - 1 - ?k := NUL] = drop ?k dst"
    using assms k by (metis add_diff_inverse_nat drop_update_swap list_update_id not_less)
  finally have "copy_last_nul n src dst = cstr src @ drop ?k dst"
    using copy_last_nul_eq [OF assms(1,2), of src] k by (simp add: min.absorb2)
  then show ?thesis by (simp add: cstr_append cstr_no_NUL)
qed

lemma supervisor_add_child_InrD:
  assumes "supervisor_add_child i path ns caps svs = (Inr j, svs')"
  shows "i < MAX_SUPERVISORS" "sv_used (svs ! i)" "j < length (sv_children (svs ! i))"
    "\<not> sc_used (sv_children (svs ! i) ! j)"
    "svs' = svs[i := (svs ! i)\<lparr>sv_children := (sv_children (svs ! i))
       [j := child_setup (path, ns, caps) (sv_children (svs ! i) ! j)],
       sv_child_count := sv_child_count (svs ! i) + 1\<rparr>]"
proof -
  show b: "i < MAX_SUPERVISORS" "sv_used (svs ! i)"
    using assms by (auto simp: supervisor_add_child_def split: if_splits)
  obtain cs where al: "alloc_slot sc_used (child_setup (path, ns, caps)) (sv_children (svs ! i)) = Some (j, cs)"
    and svs': "svs' = svs[i := (svs ! i)\<lparr>sv_children := cs, sv_child_count := sv_child_count (svs ! i) + 1\<rparr>]"
    using assms b by (auto simp: supervisor_add_child_def Let_def split: option.splits)
  show "j < length (sv_children (svs ! i))" "\<not> sc_used (sv_children (svs ! i) ! j)"
    "svs' = svs[i := (svs ! i)\<lparr>sv_children := (sv_children (svs ! i))
       [j := child_setup (path, ns, caps) (sv_children (svs ! i) ! j)],
       sv_child_count := sv_child_count (svs ! i) + 1\<rparr>]"
    using alloc_slot_SomeD [OF al] svs' by auto
qed

section \<open>Restarting all children\<close>

text \<open>What a launch of child \<open>c\<close> of \<open>sv\<close> sets in the new process.\<close>

definition launch_attrs :: "launch \<Rightarrow> u64 \<times> u32 \<times> u32" where
  "launch_attrs l = (la_parent_pid l, la_capabilities l, la_ns_id l)"

definition child_attrs :: "supervisor \<Rightarrow> super_child \<Rightarrow> u64 \<times> u32 \<times> u32" where
  "child_attrs sv c = (sv_owner_pid sv, ucast (sc_caps c), ucast (sc_ns_id c))"

lemma restart_child_used:
  assumes "load_elf (se_world env) (cstr (sc_elf_path (sv_children (svs ! i) ! j))) = (Some pid, w)"
    and "sc_used (sv_children (svs ! i) ! j)" and "i < length svs" and "j < length (sv_children (svs ! i))"
    and "supervisor_restart_child load_elf console i j (env, svs) = (env', svs')"
  shows "map launch_attrs (se_launched env') = map launch_attrs (se_launched env) @
       [child_attrs (svs ! i) (sv_children (svs ! i) ! j)]"
    and "se_killed env' = se_killed env"
    and "svs' = svs[i := (svs ! i)\<lparr>sv_children := (sv_children (svs ! i))
          [j := (sv_children (svs ! i) ! j)\<lparr>sc_pid := pid\<rparr>]\<rparr>]"
  using assms by (auto simp: supervisor_restart_child_def Let_def launch_attrs_def child_attrs_def)

lemma restart_children_all:
  assumes load: "\<And>w p. fst (load_elf w p) \<noteq> None"
  shows "distinct js \<Longrightarrow> \<forall>j \<in> set js. j < length (sv_children (svs ! i)) \<and> sc_used (sv_children (svs ! i) ! j) \<Longrightarrow>
   i < length svs \<Longrightarrow> restart_children load_elf console i js (env, svs) = (env', svs') \<Longrightarrow>
   map launch_attrs (se_launched env') = map launch_attrs (se_launched env) @
     map (\<lambda>j. child_attrs (svs ! i) (sv_children (svs ! i) ! j)) js \<and>
   se_killed env' = se_killed env \<and> length svs' = length svs \<and> (\<forall>k. k \<noteq> i \<longrightarrow> svs' ! k = svs ! k)"
proof (induction js arbitrary: env svs)
  case Nil
  then show ?case by (simp add: restart_children_def)
next
  case (Cons j js)
  let ?sv = "svs ! i"
  have j: "j < length (sv_children ?sv)" "sc_used (sv_children ?sv ! j)" using Cons.prems(2) by auto
  obtain pid w where ld: "load_elf (se_world env) (cstr (sc_elf_path (sv_children ?sv ! j))) = (Some pid, w)"
    using load by (metis option.exhaust prod.collapse)
  obtain env1 svs1 where s: "supervisor_restart_child load_elf console i j (env, svs) = (env1, svs1)" by fastforce
  note r = restart_child_used [where load_elf = load_elf, OF ld j(2) Cons.prems(3) j(1) s]
  have same: "sv_children (svs1 ! i) ! k = sv_children ?sv ! k" if "k \<in> set js" for k
  proof -
    have "j \<noteq> k" using Cons.prems(1) that by auto
    then show ?thesis using r(3) Cons.prems(3) by simp
  qed
  have len: "length (sv_children (svs1 ! i)) = length (sv_children ?sv)"
    "sv_owner_pid (svs1 ! i) = sv_owner_pid ?sv" "i < length svs1" "length svs1 = length svs"
    using r(3) Cons.prems(3) by auto
  have run: "restart_children load_elf console i js (env1, svs1) = (env', svs')"
    using Cons.prems(4) s by (simp add: restart_children_def)
  have "\<forall>k \<in> set js. k < length (sv_children (svs1 ! i)) \<and> sc_used (sv_children (svs1 ! i) ! k)"
    using Cons.prems(2) same len by auto
  from Cons.IH [OF _ this len(3) run] Cons.prems(1)
  have ih: "map launch_attrs (se_launched env') = map launch_attrs (se_launched env1) @
     map (\<lambda>j. child_attrs (svs1 ! i) (sv_children (svs1 ! i) ! j)) js"
    "se_killed env' = se_killed env1" "length svs' = length svs1" "\<forall>k. k \<noteq> i \<longrightarrow> svs' ! k = svs1 ! k" by auto
  have "map (\<lambda>j. child_attrs (svs1 ! i) (sv_children (svs1 ! i) ! j)) js
      = map (\<lambda>j. child_attrs ?sv (sv_children ?sv ! j)) js"
    using same len(2) by (auto simp: child_attrs_def)
  then show ?case using ih r len by simp
qed

lemma restart_allowed_frame [simp]:
  "sv_children (snd (restart_allowed now sv)) = sv_children sv"
  "sv_policy (snd (restart_allowed now sv)) = sv_policy sv"
  "sv_owner_pid (snd (restart_allowed now sv)) = sv_owner_pid sv"
  by (simp_all add: restart_allowed_def Let_def)

lemma map_filter_upt: "map (\<lambda>j. f (xs ! j)) (filter (\<lambda>j. P (xs ! j)) [0..<length xs]) = map f (filter P xs)"
proof -
  have "filter P xs = map ((!) xs) (filter (\<lambda>j. P (xs ! j)) [0..<length xs])"
    by (metis (no_types, lifting) comp_apply filter_cong filter_map map_nth)
  then show ?thesis by simp
qed

section \<open>Properties\<close>



text \<open>
  The path of a child is not terminated when it is stored: in a reused slot the program that
  will be loaded is the new path followed by the tail of the path the slot held before, from the
  position where the new path ends.
\<close>

theorem add_child_keeps_stale_path:
  assumes "i < length svs" and "supervisor_add_child i path ns caps svs = (Inr j, svs')"
    and "length (sc_elf_path (sv_children (svs ! i) ! j)) = ELF_PATH_MAX"
    and "sc_elf_path (sv_children (svs ! i) ! j) ! (ELF_PATH_MAX - 1) = NUL"
    and "length (cstr path) < ELF_PATH_MAX"
  shows "cstr (sc_elf_path (sv_children (svs' ! i) ! j)) =
     cstr path @ cstr (drop (length (cstr path)) (sc_elf_path (sv_children (svs ! i) ! j)))"
proof -
  note d = supervisor_add_child_InrD [OF assms(2)]
  have "sc_elf_path (sv_children (svs' ! i) ! j) =
      copy_last_nul ELF_PATH_MAX path (sc_elf_path (sv_children (svs ! i) ! j))"
    using d assms(1) by simp
  then show ?thesis
    using cstr_copy_last_nul [OF assms(3) _ assms(5,4)] by (simp add: ELF_PATH_MAX_def)
qed

text \<open>
  In a table cut to one supervisor and one child slot, a supervisor with a child at \<^verbatim>\<open>/agent.elf\<close> is stopped; the next one adds \<^verbatim>\<open>/sh\<close> and would load
  \<^verbatim>\<open>/shent.elf\<close>.
\<close>

definition demo_super :: "supervisor list" where
  "demo_super = snd (supervisor_create 2 ''b'' (snd (snd (supervisor_stop (\<lambda>_. True) 0 1
     (\<lparr>se_world = (), se_launched = [], se_killed = [], se_slave_refs = 0\<rparr>,
      snd (supervisor_add_child 0 ''/agent.elf'' 0 0 (snd (supervisor_create 1 ''a''
        [supervisor_zero\<lparr>sv_children := [super_child_zero]\<rparr>]))))))))"

theorem add_child_keeps_stale_path_witness:
  "\<exists>svs'. supervisor_add_child 0 ''/sh'' 0 0 demo_super = (Inr 0, svs') \<and>
     cstr (sc_elf_path (sv_children (svs' ! 0) ! 0)) = ''/shent.elf''"
proof -
  define svs' where "svs' = snd (supervisor_add_child 0 ''/sh'' 0 0 demo_super)"
  have "fst (supervisor_add_child 0 ''/sh'' 0 0 demo_super) = Inr 0" by code_simp
  then have r: "supervisor_add_child 0 ''/sh'' 0 0 demo_super = (Inr 0, svs')"
    unfolding svs'_def by (metis prod.collapse)
  have l: "0 < length demo_super" "length (sc_elf_path (sv_children (demo_super ! 0) ! 0)) = ELF_PATH_MAX"
    "sc_elf_path (sv_children (demo_super ! 0) ! 0) ! (ELF_PATH_MAX - 1) = NUL"
    "length (cstr ''/sh'') < ELF_PATH_MAX" by code_simp+
  have "cstr ''/sh'' @ cstr (drop (length (cstr ''/sh'')) (sc_elf_path (sv_children (demo_super ! 0) ! 0)))
      = ''/shent.elf''" by code_simp
  then show ?thesis using add_child_keeps_stale_path [OF l(1) r l(2-4)] r by metis
qed


text \<open>A one-for-all supervisor of process 1 with two running children, 10 and 11.\<close>

definition demo_running :: "supervisor list" where
  "demo_running = [supervisor_zero\<lparr>sv_used := True, sv_owner_pid := 1, sv_policy := SUPER_ONE_FOR_ALL,
     sv_children := [super_child_zero\<lparr>sc_used := True, sc_pid := 10, sc_caps := 3\<rparr>,
                     super_child_zero\<lparr>sc_used := True, sc_pid := 11, sc_caps := 4\<rparr>]\<rparr>]"


end
