(* ===== verification/Handles.thy ===== *)
theory Handles
  imports Slot_Table
begin

text \<open>
  The reference-counted descriptor objects: event counters (\<^verbatim>\<open>kernel/src/ipc/eventfd.{h,c}\<close>), epoll
  sets (\<^verbatim>\<open>kernel/src/ipc/epoll.{h,c}\<close>) and submission rings (\<^verbatim>\<open>kernel/src/ipc/uring.{h,c}\<close>). The index
  argument is the signed \<^verbatim>\<open>int\<close> of the source; a function that ignores an invalid index returns the
  table unchanged. The three tables are instances of the contract \<open>handle_table\<close>.
\<close>

section \<open>Event counters\<close>

record eventfd =
  ev_counter :: u64
  ev_refs :: u32
  ev_flags :: u32
  ev_used :: bool

definition MAX_EVENTFDS :: nat where "MAX_EVENTFDS = 16"
definition EFD_NONBLOCK :: u32 where "EFD_NONBLOCK = push_bit 0 1"
definition EFD_SEMAPHORE :: u32 where "EFD_SEMAPHORE = push_bit 1 1"

definition eventfd_boot :: "eventfd list" where
  "eventfd_boot = replicate MAX_EVENTFDS \<lparr>ev_counter = 0, ev_refs = 0, ev_flags = 0, ev_used = False\<rparr>"

fun ev_init :: "u32 \<Rightarrow> eventfd \<Rightarrow> eventfd" where
  "ev_init flags e = e\<lparr>ev_used := True, ev_counter := 0, ev_refs := 1, ev_flags := flags\<rparr>"

definition eventfd_alloc :: "u32 \<Rightarrow> eventfd list \<Rightarrow> nat ret \<times> eventfd list" where
  "eventfd_alloc flags t =
     (case alloc_slot ev_used (ev_init flags) t of
        None \<Rightarrow> (Inl EGENERIC, t)
      | Some (i, t') \<Rightarrow> (Inr i, t'))"

definition ev_valid :: "int \<Rightarrow> eventfd list \<Rightarrow> bool" where
  "ev_valid idx t \<longleftrightarrow> \<not> (idx < 0 \<or> idx \<ge> int MAX_EVENTFDS \<or> \<not> ev_used (t ! nat idx))"

text \<open>One pass of the read loop under the lock: the value taken, if the counter is not zero.\<close>

definition ev_take :: "eventfd \<Rightarrow> (u64 \<times> eventfd) option" where
  "ev_take e =
     (if ev_counter e > 0 then
        Some (if ev_flags e AND EFD_SEMAPHORE \<noteq> 0
              then (1, e\<lparr>ev_counter := ev_counter e - 1\<rparr>)
              else (ev_counter e, e\<lparr>ev_counter := 0\<rparr>))
      else None)"

text \<open>
  The read loop. \<open>others\<close> are the changes other threads make to the table each time the reader yields;
  the loop has not returned (\<open>None\<close>) when they are used up.
\<close>

fun read_loop ::
  "(eventfd list \<Rightarrow> eventfd list) list \<Rightarrow> nat \<Rightarrow> bool \<Rightarrow> eventfd list \<Rightarrow> (u64 ret \<times> eventfd list) option" where
  "read_loop others i nonblock t =
     (case ev_take (t ! i) of
        Some (v, e) \<Rightarrow> Some (Inr v, t[i := e])
      | None \<Rightarrow>
          if nonblock then Some (Inl EGENERIC, t)
          else if \<not> ev_used (t ! i) then Some (Inl EGENERIC, t)
          else case others of
                 [] \<Rightarrow> None
               | step # rest \<Rightarrow> read_loop rest i nonblock (step t))"

definition eventfd_read ::
  "(eventfd list \<Rightarrow> eventfd list) list \<Rightarrow> int \<Rightarrow> bool \<Rightarrow> eventfd list \<Rightarrow> (u64 ret \<times> eventfd list) option" where
  "eventfd_read others idx nonblock t =
     (if \<not> ev_valid idx t then Some (Inl EGENERIC, t) else read_loop others (nat idx) nonblock t)"

definition eventfd_write :: "int \<Rightarrow> u64 \<Rightarrow> eventfd list \<Rightarrow> nat ret \<times> eventfd list" where
  "eventfd_write idx value t =
     (if \<not> ev_valid idx t then (Inl EGENERIC, t)
      else (Inr 8, t[nat idx := (t ! nat idx)\<lparr>ev_counter := ev_counter (t ! nat idx) + value\<rparr>]))"

definition ev_close :: "eventfd \<Rightarrow> eventfd" where
  "ev_close e =
     (let e1 = (if ev_refs e > 0 then e\<lparr>ev_refs := ev_refs e - 1\<rparr> else e)
      in if ev_refs e1 = 0 then e1\<lparr>ev_used := False, ev_counter := 0\<rparr> else e1)"

definition eventfd_close :: "int \<Rightarrow> eventfd list \<Rightarrow> eventfd list" where
  "eventfd_close idx t = (if \<not> ev_valid idx t then t else t[nat idx := ev_close (t ! nat idx)])"

definition ev_ref :: "eventfd \<Rightarrow> eventfd" where
  "ev_ref e = e\<lparr>ev_refs := ev_refs e + 1\<rparr>"

definition eventfd_ref :: "int \<Rightarrow> eventfd list \<Rightarrow> eventfd list" where
  "eventfd_ref idx t = (if \<not> ev_valid idx t then t else t[nat idx := ev_ref (t ! nat idx)])"

text \<open>A pointer to an entry is its index in the table.\<close>

definition eventfd_get :: "int \<Rightarrow> eventfd list \<Rightarrow> nat option" where
  "eventfd_get idx t =
     (if idx < 0 \<or> idx \<ge> int MAX_EVENTFDS then None
      else if \<not> ev_used (t ! nat idx) then None
      else Some (nat idx))"

definition eventfd_index :: "nat \<Rightarrow> eventfd list \<Rightarrow> int" where
  "eventfd_index p t =
     (case find_index (\<lambda>i. ev_used (t ! i) \<and> i = p) [0..<length t] of None \<Rightarrow> -1 | Some i \<Rightarrow> int i)"

definition eventfd_readable :: "int \<Rightarrow> eventfd list \<Rightarrow> bool" where
  "eventfd_readable idx t = (if \<not> ev_valid idx t then False else ev_counter (t ! nat idx) > 0)"

section \<open>Epoll sets\<close>

record epoll_interest =
  ei_fd :: int
  ei_events :: u32
  ei_data :: u64

record epoll_instance =
  ep_used :: bool
  ep_refs :: u32
  ep_interests :: "epoll_interest list"
  ep_interest_count :: u32

definition MAX_EPOLL_INSTANCES :: nat where "MAX_EPOLL_INSTANCES = 8"
definition EPOLL_MAX_FDS :: nat where "EPOLL_MAX_FDS = 64"
definition EPOLL_CTL_ADD :: int where "EPOLL_CTL_ADD = 1"
definition EPOLL_CTL_DEL :: int where "EPOLL_CTL_DEL = 3"
definition EPOLL_CTL_MOD :: int where "EPOLL_CTL_MOD = 2"

definition epoll_boot :: "epoll_instance list" where
  "epoll_boot = replicate MAX_EPOLL_INSTANCES \<lparr>ep_used = False, ep_refs = 0,
     ep_interests = replicate EPOLL_MAX_FDS \<lparr>ei_fd = 0, ei_events = 0, ei_data = 0\<rparr>, ep_interest_count = 0\<rparr>"

fun ep_init :: "unit \<Rightarrow> epoll_instance \<Rightarrow> epoll_instance" where
  "ep_init _ ep = ep\<lparr>ep_used := True, ep_refs := 1, ep_interest_count := 0,
     ep_interests := map (\<lambda>x. x\<lparr>ei_fd := -1\<rparr>) (ep_interests ep)\<rparr>"

definition epoll_create_instance :: "epoll_instance list \<Rightarrow> nat ret \<times> epoll_instance list" where
  "epoll_create_instance t =
     (case alloc_slot ep_used (ep_init ()) t of
        None \<Rightarrow> (Inl EGENERIC, t)
      | Some (i, t') \<Rightarrow> (Inr i, t'))"

definition ep_add :: "int \<Rightarrow> u32 \<Rightarrow> u64 \<Rightarrow> epoll_instance \<Rightarrow> unit ret \<times> epoll_instance" where
  "ep_add fd events data ep =
     (case find_index (\<lambda>x. ei_fd x = fd) (ep_interests ep) of
        Some _ \<Rightarrow> (Inl EEXIST, ep)
      | None \<Rightarrow>
          (case find_index (\<lambda>x. ei_fd x = -1) (ep_interests ep) of
             Some i \<Rightarrow> (Inr (), ep\<lparr>ep_interests := (ep_interests ep)[i := \<lparr>ei_fd = fd, ei_events = events, ei_data = data\<rparr>],
                                  ep_interest_count := ep_interest_count ep + 1\<rparr>)
           | None \<Rightarrow> (Inl ENOBUFS, ep)))"

definition ep_mod :: "int \<Rightarrow> u32 \<Rightarrow> u64 \<Rightarrow> epoll_instance \<Rightarrow> unit ret \<times> epoll_instance" where
  "ep_mod fd events data ep =
     (case find_index (\<lambda>x. ei_fd x = fd) (ep_interests ep) of
        Some i \<Rightarrow> (Inr (), ep\<lparr>ep_interests := (ep_interests ep)
                    [i := (ep_interests ep ! i)\<lparr>ei_events := events, ei_data := data\<rparr>]\<rparr>)
      | None \<Rightarrow> (Inl ENOENT, ep))"

definition ep_del :: "int \<Rightarrow> epoll_instance \<Rightarrow> unit ret \<times> epoll_instance" where
  "ep_del fd ep =
     (case find_index (\<lambda>x. ei_fd x = fd) (ep_interests ep) of
        Some i \<Rightarrow> (Inr (), ep\<lparr>ep_interests := (ep_interests ep)[i := \<lparr>ei_fd = -1, ei_events = 0, ei_data = 0\<rparr>],
                             ep_interest_count := (if ep_interest_count ep > 0 then ep_interest_count ep - 1
                                                   else ep_interest_count ep)\<rparr>)
      | None \<Rightarrow> (Inl ENOENT, ep))"

definition epoll_ctl ::
  "int \<Rightarrow> int \<Rightarrow> int \<Rightarrow> u32 \<Rightarrow> u64 \<Rightarrow> epoll_instance list \<Rightarrow> unit ret \<times> epoll_instance list" where
  "epoll_ctl idx op fd events data t =
     (if idx < 0 \<or> idx \<ge> int MAX_EPOLL_INSTANCES \<or> \<not> ep_used (t ! nat idx) then (Inl EINVAL, t)
      else
        let ep = t ! nat idx;
            (r, ep') = (if op = EPOLL_CTL_ADD then ep_add fd events data ep
                        else if op = EPOLL_CTL_MOD then ep_mod fd events data ep
                        else if op = EPOLL_CTL_DEL then ep_del fd ep
                        else (Inl EINVAL, ep))
        in (r, t[nat idx := ep']))"

definition ep_close :: "epoll_instance \<Rightarrow> epoll_instance" where
  "ep_close ep =
     (let e1 = (if ep_refs ep > 0 then ep\<lparr>ep_refs := ep_refs ep - 1\<rparr> else ep)
      in if ep_refs e1 = 0 then e1\<lparr>ep_used := False, ep_interest_count := 0\<rparr> else e1)"

definition epoll_close :: "int \<Rightarrow> epoll_instance list \<Rightarrow> epoll_instance list" where
  "epoll_close idx t =
     (if idx < 0 \<or> idx \<ge> int MAX_EPOLL_INSTANCES then t
      else if \<not> ep_used (t ! nat idx) then t
      else t[nat idx := ep_close (t ! nat idx)])"

definition ep_ref :: "epoll_instance \<Rightarrow> epoll_instance" where
  "ep_ref ep = ep\<lparr>ep_refs := ep_refs ep + 1\<rparr>"

definition epoll_ref :: "int \<Rightarrow> epoll_instance list \<Rightarrow> epoll_instance list" where
  "epoll_ref idx t =
     (if idx < 0 \<or> idx \<ge> int MAX_EPOLL_INSTANCES then t
      else if ep_used (t ! nat idx) then t[nat idx := ep_ref (t ! nat idx)] else t)"

definition epoll_get :: "int \<Rightarrow> epoll_instance list \<Rightarrow> nat option" where
  "epoll_get idx t =
     (if idx < 0 \<or> idx \<ge> int MAX_EPOLL_INSTANCES then None
      else if \<not> ep_used (t ! nat idx) then None
      else Some (nat idx))"

definition epoll_index :: "nat option \<Rightarrow> int" where
  "epoll_index p =
     (case p of
        None \<Rightarrow> -1
      | Some k \<Rightarrow> (case find_index (\<lambda>i. i = k) [0..<MAX_EPOLL_INSTANCES] of None \<Rightarrow> -1 | Some i \<Rightarrow> int i))"

section \<open>Submission rings\<close>

record uring_instance =
  ur_used :: bool
  ur_refs :: u32
  ur_max_entries :: u32

definition MAX_URING_INSTANCES :: nat where "MAX_URING_INSTANCES = 4"
definition URING_MAX_ENTRIES :: u32 where "URING_MAX_ENTRIES = 32"

fun ur_init :: "u32 \<Rightarrow> uring_instance \<Rightarrow> uring_instance" where
  "ur_init entries u = u\<lparr>ur_used := True, ur_refs := 1, ur_max_entries := entries\<rparr>"

definition uring_create :: "u32 \<Rightarrow> uring_instance list \<Rightarrow> nat ret \<times> uring_instance list" where
  "uring_create entries0 t =
     (let entries = (if entries0 = 0 \<or> entries0 > URING_MAX_ENTRIES then URING_MAX_ENTRIES else entries0)
      in case alloc_slot ur_used (ur_init entries) t of
           None \<Rightarrow> (Inl EGENERIC, t)
         | Some (i, t') \<Rightarrow> (Inr i, t'))"

definition ur_close :: "uring_instance \<Rightarrow> uring_instance" where
  "ur_close u =
     (let u1 = (if ur_refs u > 0 then u\<lparr>ur_refs := ur_refs u - 1\<rparr> else u)
      in if ur_refs u1 = 0 then u1\<lparr>ur_used := False\<rparr> else u1)"

definition uring_close :: "int \<Rightarrow> uring_instance list \<Rightarrow> uring_instance list" where
  "uring_close idx t =
     (if idx < 0 \<or> idx \<ge> int MAX_URING_INSTANCES then t
      else if \<not> ur_used (t ! nat idx) then t
      else t[nat idx := ur_close (t ! nat idx)])"

definition ur_ref :: "uring_instance \<Rightarrow> uring_instance" where
  "ur_ref u = u\<lparr>ur_refs := ur_refs u + 1\<rparr>"

definition uring_ref :: "int \<Rightarrow> uring_instance list \<Rightarrow> uring_instance list" where
  "uring_ref idx t =
     (if idx < 0 \<or> idx \<ge> int MAX_URING_INSTANCES then t
      else if ur_used (t ! nat idx) then t[nat idx := ur_ref (t ! nat idx)] else t)"

definition uring_get :: "int \<Rightarrow> uring_instance list \<Rightarrow> nat option" where
  "uring_get idx t =
     (if idx < 0 \<or> idx \<ge> int MAX_URING_INSTANCES then None
      else if \<not> ur_used (t ! nat idx) then None
      else Some (nat idx))"

definition uring_index :: "nat option \<Rightarrow> int" where
  "uring_index p =
     (case p of
        None \<Rightarrow> -1
      | Some k \<Rightarrow> (case find_index (\<lambda>i. i = k) [0..<MAX_URING_INSTANCES] of None \<Rightarrow> -1 | Some i \<Rightarrow> int i))"

section \<open>The handle contract\<close>

interpretation evh: handle_table ev_used ev_init "\<lambda>e. e\<lparr>ev_used := False, ev_counter := 0\<rparr>" ev_refs ev_ref ev_close
  by unfold_locales (auto simp: ev_ref_def ev_close_def Let_def word_gt_0 diff_eq_eq)

interpretation eph: handle_table ep_used ep_init "\<lambda>e. e\<lparr>ep_used := False, ep_interest_count := 0\<rparr>" ep_refs ep_ref ep_close
  by unfold_locales (auto simp: ep_ref_def ep_close_def Let_def word_gt_0 diff_eq_eq)

interpretation urh: handle_table ur_used ur_init "\<lambda>u. u\<lparr>ur_used := False\<rparr>" ur_refs ur_ref ur_close
  by unfold_locales (auto simp: ur_ref_def ur_close_def Let_def word_gt_0 diff_eq_eq)

section \<open>Lifetime of a handle\<close>

lemma ev_valid_nat: "ev_valid (int i) t \<longleftrightarrow> i < MAX_EVENTFDS \<and> ev_used (t ! i)"
  by (auto simp: ev_valid_def)

lemma eventfd_ref_funpow:
  assumes "i < MAX_EVENTFDS" and "length t = MAX_EVENTFDS" and "ev_used (t ! i)"
  shows "((eventfd_ref (int i)) ^^ n) t = t[i := (ev_ref ^^ n) (t ! i)]"
proof (induction n)
  case 0
  then show ?case by simp
next
  case (Suc n)
  then show ?case
    using assms evh.used_funpow_ref [of n "t ! i"] by (simp add: eventfd_ref_def ev_valid_nat)
qed

lemma eventfd_close_funpow:
  assumes "i < MAX_EVENTFDS" and "length t = MAX_EVENTFDS" and "ev_used (t ! i)"
    and "n \<le> unat (ev_refs (t ! i))"
  shows "((eventfd_close (int i)) ^^ n) t = t[i := (ev_close ^^ n) (t ! i)]"
  using assms(4)
proof (induction n)
  case 0
  then show ?case by simp
next
  case (Suc n)
  then have "n < unat (ev_refs (t ! i))" by simp
  then have "ev_used ((ev_close ^^ n) (t ! i))" using evh.close_funpow [OF assms(3)] by blast
  then show ?case using Suc assms by (simp add: eventfd_close_def ev_valid_nat)
qed

section \<open>Conservation of events\<close>

datatype ev_op = EvWrite u64 | EvRead

fun ev_exec :: "int \<Rightarrow> ev_op \<Rightarrow> u64 \<times> eventfd list \<Rightarrow> u64 \<times> eventfd list" where
  "ev_exec idx (EvWrite v) (got, t) = (got, snd (eventfd_write idx v t))"
| "ev_exec idx EvRead (got, t) =
     (case eventfd_read [] idx True t of
        Some (Inr v, t') \<Rightarrow> (got + v, t')
      | Some (Inl _, t') \<Rightarrow> (got, t')
      | None \<Rightarrow> (got, t))"

fun ev_written :: "ev_op list \<Rightarrow> u64" where
  "ev_written [] = 0"
| "ev_written (EvWrite v # ops) = v + ev_written ops"
| "ev_written (EvRead # ops) = ev_written ops"

lemma ev_take_sum: "ev_take e = Some (v, e') \<Longrightarrow> v + ev_counter e' = ev_counter e \<and> ev_used e' = ev_used e \<and> v \<noteq> 0"
  by (auto simp: ev_take_def word_gt_0 split: if_splits)

lemma ev_exec_step:
  assumes "length t = MAX_EVENTFDS" and "ev_valid (int i) t"
    and "ev_exec (int i) op (got, t) = (got', t')"
  shows "length t' = MAX_EVENTFDS" and "ev_valid (int i) t'"
    and "got' + ev_counter (t' ! i) = got + ev_counter (t ! i) + ev_written [op]"
proof -
  have i: "i < MAX_EVENTFDS" "ev_used (t ! i)" using assms(2) by (auto simp: ev_valid_nat)
  have "length t' = MAX_EVENTFDS \<and> ev_valid (int i) t' \<and>
      got' + ev_counter (t' ! i) = got + ev_counter (t ! i) + ev_written [op]"
  proof (cases op)
    case (EvWrite v)
    then have "got' = got" "t' = t[i := (t ! i)\<lparr>ev_counter := ev_counter (t ! i) + v\<rparr>]"
      using assms(2,3) by (auto simp: eventfd_write_def)
    then show ?thesis using EvWrite i assms(1) by (simp add: ev_valid_nat)
  next
    case EvRead
    show ?thesis
    proof (cases "ev_take (t ! i)")
      case None
      then have "got' = got" "t' = t" using EvRead assms(2,3) by (auto simp: eventfd_read_def)
      then show ?thesis using EvRead assms(1,2) by simp
    next
      case (Some ve)
      obtain v e where ve: "ve = (v, e)" by fastforce
      note s = ev_take_sum [OF Some [unfolded ve]]
      have "got' = got + v" "t' = t[i := e]" using EvRead Some ve assms(2,3) by (auto simp: eventfd_read_def)
      then show ?thesis using EvRead i assms(1) s by (simp add: ev_valid_nat add.assoc)
    qed
  qed
  then show "length t' = MAX_EVENTFDS" "ev_valid (int i) t'"
    "got' + ev_counter (t' ! i) = got + ev_counter (t ! i) + ev_written [op]" by auto
qed

lemma ev_written_Cons: "ev_written (op # ops) = ev_written [op] + ev_written ops"
  by (cases op) simp_all

lemma ev_run_sum:
  "length t = MAX_EVENTFDS \<Longrightarrow> ev_valid (int i) t \<Longrightarrow> fold (ev_exec (int i)) ops (got, t) = (got', t') \<Longrightarrow>
   got' + ev_counter (t' ! i) = got + ev_counter (t ! i) + ev_written ops"
proof (induction ops arbitrary: got t)
  case Nil
  then show ?case by simp
next
  case (Cons op ops)
  obtain g1 t1 where s: "ev_exec (int i) op (got, t) = (g1, t1)" by fastforce
  note st = ev_exec_step [OF Cons.prems(1,2) s]
  have "fold (ev_exec (int i)) ops (g1, t1) = (got', t')" using Cons.prems(3) s by simp
  from Cons.IH [OF st(1,2) this] st(3) show ?case
    by (subst ev_written_Cons) (simp add: add.assoc)
qed

section \<open>Blocking reads\<close>

text \<open>
  The states a blocked reader sees: the table when it starts, and after each yield.
\<close>

fun seen :: "(eventfd list \<Rightarrow> eventfd list) list \<Rightarrow> eventfd list \<Rightarrow> eventfd list list" where
  "seen [] t = [t]"
| "seen (f # fs) t = t # seen fs (f t)"

lemma read_loop_returns:
  "read_loop others i False t \<noteq> None \<longleftrightarrow>
   (\<exists>s \<in> set (seen others t). ev_counter (s ! i) > 0 \<or> \<not> ev_used (s ! i))"
proof (induction others arbitrary: t)
  case Nil
  then show ?case by (auto simp: ev_take_def split: option.splits)
next
  case (Cons f fs)
  then show ?case by (subst read_loop.simps) (auto simp: ev_take_def split: option.splits)
qed

section \<open>The epoll set as a map\<close>

definition ep_map :: "epoll_instance \<Rightarrow> int \<Rightarrow> (u32 \<times> u64) option" where
  "ep_map ep fd =
     (if fd = -1 then None
      else case find_index (\<lambda>x. ei_fd x = fd) (ep_interests ep) of
             None \<Rightarrow> None
           | Some i \<Rightarrow> Some (ei_events (ep_interests ep ! i), ei_data (ep_interests ep ! i)))"

definition ep_live :: "epoll_instance \<Rightarrow> nat" where
  "ep_live ep = length (filter (\<lambda>x. ei_fd x \<noteq> -1) (ep_interests ep))"

definition ep_ok :: "epoll_instance \<Rightarrow> bool" where
  "ep_ok ep \<longleftrightarrow> length (ep_interests ep) = EPOLL_MAX_FDS \<and>
     uniq_keys (\<lambda>x. ei_fd x \<noteq> -1) ei_fd (ep_interests ep) \<and> unat (ep_interest_count ep) = ep_live ep"

lemma ep_map_iff:
  assumes "ep_ok ep"
  shows "ep_map ep fd = Some v \<longleftrightarrow> fd \<noteq> -1 \<and> (\<exists>i < EPOLL_MAX_FDS. ei_fd (ep_interests ep ! i) = fd \<and>
     v = (ei_events (ep_interests ep ! i), ei_data (ep_interests ep ! i)))"
proof (cases "fd = -1")
  case True
  then show ?thesis by (simp add: ep_map_def)
next
  case False
  have len: "length (ep_interests ep) = EPOLL_MAX_FDS"
    and uq: "uniq_keys (\<lambda>x. ei_fd x \<noteq> -1) ei_fd (ep_interests ep)" using assms by (auto simp: ep_ok_def)
  show ?thesis
  proof (cases "find_index (\<lambda>x. ei_fd x = fd) (ep_interests ep)")
    case None
    then have "ei_fd (ep_interests ep ! i) \<noteq> fd" if "i < EPOLL_MAX_FDS" for i
      using that len by (simp add: find_index_None_iff)
    then show ?thesis using None False by (auto simp: ep_map_def)
  next
    case (Some k)
    then have k: "k < EPOLL_MAX_FDS" "ei_fd (ep_interests ep ! k) = fd" using find_index_SomeD [OF Some] len by auto
    have one: "i = k" if "i < EPOLL_MAX_FDS" "ei_fd (ep_interests ep ! i) = fd" for i
      using uq k that False len by (simp add: uniq_keys_def)
    have "ep_map ep fd = Some (ei_events (ep_interests ep ! k), ei_data (ep_interests ep ! k))"
      using Some False by (simp add: ep_map_def)
    then show ?thesis using False k one by (metis option.inject)
  qed
qed

lemma ep_map_None_iff:
  assumes "ep_ok ep" and "fd \<noteq> -1"
  shows "ep_map ep fd = None \<longleftrightarrow> find_index (\<lambda>x. ei_fd x = fd) (ep_interests ep) = None"
  using assms(2) by (auto simp: ep_map_def split: option.splits)

lemma ep_slot_update:
  assumes ok: "ep_ok ep" and i: "i < EPOLL_MAX_FDS"
    and fresh: "\<And>k. k < EPOLL_MAX_FDS \<Longrightarrow> ei_fd (ep_interests ep ! k) = ei_fd x \<Longrightarrow> ei_fd x \<noteq> -1 \<Longrightarrow> k = i"
    and cnt: "unat c = (if ei_fd x = -1 then 0 else 1) + ep_live ep - (if ei_fd (ep_interests ep ! i) = -1 then 0 else 1)"
    and ep': "ep' = ep\<lparr>ep_interests := (ep_interests ep)[i := x], ep_interest_count := c\<rparr>"
  shows "ep_ok ep'"
    and "ep_map ep' = (\<lambda>g. if g \<noteq> -1 \<and> g = ei_fd x then Some (ei_events x, ei_data x)
            else if g = ei_fd (ep_interests ep ! i) then None else ep_map ep g)"
proof -
  have len: "length (ep_interests ep) = EPOLL_MAX_FDS"
    and uq: "uniq_keys (\<lambda>x. ei_fd x \<noteq> -1) ei_fd (ep_interests ep)" using ok by (auto simp: ep_ok_def)
  have uq': "uniq_keys (\<lambda>x. ei_fd x \<noteq> -1) ei_fd ((ep_interests ep)[i := x])"
    unfolding uniq_keys_def
  proof (intro allI impI)
    fix a b
    assume ab: "a < length ((ep_interests ep)[i := x])" "b < length ((ep_interests ep)[i := x])"
      "ei_fd ((ep_interests ep)[i := x] ! a) \<noteq> -1" "ei_fd ((ep_interests ep)[i := x] ! b) \<noteq> -1"
      "ei_fd ((ep_interests ep)[i := x] ! a) = ei_fd ((ep_interests ep)[i := x] ! b)"
    show "a = b"
    proof (cases "a = i \<or> b = i")
      case True
      then show ?thesis using ab fresh [of a] fresh [of b] len by (auto simp: nth_list_update_if split: if_splits)
    next
      case False
      then show ?thesis using ab uq len by (auto simp: nth_list_update_if uniq_keys_def)
    qed
  qed
  have "ep_live ep' + (if ei_fd (ep_interests ep ! i) \<noteq> -1 then 1 else 0)
      = ep_live ep + (if ei_fd x \<noteq> -1 then 1 else 0)"
    using length_filter_update [of i "ep_interests ep" "\<lambda>x. ei_fd x \<noteq> -1" x] i len
    by (simp add: ep_live_def ep')
  then have "unat c = ep_live ep'" using cnt by (auto split: if_splits)
  then show ok': "ep_ok ep'" using uq' len by (simp add: ep_ok_def ep')
  show "ep_map ep' = (\<lambda>g. if g \<noteq> -1 \<and> g = ei_fd x then Some (ei_events x, ei_data x)
            else if g = ei_fd (ep_interests ep ! i) then None else ep_map ep g)"
  proof
    fix g
    have eq: "(\<exists>k < EPOLL_MAX_FDS. ei_fd ((ep_interests ep)[i := x] ! k) = g \<and> Q ((ep_interests ep)[i := x] ! k)) \<longleftrightarrow>
        (ei_fd x = g \<and> Q x) \<or> (\<exists>k < EPOLL_MAX_FDS. k \<noteq> i \<and> ei_fd (ep_interests ep ! k) = g \<and> Q (ep_interests ep ! k))" for Q
      using i len by (metis nth_list_update)
    have old: "(\<exists>k < EPOLL_MAX_FDS. k \<noteq> i \<and> ei_fd (ep_interests ep ! k) = g \<and> Q (ep_interests ep ! k)) \<longleftrightarrow>
        g \<noteq> ei_fd (ep_interests ep ! i) \<and> (\<exists>k < EPOLL_MAX_FDS. ei_fd (ep_interests ep ! k) = g \<and> Q (ep_interests ep ! k))"
      if "g \<noteq> -1" for Q using uq i len that unfolding uniq_keys_def by metis
    have new: "\<not> (\<exists>k < EPOLL_MAX_FDS. k \<noteq> i \<and> ei_fd (ep_interests ep ! k) = g \<and> Q (ep_interests ep ! k))"
      if "g = ei_fd x" "g \<noteq> -1" for Q using fresh that by metis
    have "ep_map ep' g = Some v \<longleftrightarrow> (if g \<noteq> -1 \<and> g = ei_fd x then Some (ei_events x, ei_data x)
            else if g = ei_fd (ep_interests ep ! i) then None else ep_map ep g) = Some v" for v
    proof (cases "g = -1")
      case True
      then show ?thesis by (simp add: ep_map_def)
    next
      case False
      have "ep_map ep' g = Some v \<longleftrightarrow> (ei_fd x = g \<and> v = (ei_events x, ei_data x)) \<or>
          (\<exists>k < EPOLL_MAX_FDS. k \<noteq> i \<and> ei_fd (ep_interests ep ! k) = g \<and>
             v = (ei_events (ep_interests ep ! k), ei_data (ep_interests ep ! k)))"
        using ep_map_iff [OF ok', of g v] eq [of "\<lambda>y. v = (ei_events y, ei_data y)"] False by (simp add: ep')
      then show ?thesis
        using False old [OF False, of "\<lambda>y. v = (ei_events y, ei_data y)"]
          new [of "\<lambda>y. v = (ei_events y, ei_data y)"] ep_map_iff [OF ok, of g v] by auto
    qed
    then show "ep_map ep' g = (if g \<noteq> -1 \<and> g = ei_fd x then Some (ei_events x, ei_data x)
            else if g = ei_fd (ep_interests ep ! i) then None else ep_map ep g)"
      by (metis option.exhaust)
  qed
qed

lemma ep_add_map:
  assumes ok: "ep_ok ep" and fd: "fd \<noteq> -1" and run: "ep_add fd ev d ep = (r, ep')"
  shows "ep_ok ep' \<and> ep_used ep' = ep_used ep \<and>
    (if ep_map ep fd \<noteq> None then r = Inl EEXIST \<and> ep' = ep
     else if ep_live ep = EPOLL_MAX_FDS then r = Inl ENOBUFS \<and> ep' = ep
     else r = Inr () \<and> ep_map ep' = (ep_map ep)(fd \<mapsto> (ev, d)))"
proof (cases "find_index (\<lambda>x. ei_fd x = fd) (ep_interests ep)")
  case (Some k)
  then show ?thesis using run ok fd by (auto simp: ep_add_def ep_map_def)
next
  case None
  have len: "length (ep_interests ep) = EPOLL_MAX_FDS" using ok by (simp add: ep_ok_def)
  have mn: "ep_map ep fd = None" using None fd by (simp add: ep_map_def)
  have none: "ei_fd (ep_interests ep ! k) \<noteq> fd" if "k < EPOLL_MAX_FDS" for k
    using None that len by (simp add: find_index_None_iff)
  show ?thesis
  proof (cases "find_index (\<lambda>x. ei_fd x = -1) (ep_interests ep)")
    case None': None
    then have "ep_live ep = EPOLL_MAX_FDS"
      using len by (simp add: ep_live_def find_index_None_iff filter_id_conv)
    then show ?thesis using run None None' mn ok by (simp add: ep_add_def)
  next
    case (Some i)
    then have i: "i < EPOLL_MAX_FDS" "ei_fd (ep_interests ep ! i) = -1"
      using find_index_SomeD [OF Some] len by auto
    have lt: "ep_live ep < EPOLL_MAX_FDS"
      unfolding ep_live_def len [symmetric]
      by (rule length_filter_less [of "ep_interests ep ! i"]) (use i len in auto)
    let ?x = "\<lparr>ei_fd = fd, ei_events = ev, ei_data = d\<rparr>"
    have r: "r = Inr ()" "ep' = ep\<lparr>ep_interests := (ep_interests ep)[i := ?x],
        ep_interest_count := ep_interest_count ep + 1\<rparr>"
      using run None Some by (simp_all add: ep_add_def)
    have "unat (ep_interest_count ep) = ep_live ep" using ok by (simp add: ep_ok_def)
    then have "unat (ep_interest_count ep + 1) = 1 + ep_live ep"
      using lt by (simp add: unat_word_ariths EPOLL_MAX_FDS_def)
    then have "ep_ok ep' \<and> ep_map ep' = (\<lambda>g. if g \<noteq> -1 \<and> g = fd then Some (ev, d)
            else if g = -1 then None else ep_map ep g)"
      using ep_slot_update [OF ok i(1) _ _ r(2)] none i(2) fd by (simp cong: if_cong)
    then show ?thesis using r mn lt fd by (auto simp: fun_eq_iff ep_map_def)
  qed
qed

lemma ep_mod_map:
  assumes ok: "ep_ok ep" and fd: "fd \<noteq> -1" and run: "ep_mod fd ev d ep = (r, ep')"
  shows "ep_ok ep' \<and> ep_used ep' = ep_used ep \<and>
    (if ep_map ep fd = None then r = Inl ENOENT \<and> ep' = ep
     else r = Inr () \<and> ep_map ep' = (ep_map ep)(fd \<mapsto> (ev, d)))"
proof (cases "find_index (\<lambda>x. ei_fd x = fd) (ep_interests ep)")
  case None
  then show ?thesis using run ok fd by (auto simp: ep_mod_def ep_map_def)
next
  case (Some i)
  have len: "length (ep_interests ep) = EPOLL_MAX_FDS" using ok by (simp add: ep_ok_def)
  have i: "i < EPOLL_MAX_FDS" "ei_fd (ep_interests ep ! i) = fd" using find_index_SomeD [OF Some] len by auto
  have one: "k = i" if "k < EPOLL_MAX_FDS" "ei_fd (ep_interests ep ! k) = fd" for k
    using ok i that fd by (simp add: ep_ok_def uniq_keys_def)
  let ?x = "(ep_interests ep ! i)\<lparr>ei_events := ev, ei_data := d\<rparr>"
  have r: "r = Inr ()" "ep' = ep\<lparr>ep_interests := (ep_interests ep)[i := ?x],
      ep_interest_count := ep_interest_count ep\<rparr>"
    using run Some by (auto simp: ep_mod_def)
  have "unat (ep_interest_count ep) = ep_live ep" using ok by (simp add: ep_ok_def)
  then have "ep_ok ep' \<and> ep_map ep' = (\<lambda>g. if g \<noteq> -1 \<and> g = fd then Some (ev, d)
      else if g = fd then None else ep_map ep g)"
    using ep_slot_update [OF ok i(1) _ _ r(2)] one i(2) fd by (simp cong: if_cong)
  moreover have "ep_map ep fd \<noteq> None" using Some fd by (simp add: ep_map_def)
  ultimately show ?thesis using r fd by (auto simp: fun_eq_iff)
qed

lemma ep_del_map:
  assumes ok: "ep_ok ep" and fd: "fd \<noteq> -1" and run: "ep_del fd ep = (r, ep')"
  shows "ep_ok ep' \<and> ep_used ep' = ep_used ep \<and>
    (if ep_map ep fd = None then r = Inl ENOENT \<and> ep' = ep
     else r = Inr () \<and> ep_map ep' = (ep_map ep)(fd := None))"
proof (cases "find_index (\<lambda>x. ei_fd x = fd) (ep_interests ep)")
  case None
  then show ?thesis using run ok fd by (auto simp: ep_del_def ep_map_def)
next
  case (Some i)
  have len: "length (ep_interests ep) = EPOLL_MAX_FDS" using ok by (simp add: ep_ok_def)
  have i: "i < EPOLL_MAX_FDS" "ei_fd (ep_interests ep ! i) = fd" using find_index_SomeD [OF Some] len by auto
  let ?x = "\<lparr>ei_fd = -1, ei_events = 0, ei_data = 0\<rparr>"
  let ?c = "if ep_interest_count ep > 0 then ep_interest_count ep - 1 else ep_interest_count ep"
  have r: "r = Inr ()" "ep' = ep\<lparr>ep_interests := (ep_interests ep)[i := ?x], ep_interest_count := ?c\<rparr>"
    using run Some by (simp_all add: ep_del_def)
  have c: "unat (ep_interest_count ep) = ep_live ep" using ok by (simp add: ep_ok_def)
  have "ep_interests ep ! i \<in> set (filter (\<lambda>x. ei_fd x \<noteq> -1) (ep_interests ep))" using i fd len by simp
  then have "0 < ep_live ep" unfolding ep_live_def by (rule length_pos_if_in_set)
  then have nz: "ep_interest_count ep \<noteq> 0" using c by (metis less_irrefl unat_0)
  then have "unat ?c = ep_live ep - 1" using c by (simp add: word_gt_0 unat_minus_one)
  then have "ep_ok ep' \<and> ep_map ep' = (\<lambda>g. if g = fd then None else ep_map ep g)"
    using ep_slot_update [OF ok i(1) _ _ r(2)] i(2) fd by (simp cong: if_cong)
  moreover have "ep_map ep fd \<noteq> None" using Some fd by (simp add: ep_map_def)
  ultimately show ?thesis using r by (auto simp: fun_eq_iff)
qed

section \<open>Properties\<close>

text \<open>
  C25: An epoll set is a finite map from descriptors to events and data. On a well-formed set and for
  any descriptor but -1, adding refuses a present descriptor with EEXIST and a 65th one with ENOBUFS
  and otherwise inserts it, modifying replaces a present one and deleting removes it (ENOENT if it is
  absent), any other operation is EINVAL; errors change nothing and the set stays well formed, with
  its count equal to the number of entries.
\<close>

theorem epoll_ctl_refines_map:
  assumes "i < MAX_EPOLL_INSTANCES" and "length t = MAX_EPOLL_INSTANCES" and "ep_used (t ! i)"
    and "ep_ok (t ! i)" and "fd \<noteq> -1" and "epoll_ctl (int i) op fd ev d t = (r, t')"
  shows "ep_ok (t' ! i) \<and>
    (if op = EPOLL_CTL_ADD then
       (if ep_map (t ! i) fd \<noteq> None then r = Inl EEXIST \<and> t' = t
        else if ep_live (t ! i) = EPOLL_MAX_FDS then r = Inl ENOBUFS \<and> t' = t
        else r = Inr () \<and> ep_map (t' ! i) = (ep_map (t ! i))(fd \<mapsto> (ev, d)))
     else if op = EPOLL_CTL_MOD then
       (if ep_map (t ! i) fd = None then r = Inl ENOENT \<and> t' = t
        else r = Inr () \<and> ep_map (t' ! i) = (ep_map (t ! i))(fd \<mapsto> (ev, d)))
     else if op = EPOLL_CTL_DEL then
       (if ep_map (t ! i) fd = None then r = Inl ENOENT \<and> t' = t
        else r = Inr () \<and> ep_map (t' ! i) = (ep_map (t ! i))(fd := None))
     else r = Inl EINVAL \<and> t' = t)"
proof -
  let ?f = "if op = EPOLL_CTL_ADD then ep_add fd ev d (t ! i)
    else if op = EPOLL_CTL_MOD then ep_mod fd ev d (t ! i)
    else if op = EPOLL_CTL_DEL then ep_del fd (t ! i) else (Inl EINVAL, t ! i)"
  obtain ep' where f: "?f = (r, ep')" and t': "t' = t[i := ep']"
    using assms(1,3,6) by (auto simp: epoll_ctl_def Let_def split: prod.splits)
  have n: "t' ! i = ep'" using t' assms(1,2) by simp
  have id: "ep' = t ! i \<Longrightarrow> t' = t" using t' by simp
  consider "op = EPOLL_CTL_ADD" | "op = EPOLL_CTL_MOD" "op \<noteq> EPOLL_CTL_ADD"
    | "op = EPOLL_CTL_DEL" "op \<noteq> EPOLL_CTL_ADD" "op \<noteq> EPOLL_CTL_MOD"
    | "op \<noteq> EPOLL_CTL_ADD" "op \<noteq> EPOLL_CTL_MOD" "op \<noteq> EPOLL_CTL_DEL" by blast
  then show ?thesis
  proof cases
    case 1
    then show ?thesis using ep_add_map [OF assms(4,5), of ev d r ep'] f n id by auto
  next
    case 2
    then show ?thesis using ep_mod_map [OF assms(4,5), of ev d r ep'] f n id by auto
  next
    case 3
    then show ?thesis using ep_del_map [OF assms(4,5), of r ep'] f n id by auto
  next
    case 4
    then show ?thesis using f n id assms(4) by auto
  qed
qed

definition demo_epoll :: "epoll_instance list" where
  "demo_epoll = snd (epoll_create_instance epoll_boot)"

lemma demo_epoll_facts:
  "length demo_epoll = MAX_EPOLL_INSTANCES" "ep_used (demo_epoll ! 0)" "ep_ok (demo_epoll ! 0)"
  "ep_map (demo_epoll ! 0) 5 = None" "ep_live (demo_epoll ! 0) = 0"
proof -
  have e: "demo_epoll ! 0 = \<lparr>ep_used = True, ep_refs = 1, ep_interests =
      replicate EPOLL_MAX_FDS \<lparr>ei_fd = -1, ei_events = 0, ei_data = 0\<rparr>, ep_interest_count = 0\<rparr>"
    by (simp add: demo_epoll_def epoll_create_instance_def epoll_boot_def alloc_slot_def MAX_EPOLL_INSTANCES_def
        numeral_eq_Suc)
  show "length demo_epoll = MAX_EPOLL_INSTANCES"
    by (simp add: demo_epoll_def epoll_create_instance_def epoll_boot_def alloc_slot_def split: option.split)
  show "ep_used (demo_epoll ! 0)" "ep_live (demo_epoll ! 0) = 0" by (simp_all add: e ep_live_def)
  show "ep_ok (demo_epoll ! 0)" by (simp add: e ep_ok_def ep_live_def uniq_keys_def)
  show "ep_map (demo_epoll ! 0) 5 = None"
    by (simp add: e ep_map_def find_index_None_iff split: option.split)
qed

theorem epoll_ctl_refines_map_witness:
  "\<exists>t'. epoll_ctl 0 EPOLL_CTL_ADD 5 1 42 demo_epoll = (Inr (), t') \<and> ep_map (t' ! 0) 5 = Some (1, 42)"
proof -
  obtain r t' where run: "epoll_ctl (int 0) EPOLL_CTL_ADD 5 1 42 demo_epoll = (r, t')" by fastforce
  have i: "0 < MAX_EPOLL_INSTANCES" by (simp add: MAX_EPOLL_INSTANCES_def)
  from epoll_ctl_refines_map [OF i demo_epoll_facts(1-3) _ run] run show ?thesis
    by (simp add: demo_epoll_facts EPOLL_MAX_FDS_def)
qed

text \<open>
  C26: Events are neither lost nor invented: for every sequence of writes and non-blocking reads of an
  open event counter, in both modes, the values read and the counter left add up to the initial
  counter and the values written, modulo 2^64. A write adds modulo 2^64 too, so writes whose sum
  reaches 2^64 do wrap the counter.
\<close>

theorem eventfd_conserves:
  assumes "length t = MAX_EVENTFDS" and "ev_valid (int i) t"
    and "fold (ev_exec (int i)) ops (0, t) = (got, t')"
  shows "got + ev_counter (t' ! i) = ev_counter (t ! i) + ev_written ops"
  using ev_run_sum [OF assms] by simp

definition demo_ev :: "eventfd list" where
  "demo_ev = snd (eventfd_alloc EFD_SEMAPHORE eventfd_boot)"

lemma demo_ev_facts:
  "length demo_ev = MAX_EVENTFDS" "ev_valid 0 demo_ev" "ev_counter (demo_ev ! 0) = 0"
  "eventfd_alloc EFD_SEMAPHORE eventfd_boot = (Inr 0, demo_ev)"
  by (simp_all add: demo_ev_def eventfd_alloc_def eventfd_boot_def alloc_slot_def MAX_EVENTFDS_def ev_valid_def
      numeral_eq_Suc)

theorem eventfd_conserves_witness:
  "\<exists>got t'. fold (ev_exec 0) [EvWrite 5, EvRead, EvRead, EvWrite 1] (0, demo_ev) = (got, t') \<and>
     got + ev_counter (t' ! 0) = 6"
proof -
  obtain got t' where r: "fold (ev_exec (int 0)) [EvWrite 5, EvRead, EvRead, EvWrite 1] (0, demo_ev) = (got, t')"
    by fastforce
  have v: "ev_valid (int 0) demo_ev" using demo_ev_facts(2) by simp
  from eventfd_conserves [OF demo_ev_facts(1) v r] r demo_ev_facts(3) show ?thesis by simp
qed



text \<open>
  A descriptor object lives exactly as long as its references: after an allocation and n further
  references the object survives n closes and is freed by the next one.
\<close>

theorem eventfd_lifetime:
  assumes "length t = MAX_EVENTFDS" and "eventfd_alloc flags t = (Inr i, t1)"
    and "n < 2 ^ 32 - 1" and "k \<le> Suc n"
  shows "ev_used (((eventfd_close (int i)) ^^ k) (((eventfd_ref (int i)) ^^ n) t1) ! i) \<longleftrightarrow> k \<le> n"
proof -
  have al: "alloc_slot ev_used (ev_init flags) t = Some (i, t1)"
    using assms(2) by (auto simp: eventfd_alloc_def split: option.splits)
  then have i: "i < length t" "t1 = t[i := ev_init flags (t ! i)]" using alloc_slot_SomeD by blast+
  then have u: "ev_used (t1 ! i)" "ev_refs (t1 ! i) = 1" "length t1 = MAX_EVENTFDS" "i < MAX_EVENTFDS"
    using assms(1) by simp_all
  let ?e = "(ev_ref ^^ n) (t1 ! i)"
  let ?t = "t1[i := ?e]"
  have refs: "unat (ev_refs ?e) = Suc n"
    using evh.refs_funpow [of n "t1 ! i"] u(2) assms(3) by (simp add: unat_word_ariths unat_of_nat)
  have ue: "ev_used ?e" using evh.used_funpow_ref u(1) by blast
  have t: "((eventfd_ref (int i)) ^^ n) t1 = ?t" by (rule eventfd_ref_funpow [OF u(4,3,1)])
  have "((eventfd_close (int i)) ^^ k) ?t = ?t[i := (ev_close ^^ k) (?t ! i)]"
    using u ue refs assms(4) by (intro eventfd_close_funpow) auto
  then have c: "((eventfd_close (int i)) ^^ k) (((eventfd_ref (int i)) ^^ n) t1) ! i = (ev_close ^^ k) ?e"
    using t u by simp
  show ?thesis
  proof (cases "k = Suc n")
    case True
    have "ev_refs ?e \<noteq> 0" using refs by (metis nat.distinct(1) unat_0)
    then have "\<not> ev_used ((ev_close ^^ k) ?e)" using evh.last_close_frees [OF ue] refs True by simp
    then show ?thesis using c True by simp
  next
    case False
    then have "k < unat (ev_refs ?e)" using refs assms(4) by simp
    then show ?thesis using evh.close_funpow [OF ue] c False assms(4) by simp
  qed
qed

theorem eventfd_lifetime_witness:
  "ev_used (((eventfd_close 0) ^^ 2) (((eventfd_ref 0) ^^ 2) demo_ev) ! 0) \<and>
   \<not> ev_used (((eventfd_close 0) ^^ 3) (((eventfd_ref 0) ^^ 2) demo_ev) ! 0)"
proof -
  have l: "length eventfd_boot = MAX_EVENTFDS" by (simp add: eventfd_boot_def)
  from eventfd_lifetime [OF l demo_ev_facts(4), of 2 2] eventfd_lifetime [OF l demo_ev_facts(4), of 2 3]
  show ?thesis by simp
qed

end
