(* ===== verification/Unix_Sock.thy ===== *)
theory Unix_Sock
  imports Slot_Table Ring_Buffer
begin

text \<open>
  Local sockets, \<^verbatim>\<open>kernel/src/ipc/unix_sock.{h,c}\<close>: sixteen sockets with a path, a peer, a receive
  buffer of 4096 bytes and a backlog of four pending connections. A pointer to a socket is its index
  in the table. The loops of send and receive poll: between two polls other threads run, given by
  the list \<open>others\<close> of what they do to the table; the call has not returned (\<open>None\<close>) when that list is
  used up.
\<close>

section \<open>State\<close>

datatype usock_state =
  USOCK_FREE | USOCK_UNBOUND | USOCK_BOUND | USOCK_LISTENING | USOCK_CONNECTED | USOCK_CLOSED

record unix_sock =
  us_state :: usock_state
  us_peer_closed :: bool
  us_refs :: u32
  us_path :: string
  us_buf :: "u8 list"
  us_rd_pos :: nat
  us_wr_pos :: nat
  us_count :: nat
  us_peer :: "nat option"
  us_backlog :: "nat option list"
  us_backlog_count :: nat

definition MAX_UNIX_SOCKS :: nat where "MAX_UNIX_SOCKS = 16"
definition UNIX_SOCK_BUF_SZ :: nat where "UNIX_SOCK_BUF_SZ = 4096"
definition UNIX_SOCK_PATH_MAX :: nat where "UNIX_SOCK_PATH_MAX = 108"
definition UNIX_SOCK_BACKLOG :: nat where "UNIX_SOCK_BACKLOG = 4"

definition usock_zero :: unix_sock where
  "usock_zero = \<lparr>us_state = USOCK_FREE, us_peer_closed = False, us_refs = 0,
     us_path = replicate UNIX_SOCK_PATH_MAX NUL, us_buf = replicate UNIX_SOCK_BUF_SZ 0, us_rd_pos = 0,
     us_wr_pos = 0, us_count = 0, us_peer = None, us_backlog = replicate UNIX_SOCK_BACKLOG None,
     us_backlog_count = 0\<rparr>"

definition usock_boot :: "unix_sock list" where
  "usock_boot = replicate MAX_UNIX_SOCKS usock_zero"

definition us_used :: "unix_sock \<Rightarrow> bool" where
  "us_used u \<longleftrightarrow> us_state u \<noteq> USOCK_FREE"

section \<open>Setting up connections\<close>

fun us_init :: "unit \<Rightarrow> unix_sock \<Rightarrow> unix_sock" where
  "us_init _ u =
     u\<lparr>us_state := USOCK_UNBOUND, us_peer_closed := False, us_refs := 1, us_path := (us_path u)[0 := NUL],
       us_rd_pos := 0, us_wr_pos := 0, us_count := 0, us_peer := None, us_backlog_count := 0,
       us_backlog := map (\<lambda>_. None) (us_backlog u)\<rparr>"

definition unix_sock_alloc :: "unix_sock list \<Rightarrow> nat ret \<times> unix_sock list" where
  "unix_sock_alloc t =
     (case alloc_slot us_used (us_init ()) t of
        None \<Rightarrow> (Inl ENOMEM, t)
      | Some (i, t') \<Rightarrow> (Inr i, t'))"

definition unix_sock_bind :: "int \<Rightarrow> string \<Rightarrow> unix_sock list \<Rightarrow> unit ret \<times> unix_sock list" where
  "unix_sock_bind idx path t =
     (if idx < 0 \<or> idx \<ge> int MAX_UNIX_SOCKS then (Inl EINVAL, t)
      else if us_state (t ! nat idx) \<noteq> USOCK_UNBOUND then (Inl EINVAL, t)
      else if \<exists>i < length t. i \<noteq> nat idx \<and> us_state (t ! i) \<in> {USOCK_BOUND, USOCK_LISTENING} \<and>
                str_eq (us_path (t ! i)) path
      then (Inl EADDRINUSE, t)
      else (Inr (), t[nat idx := (t ! nat idx)
              \<lparr>us_path := str_copy (us_path (t ! nat idx)) path UNIX_SOCK_PATH_MAX,
               us_state := USOCK_BOUND\<rparr>]))"

definition unix_sock_listen :: "int \<Rightarrow> unix_sock list \<Rightarrow> unit ret \<times> unix_sock list" where
  "unix_sock_listen idx t =
     (if idx < 0 \<or> idx \<ge> int MAX_UNIX_SOCKS then (Inl EINVAL, t)
      else if us_state (t ! nat idx) \<noteq> USOCK_BOUND then (Inl EINVAL, t)
      else (Inr (), t[nat idx := (t ! nat idx)\<lparr>us_state := USOCK_LISTENING\<rparr>]))"

text \<open>Connected peers, and the server socket put into the first free place of the listener's backlog.\<close>

definition usock_link :: "nat \<Rightarrow> nat \<Rightarrow> unix_sock list \<Rightarrow> unix_sock list" where
  "usock_link c s t =
     (let t1 = t[c := (t ! c)\<lparr>us_state := USOCK_CONNECTED, us_peer := Some s\<rparr>]
      in t1[s := (t1 ! s)\<lparr>us_state := USOCK_CONNECTED, us_peer := Some c\<rparr>])"

definition backlog_add :: "nat \<Rightarrow> nat \<Rightarrow> unix_sock list \<Rightarrow> unix_sock list" where
  "backlog_add l s t =
     (case find_index (\<lambda>b. b = None) (us_backlog (t ! l)) of
        None \<Rightarrow> t
      | Some k \<Rightarrow> t[l := (t ! l)\<lparr>us_backlog := (us_backlog (t ! l))[k := Some s],
                                us_backlog_count := us_backlog_count (t ! l) + 1\<rparr>])"

definition unix_sock_connect :: "string \<Rightarrow> unix_sock list \<Rightarrow> nat ret \<times> unix_sock list" where
  "unix_sock_connect path t =
     (case find_index (\<lambda>u. us_state u = USOCK_LISTENING \<and> str_eq (us_path u) path) t of
        None \<Rightarrow> (Inl ECONNREFUSED, t)
      | Some l \<Rightarrow>
          if us_backlog_count (t ! l) \<ge> UNIX_SOCK_BACKLOG then (Inl EAGAIN, t)
          else
            case alloc_slot us_used (us_init ()) t of
              None \<Rightarrow> (Inl ENOMEM, t)
            | Some (c, t1) \<Rightarrow>
                (case alloc_slot us_used (us_init ()) t1 of
                   None \<Rightarrow> (Inl ENOMEM, t1[c := (t1 ! c)\<lparr>us_state := USOCK_FREE\<rparr>])
                 | Some (s, t2) \<Rightarrow> (Inr c, backlog_add l s (usock_link c s t2))))"

definition unix_sock_accept :: "int \<Rightarrow> unix_sock list \<Rightarrow> nat ret \<times> unix_sock list" where
  "unix_sock_accept listen_idx t =
     (if listen_idx < 0 \<or> listen_idx \<ge> int MAX_UNIX_SOCKS then (Inl EINVAL, t)
      else
        let l = nat listen_idx in
        if us_state (t ! l) \<noteq> USOCK_LISTENING then (Inl EINVAL, t)
        else if us_backlog_count (t ! l) = 0 then (Inl EAGAIN, t)
        else
          case find_index (\<lambda>b. b \<noteq> None) (us_backlog (t ! l)) of
            None \<Rightarrow> (Inl EAGAIN, t)
          | Some k \<Rightarrow>
              (Inr (the (us_backlog (t ! l) ! k)),
               t[l := (t ! l)\<lparr>us_backlog := (us_backlog (t ! l))[k := None],
                             us_backlog_count := us_backlog_count (t ! l) - 1\<rparr>]))"

section \<open>Data\<close>

definition us_put :: "u8 \<Rightarrow> unix_sock \<Rightarrow> unix_sock" where
  "us_put b u = u\<lparr>us_buf := (us_buf u)[us_wr_pos u := b],
     us_wr_pos := (us_wr_pos u + 1) mod UNIX_SOCK_BUF_SZ, us_count := us_count u + 1\<rparr>"

definition us_drop :: "unix_sock \<Rightarrow> unix_sock" where
  "us_drop u = u\<lparr>us_rd_pos := (us_rd_pos u + 1) mod UNIX_SOCK_BUF_SZ, us_count := us_count u - 1\<rparr>"

text \<open>The copying loops under the lock: as many bytes as fit, and as many as are there.\<close>

fun put_bytes :: "u8 list \<Rightarrow> unix_sock \<Rightarrow> nat \<times> unix_sock" where
  "put_bytes [] u = (0, u)"
| "put_bytes (b # bs) u =
     (if us_count u < UNIX_SOCK_BUF_SZ
      then (case put_bytes bs (us_put b u) of (n, u') \<Rightarrow> (Suc n, u'))
      else (0, u))"

fun take_bytes :: "nat \<Rightarrow> unix_sock \<Rightarrow> u8 list \<times> unix_sock" where
  "take_bytes 0 u = ([], u)"
| "take_bytes (Suc n) u =
     (if us_count u > 0
      then (case take_bytes n (us_drop u) of (bs, u') \<Rightarrow> (us_buf u ! us_rd_pos u # bs, u'))
      else ([], u))"

type_synonym usock_world = "unix_sock list \<Rightarrow> unix_sock list"

text \<open>
  The send loop, with \<open>sent\<close> bytes of \<open>data\<close> already written to socket \<open>p\<close>, the peer read at the start.
\<close>

fun send_loop ::
  "usock_world list \<Rightarrow> nat \<Rightarrow> u8 list \<Rightarrow> nat \<Rightarrow> bool \<Rightarrow> unix_sock list \<Rightarrow> (nat ret \<times> unix_sock list) option" where
  "send_loop others p data sent nonblock t =
     (if sent \<ge> length data then Some (Inr sent, t)
      else if us_peer_closed (t ! p) then Some (if sent > 0 then Inr sent else Inl ENOTCONN, t)
      else
        case put_bytes (drop sent data) (t ! p) of
          (n, u) \<Rightarrow>
            let sent' = sent + n; t' = t[p := u] in
            if sent' \<ge> length data then Some (Inr sent', t')
            else if sent' > 0 \<and> us_count u \<ge> UNIX_SOCK_BUF_SZ then Some (Inr sent', t')
            else if nonblock then Some (if sent' > 0 then Inr sent' else Inl EAGAIN, t')
            else case others of
                   [] \<Rightarrow> None
                 | step # rest \<Rightarrow> send_loop rest p data sent' nonblock (step t'))"

definition unix_sock_send ::
  "usock_world list \<Rightarrow> nat option \<Rightarrow> u8 list \<Rightarrow> bool \<Rightarrow> unix_sock list \<Rightarrow> (nat ret \<times> unix_sock list) option" where
  "unix_sock_send others us data nonblock t =
     (case us of
        None \<Rightarrow> Some (Inl ENOTCONN, t)
      | Some i \<Rightarrow>
          if us_state (t ! i) \<noteq> USOCK_CONNECTED then Some (Inl ENOTCONN, t)
          else case us_peer (t ! i) of
                 None \<Rightarrow> Some (Inl ENOTCONN, t)
               | Some p \<Rightarrow> send_loop others p data 0 nonblock t)"

fun recv_loop ::
  "usock_world list \<Rightarrow> nat \<Rightarrow> nat \<Rightarrow> u8 list \<Rightarrow> bool \<Rightarrow> unix_sock list \<Rightarrow> (u8 list ret \<times> unix_sock list) option" where
  "recv_loop others i len acc nonblock t =
     (if length acc \<ge> len then Some (Inr acc, t)
      else
        case take_bytes (len - length acc) (t ! i) of
          (bs, u) \<Rightarrow>
            let acc' = acc @ bs; t' = t[i := u] in
            if us_count u = 0 then
              (if us_peer_closed u then Some (Inr acc', t')
               else if length acc' > 0 then Some (Inr acc', t')
               else if nonblock then Some (Inl EAGAIN, t')
               else case others of
                      [] \<Rightarrow> None
                    | step # rest \<Rightarrow> recv_loop rest i len acc' nonblock (step t'))
            else Some (Inr acc', t'))"

definition unix_sock_recv ::
  "usock_world list \<Rightarrow> nat option \<Rightarrow> nat \<Rightarrow> bool \<Rightarrow> unix_sock list \<Rightarrow> (u8 list ret \<times> unix_sock list) option" where
  "unix_sock_recv others us len nonblock t =
     (case us of
        None \<Rightarrow> Some (Inl ENOTCONN, t)
      | Some i \<Rightarrow>
          if us_state (t ! i) \<noteq> USOCK_CONNECTED \<and> us_state (t ! i) \<noteq> USOCK_CLOSED then Some (Inl ENOTCONN, t)
          else recv_loop others i len [] nonblock t)"

section \<open>Closing and queries\<close>

definition peer_notify :: "unix_sock \<Rightarrow> unix_sock" where
  "peer_notify u = u\<lparr>us_peer_closed := True, us_peer := None\<rparr>"

definition us_release :: "unix_sock \<Rightarrow> unix_sock" where
  "us_release u = u\<lparr>us_state := USOCK_FREE, us_peer := None, us_path := (us_path u)[0 := NUL]\<rparr>"

definition unix_sock_close :: "nat option \<Rightarrow> unix_sock list \<Rightarrow> unix_sock list" where
  "unix_sock_close us t =
     (case us of
        None \<Rightarrow> t
      | Some i \<Rightarrow>
          let u = t ! i;
              u1 = (if us_refs u > 0 then u\<lparr>us_refs := us_refs u - 1\<rparr> else u);
              t1 = t[i := u1]
          in if us_refs u1 > 0 then t1
             else
               let t2 = (case us_peer u1 of None \<Rightarrow> t1 | Some p \<Rightarrow> t1[p := peer_notify (t1 ! p)])
               in t2[i := us_release (t2 ! i)])"

definition unix_sock_get :: "int \<Rightarrow> nat option" where
  "unix_sock_get idx = (if idx < 0 \<or> idx \<ge> int MAX_UNIX_SOCKS then None else Some (nat idx))"

definition unix_sock_readable :: "nat option \<Rightarrow> unix_sock list \<Rightarrow> bool" where
  "unix_sock_readable us t =
     (case us of None \<Rightarrow> False | Some i \<Rightarrow> us_count (t ! i) > 0 \<or> us_peer_closed (t ! i))"

definition unix_sock_writable :: "nat option \<Rightarrow> unix_sock list \<Rightarrow> bool" where
  "unix_sock_writable us t =
     (case us of
        None \<Rightarrow> False
      | Some i \<Rightarrow> (case us_peer (t ! i) of None \<Rightarrow> False | Some p \<Rightarrow> us_count (t ! p) < UNIX_SOCK_BUF_SZ))"

definition unix_sock_has_backlog :: "nat option \<Rightarrow> unix_sock list \<Rightarrow> bool" where
  "unix_sock_has_backlog us t =
     (case us of None \<Rightarrow> False | Some i \<Rightarrow> us_backlog_count (t ! i) > 0)"

section \<open>Contracts\<close>

interpretation uss: slot_table us_used us_init us_release
  by unfold_locales (simp_all add: us_used_def us_release_def)

interpretation usb: ring_buffer UNIX_SOCK_BUF_SZ us_buf us_rd_pos us_wr_pos us_count us_put us_drop
  by unfold_locales (simp_all add: us_put_def us_drop_def UNIX_SOCK_BUF_SZ_def)

section \<open>Byte streams\<close>

lemma put_bytes_frame:
  "put_bytes bs u = (n, u') \<Longrightarrow> us_state u' = us_state u \<and> us_peer u' = us_peer u \<and> us_peer_closed u' = us_peer_closed u"
proof (induction bs arbitrary: u n)
  case (Cons b bs)
  then show ?case by (fastforce simp: us_put_def split: if_splits prod.splits)
qed simp

lemma take_bytes_frame:
  "take_bytes n u = (bs, u') \<Longrightarrow> us_state u' = us_state u \<and> us_peer u' = us_peer u \<and> us_peer_closed u' = us_peer_closed u"
proof (induction n arbitrary: u bs)
  case (Suc n)
  then show ?case by (fastforce simp: us_drop_def split: if_splits prod.splits)
qed simp

lemma put_bytes_contents:
  "usb.ok u \<Longrightarrow> put_bytes bs u = (n, u') \<Longrightarrow>
   usb.ok u' \<and> n = min (length bs) (UNIX_SOCK_BUF_SZ - us_count u) \<and> us_count u' = us_count u + n \<and>
   usb.contents u' = usb.contents u @ take n bs"
proof (induction bs arbitrary: u n)
  case Nil
  then show ?case by simp
next
  case (Cons b bs)
  show ?case
  proof (cases "us_count u < UNIX_SOCK_BUF_SZ")
    case True
    obtain m where r: "put_bytes bs (us_put b u) = (m, u')" and e: "n = Suc m"
      using Cons.prems(2) True by (auto split: prod.splits)
    have c: "us_count (us_put b u) = us_count u + 1" by (simp add: us_put_def)
    from Cons.IH [OF usb.ok_push [OF Cons.prems(1) True] r]
    show ?thesis using e c True usb.contents_push [OF Cons.prems(1) True, of b] by auto
  next
    case False
    then show ?thesis using Cons.prems by simp
  qed
qed

lemma take_bytes_contents:
  "usb.ok u \<Longrightarrow> take_bytes n u = (bs, u') \<Longrightarrow>
   usb.ok u' \<and> bs = take n (usb.contents u) \<and> usb.contents u' = drop n (usb.contents u)"
proof (induction n arbitrary: u bs)
  case 0
  then show ?case by simp
next
  case (Suc n)
  show ?case
  proof (cases "us_count u > 0")
    case True
    obtain cs where r: "take_bytes n (us_drop u) = (cs, u')" and e: "bs = us_buf u ! us_rd_pos u # cs"
      using Suc.prems(2) True by (auto split: prod.splits)
    note ih = Suc.IH [OF usb.ok_pop [OF Suc.prems(1) True] r]
    have ne: "usb.contents u \<noteq> []" using True usb.length_contents [of u] by (metis list.size(3) less_irrefl)
    have h: "us_buf u ! us_rd_pos u = hd (usb.contents u)" by (rule usb.front [OF Suc.prems(1) True])
    show ?thesis using ih e h ne usb.contents_pop [OF True] by (cases "usb.contents u") auto
  next
    case False
    then have "usb.contents u = []" by (simp add: usb.contents_def)
    then show ?thesis using False Suc.prems by simp
  qed
qed

text \<open>A non-blocking send or receive polls once.\<close>

definition linked :: "nat \<Rightarrow> nat \<Rightarrow> unix_sock list \<Rightarrow> bool" where
  "linked a b t \<longleftrightarrow> a \<noteq> b \<and> a < length t \<and> b < length t \<and> us_state (t ! a) = USOCK_CONNECTED \<and>
     us_peer (t ! a) = Some b \<and> us_state (t ! b) = USOCK_CONNECTED \<and> \<not> us_peer_closed (t ! b) \<and>
     usb.ok (t ! b)"

lemma send_nonblock:
  assumes l: "linked a b t" and run: "unix_sock_send [] (Some a) data True t = Some (r, t')"
  shows "linked a b t'"
    and "\<exists>n. (r = Inr n \<or> (n = 0 \<and> r = Inl EAGAIN)) \<and> n \<le> length data \<and>
       usb.contents (t' ! b) = usb.contents (t ! b) @ take n data"
proof -
  obtain n u where pb: "put_bytes data (t ! b) = (n, u)" by fastforce
  have ok: "usb.ok (t ! b)" and b: "b < length t" using l by (auto simp: linked_def)
  note c = put_bytes_contents [OF ok pb] and fr = put_bytes_frame [OF pb]
  have "linked a b t' \<and> (\<exists>n. (r = Inr n \<or> (n = 0 \<and> r = Inl EAGAIN)) \<and> n \<le> length data \<and>
       usb.contents (t' ! b) = usb.contents (t ! b) @ take n data)"
  proof (cases "data = []")
    case True
    then have "r = Inr 0" "t' = t" using run l by (auto simp: unix_sock_send_def linked_def)
    then show ?thesis using l by auto
  next
    case False
    have "t' = t[b := u]" "r = Inr n \<or> (n = 0 \<and> r = Inl EAGAIN)"
      using run l pb False by (auto simp: unix_sock_send_def linked_def Let_def split: if_splits)
    then show ?thesis using l c fr b by (auto simp: linked_def)
  qed
  then show "linked a b t'" "\<exists>n. (r = Inr n \<or> (n = 0 \<and> r = Inl EAGAIN)) \<and> n \<le> length data \<and>
       usb.contents (t' ! b) = usb.contents (t ! b) @ take n data" by auto
qed

lemma recv_nonblock:
  assumes l: "linked a b t" and run: "unix_sock_recv [] (Some b) len True t = Some (r, t')"
  shows "linked a b t'"
    and "\<exists>bs. (r = Inr bs \<or> (bs = [] \<and> r = Inl EAGAIN)) \<and> usb.contents (t ! b) = bs @ usb.contents (t' ! b)"
proof -
  obtain bs u where tb: "take_bytes len (t ! b) = (bs, u)" by fastforce
  have ok: "usb.ok (t ! b)" and b: "b < length t" using l by (auto simp: linked_def)
  note c = take_bytes_contents [OF ok tb] and fr = take_bytes_frame [OF tb]
  have "linked a b t' \<and> (\<exists>bs. (r = Inr bs \<or> (bs = [] \<and> r = Inl EAGAIN)) \<and> usb.contents (t ! b) = bs @ usb.contents (t' ! b))"
  proof (cases "len = 0")
    case True
    then have "r = Inr []" "t' = t" using run l by (auto simp: unix_sock_recv_def linked_def)
    then show ?thesis using l by auto
  next
    case False
    have "t' = t[b := u]" "r = Inr bs \<or> (bs = [] \<and> r = Inl EAGAIN)"
      using run l tb False by (auto simp: unix_sock_recv_def linked_def Let_def split: if_splits)
    then show ?thesis using l c fr b by (auto simp: linked_def)
  qed
  then show "linked a b t'"
    "\<exists>bs. (r = Inr bs \<or> (bs = [] \<and> r = Inl EAGAIN)) \<and> usb.contents (t ! b) = bs @ usb.contents (t' ! b)" by auto
qed

text \<open>A history of one direction: the bytes accepted from the sender and those handed to the receiver.\<close>

datatype stream_op = SSend "u8 list" | SRecv nat

fun stream_exec ::
  "nat \<Rightarrow> nat \<Rightarrow> stream_op \<Rightarrow> u8 list \<times> u8 list \<times> unix_sock list \<Rightarrow> u8 list \<times> u8 list \<times> unix_sock list" where
  "stream_exec a b (SSend data) (acc, got, t) =
     (case unix_sock_send [] (Some a) data True t of
        Some (Inr n, t') \<Rightarrow> (acc @ take n data, got, t')
      | Some (Inl _, t') \<Rightarrow> (acc, got, t')
      | None \<Rightarrow> (acc, got, t))"
| "stream_exec a b (SRecv len) (acc, got, t) =
     (case unix_sock_recv [] (Some b) len True t of
        Some (Inr bs, t') \<Rightarrow> (acc, got @ bs, t')
      | Some (Inl _, t') \<Rightarrow> (acc, got, t')
      | None \<Rightarrow> (acc, got, t))"

lemma stream_step:
  assumes l: "linked a b t" and inv: "acc = got @ usb.contents (t ! b)"
    and run: "stream_exec a b op (acc, got, t) = (acc', got', t')"
  shows "linked a b t' \<and> acc' = got' @ usb.contents (t' ! b)"
proof (cases op)
  case (SSend data)
  show ?thesis
  proof (cases "unix_sock_send [] (Some a) data True t")
    case None
    then show ?thesis using run SSend l inv by auto
  next
    case (Some rt)
    obtain r t1 where rt: "rt = (r, t1)" by fastforce
    note s = send_nonblock [OF l Some [unfolded rt]]
    obtain n where n: "r = Inr n \<or> (n = 0 \<and> r = Inl EAGAIN)"
      "usb.contents (t1 ! b) = usb.contents (t ! b) @ take n data" using s(2) by blast
    then show ?thesis using run SSend Some rt s(1) inv by auto
  qed
next
  case (SRecv len)
  show ?thesis
  proof (cases "unix_sock_recv [] (Some b) len True t")
    case None
    then show ?thesis using run SRecv l inv by auto
  next
    case (Some rt)
    obtain r t1 where rt: "rt = (r, t1)" by fastforce
    note s = recv_nonblock [OF l Some [unfolded rt]]
    obtain bs where bs: "r = Inr bs \<or> (bs = [] \<and> r = Inl EAGAIN)"
      "usb.contents (t ! b) = bs @ usb.contents (t1 ! b)" using s(2) by blast
    then show ?thesis using run SRecv Some rt s(1) inv by auto
  qed
qed

lemma stream_run:
  "linked a b t \<Longrightarrow> acc = got @ usb.contents (t ! b) \<Longrightarrow>
   fold (stream_exec a b) ops (acc, got, t) = (acc', got', t') \<Longrightarrow>
   linked a b t' \<and> acc' = got' @ usb.contents (t' ! b)"
proof (induction ops arbitrary: acc got t)
  case (Cons op ops)
  obtain a1 g1 t1 where s: "stream_exec a b op (acc, got, t) = (a1, g1, t1)" by (metis prod_cases3)
  note st = stream_step [OF Cons.prems(1,2) s]
  have "fold (stream_exec a b) ops (a1, g1, t1) = (acc', got', t')" using Cons.prems(3) s by simp
  then show ?case using Cons.IH st by blast
qed simp

section \<open>Peer links\<close>

definition peers_ok :: "unix_sock list \<Rightarrow> bool" where
  "peers_ok t \<longleftrightarrow> (\<forall>i < length t. \<forall>j. us_peer (t ! i) = Some j \<longrightarrow>
     us_state (t ! i) = USOCK_CONNECTED \<and> j < length t \<and> j \<noteq> i \<and> us_peer (t ! j) = Some i)"

lemma peers_okD:
  assumes "peers_ok t" and "i < length t" and "us_peer (t ! i) = Some j"
  shows "us_state (t ! i) = USOCK_CONNECTED" "j < length t" "j \<noteq> i" "us_peer (t ! j) = Some i"
  using assms unfolding peers_ok_def by blast+

lemma peers_ok_update:
  assumes ok: "peers_ok t" and p: "us_peer u = us_peer (t ! i)"
    and s: "us_peer (t ! i) \<noteq> None \<Longrightarrow> us_state u = us_state (t ! i)"
  shows "peers_ok (t[i := u])"
proof (cases "i < length t")
  case True
  have peer: "us_peer (t[i := u] ! k) = us_peer (t ! k)" if "k < length t" for k
    using that p by (simp add: nth_list_update_if)
  show ?thesis unfolding peers_ok_def
  proof (intro allI impI)
    fix k j assume k: "k < length (t[i := u])" and pk: "us_peer (t[i := u] ! k) = Some j"
    then have k': "k < length t" "us_peer (t ! k) = Some j" using peer by auto
    note d = peers_okD [OF ok k']
    have "us_state (t[i := u] ! k) = USOCK_CONNECTED"
      using d(1) k' s by (auto simp: nth_list_update_if)
    then show "us_state (t[i := u] ! k) = USOCK_CONNECTED \<and> j < length (t[i := u]) \<and> j \<noteq> k \<and>
        us_peer (t[i := u] ! j) = Some k" using d peer by simp
  qed
next
  case False
  then have "t[i := u] = t" by (simp add: list_update_beyond)
  then show ?thesis using ok by simp
qed

lemma not_connected_no_peer:
  "peers_ok t \<Longrightarrow> i < length t \<Longrightarrow> us_state (t ! i) \<noteq> USOCK_CONNECTED \<Longrightarrow> us_peer (t ! i) = None"
  using peers_okD(1) by (metis option.exhaust)

lemma peers_ok_alloc:
  assumes ok: "peers_ok t" and al: "alloc_slot us_used (us_init ()) t = Some (i, t')"
  shows "peers_ok t'" "i < length t" "us_peer (t' ! i) = None" "us_state (t' ! i) = USOCK_UNBOUND"
    "length t' = length t" "us_state (t ! i) = USOCK_FREE"
proof -
  have i: "i < length t" "\<not> us_used (t ! i)" and t': "t' = t[i := us_init () (t ! i)]"
    using alloc_slot_SomeD [OF al] by auto
  have n: "us_peer (t ! i) = None" using not_connected_no_peer [OF ok i(1)] i(2) by (simp add: us_used_def)
  show "peers_ok t'" unfolding t' using n by (intro peers_ok_update [OF ok]) simp_all
  show "i < length t" "us_peer (t' ! i) = None" "us_state (t' ! i) = USOCK_UNBOUND" "length t' = length t"
    "us_state (t ! i) = USOCK_FREE" using i by (simp_all add: t' us_used_def)
qed

lemma peers_ok_link:
  assumes ok: "peers_ok t" and c: "c < length t" "us_peer (t ! c) = None" and s: "s < length t" "us_peer (t ! s) = None"
    and ne: "c \<noteq> s"
  shows "peers_ok (usock_link c s t)"
proof -
  let ?t = "usock_link c s t"
  have len: "length ?t = length t" by (simp add: usock_link_def Let_def)
  have other: "?t ! k = t ! k" if "k \<noteq> c" "k \<noteq> s" for k using that by (simp add: usock_link_def Let_def)
  have cs: "us_peer (?t ! c) = Some s" "us_peer (?t ! s) = Some c"
    "us_state (?t ! c) = USOCK_CONNECTED" "us_state (?t ! s) = USOCK_CONNECTED"
    using c(1) s(1) ne by (simp_all add: usock_link_def Let_def)
  show ?thesis unfolding peers_ok_def len
  proof (intro allI impI)
    fix i j assume i: "i < length t" "us_peer (?t ! i) = Some j"
    show "us_state (?t ! i) = USOCK_CONNECTED \<and> j < length t \<and> j \<noteq> i \<and> us_peer (?t ! j) = Some i"
    proof (cases "i = c \<or> i = s")
      case True
      then show ?thesis using i cs c(1) s(1) ne by auto
    next
      case False
      then have "us_peer (t ! i) = Some j" using i other by simp
      note d = peers_okD [OF ok i(1) this]
      have "j \<noteq> c" "j \<noteq> s" using d(4) c(2) s(2) by auto
      then show ?thesis using d False other by simp
    qed
  qed
qed

lemma peers_ok_backlog_add: "peers_ok t \<Longrightarrow> peers_ok (backlog_add l s t)"
  by (auto simp: backlog_add_def intro!: peers_ok_update split: option.split)

lemma peers_ok_connect:
  assumes ok: "peers_ok t" and run: "unix_sock_connect path t = (r, t')"
  shows "peers_ok t' \<and> length t' = length t"
proof (cases "t' = t")
  case True
  then show ?thesis using ok by simp
next
  case False
  then obtain l c t1 where l: "find_index (\<lambda>u. us_state u = USOCK_LISTENING \<and> str_eq (us_path u) path) t = Some l"
    and bl: "\<not> us_backlog_count (t ! l) \<ge> UNIX_SOCK_BACKLOG"
    and a1: "alloc_slot us_used (us_init ()) t = Some (c, t1)"
    using run by (auto simp: unix_sock_connect_def split: option.splits if_splits)
  note f1 = peers_ok_alloc [OF ok a1]
  show ?thesis
  proof (cases "alloc_slot us_used (us_init ()) t1")
    case None
    then have "t' = t1[c := (t1 ! c)\<lparr>us_state := USOCK_FREE\<rparr>]"
      using run l bl a1 by (simp add: unix_sock_connect_def)
    then show ?thesis using f1 by (auto intro!: peers_ok_update)
  next
    case (Some a)
    obtain s t2 where a: "a = (s, t2)" by fastforce
    note a2 = Some [unfolded a]
    note f2 = peers_ok_alloc [OF f1(1) a2]
    have "c \<noteq> s" using f1(4) f2(6) by auto
    moreover have "us_peer (t2 ! c) = None"
      using alloc_slot_SomeD [OF a2] f1(3) \<open>c \<noteq> s\<close> by auto
    ultimately have "peers_ok (usock_link c s t2)"
      using f1 f2 by (intro peers_ok_link) auto
    moreover have "t' = backlog_add l s (usock_link c s t2)"
      using run l bl a1 a2 by (simp add: unix_sock_connect_def)
    moreover have "length (usock_link c s t2) = length t" using f1 f2 by (simp add: usock_link_def Let_def)
    ultimately show ?thesis
      using peers_ok_backlog_add [of "usock_link c s t2" l s] by (simp add: backlog_add_def split: option.split)
  qed
qed

lemma peers_ok_close:
  assumes ok: "peers_ok t" and i: "i < length t"
  shows "peers_ok (unix_sock_close (Some i) t)"
proof -
  let ?u = "t ! i"
  let ?u1 = "if us_refs ?u > 0 then ?u\<lparr>us_refs := us_refs ?u - 1\<rparr> else ?u"
  let ?t1 = "t[i := ?u1]"
  have ok1: "peers_ok ?t1" by (rule peers_ok_update [OF ok]) simp_all
  have p1: "us_peer ?u1 = us_peer ?u" by simp
  show ?thesis
  proof (cases "us_refs ?u1 > 0")
    case True
    then have "unix_sock_close (Some i) t = ?t1" by (simp add: unix_sock_close_def Let_def)
    then show ?thesis using ok1 by simp
  next
    case False
    show ?thesis
    proof (cases "us_peer ?u")
      case None
      have cl: "unix_sock_close (Some i) t = ?t1[i := us_release (?t1 ! i)]"
        using False None p1 by (simp add: unix_sock_close_def Let_def)
      have "us_peer (?t1 ! i) = None" using None i by simp
      then have "peers_ok (?t1[i := us_release (?t1 ! i)])"
        by (intro peers_ok_update [OF ok1]) (simp_all only: us_release_def, simp_all)
      then show ?thesis unfolding cl .
    next
      case (Some p)
      note d = peers_okD [OF ok i Some]
      have cl: "unix_sock_close (Some i) t =
          ?t1[p := peer_notify (?t1 ! p), i := us_release (?t1[p := peer_notify (?t1 ! p)] ! i)]"
        using False Some p1 by (simp add: unix_sock_close_def Let_def)
      let ?t' = "unix_sock_close (Some i) t"
      have len: "length ?t' = length t" by (simp add: cl)
      have none: "us_peer (?t' ! i) = None" "us_peer (?t' ! p) = None"
        using i d(2,3) by (simp_all add: cl us_release_def peer_notify_def)
      have other: "?t' ! k = t ! k" if "k \<noteq> i" "k \<noteq> p" for k using that by (simp add: cl)
      show ?thesis unfolding peers_ok_def len
      proof (intro allI impI)
        fix k j assume k: "k < length t" "us_peer (?t' ! k) = Some j"
        then have ne: "k \<noteq> i" "k \<noteq> p" using none by auto
        then have "us_peer (t ! k) = Some j" using k(2) other by simp
        note e = peers_okD [OF ok k(1) this]
        have "j \<noteq> i" "j \<noteq> p" using e(4) Some d(4) ne by auto
        then show "us_state (?t' ! k) = USOCK_CONNECTED \<and> j < length t \<and> j \<noteq> k \<and> us_peer (?t' ! j) = Some k"
          using e other ne by simp
      qed
    qed
  qed
qed

text \<open>
  The critical sections of the socket table: the calls, and the rounds of the send and receive loops,
  whose socket pointers were read earlier.
\<close>

datatype usock_op =
    UAlloc | UBind int string | UListen int | UConnect string | UAccept int
  | UPut nat "u8 list" | UTake nat nat | UClose int

fun usock_exec :: "usock_op \<Rightarrow> unix_sock list \<Rightarrow> unix_sock list" where
  "usock_exec UAlloc t = snd (unix_sock_alloc t)"
| "usock_exec (UBind i path) t = snd (unix_sock_bind i path t)"
| "usock_exec (UListen i) t = snd (unix_sock_listen i t)"
| "usock_exec (UConnect path) t = snd (unix_sock_connect path t)"
| "usock_exec (UAccept i) t = snd (unix_sock_accept i t)"
| "usock_exec (UPut p bs) t = t[p := snd (put_bytes bs (t ! p))]"
| "usock_exec (UTake i n) t = t[i := snd (take_bytes n (t ! i))]"
| "usock_exec (UClose i) t = unix_sock_close (unix_sock_get i) t"

definition usock_inv :: "unix_sock list \<Rightarrow> bool" where
  "usock_inv t \<longleftrightarrow> length t = MAX_UNIX_SOCKS \<and> peers_ok t"

lemma usock_inv_exec:
  assumes "usock_inv t"
  shows "usock_inv (usock_exec op t)"
proof -
  have ok: "peers_ok t" and len: "length t = MAX_UNIX_SOCKS" using assms by (auto simp: usock_inv_def)
  show ?thesis
  proof (cases op)
    case UAlloc
    show ?thesis
    proof (cases "alloc_slot us_used (us_init ()) t")
      case None
      then show ?thesis using UAlloc assms by (simp add: unix_sock_alloc_def)
    next
      case (Some a)
      then obtain i t' where a: "alloc_slot us_used (us_init ()) t = Some (i, t')" by (cases a) simp
      then show ?thesis using UAlloc peers_ok_alloc [OF ok a] len by (simp add: unix_sock_alloc_def usock_inv_def)
    qed
  next
    case (UBind i path)
    have "us_peer (t ! nat i) = None" if "\<not> (i < 0 \<or> i \<ge> int MAX_UNIX_SOCKS)" "us_state (t ! nat i) = USOCK_UNBOUND"
      using not_connected_no_peer [OF ok, of "nat i"] that len by auto
    then show ?thesis using UBind ok len
      by (auto simp: unix_sock_bind_def usock_inv_def intro!: peers_ok_update)
  next
    case (UListen i)
    have "us_peer (t ! nat i) = None" if "\<not> (i < 0 \<or> i \<ge> int MAX_UNIX_SOCKS)" "us_state (t ! nat i) = USOCK_BOUND"
      using not_connected_no_peer [OF ok, of "nat i"] that len by auto
    then show ?thesis using UListen ok len
      by (auto simp: unix_sock_listen_def usock_inv_def intro!: peers_ok_update)
  next
    case (UConnect path)
    then show ?thesis using peers_ok_connect [OF ok prod.collapse [symmetric]] len by (simp add: usock_inv_def)
  next
    case (UAccept i)
    then show ?thesis using ok len
      by (auto simp: unix_sock_accept_def usock_inv_def Let_def intro!: peers_ok_update split: option.split)
  next
    case (UPut p bs)
    then show ?thesis using ok len put_bytes_frame [OF prod.collapse [symmetric], of bs "t ! p"]
      by (simp add: usock_inv_def peers_ok_update)
  next
    case (UTake i n)
    then show ?thesis using ok len take_bytes_frame [OF prod.collapse [symmetric], of n "t ! i"]
      by (simp add: usock_inv_def peers_ok_update)
  next
    case (UClose i)
    show ?thesis
    proof (cases "unix_sock_get i")
      case None
      then show ?thesis using UClose assms by (simp add: unix_sock_close_def)
    next
      case (Some k)
      then have "k < length t" using len by (auto simp: unix_sock_get_def split: if_splits)
      then have "peers_ok (unix_sock_close (Some k) t)" by (rule peers_ok_close [OF ok])
      moreover have "length (unix_sock_close (Some k) t) = length t"
        by (simp add: unix_sock_close_def Let_def split: option.split)
      ultimately show ?thesis using UClose Some len by (simp add: usock_inv_def)
    qed
  qed
qed

lemma usock_inv_run: "usock_inv t \<Longrightarrow> usock_inv (fold usock_exec ops t)"
  by (induction ops arbitrary: t) (simp_all add: usock_inv_exec)

lemma usock_inv_boot: "usock_inv usock_boot"
  by (simp add: usock_inv_def usock_boot_def peers_ok_def usock_zero_def)

section \<open>Properties\<close>

text \<open>
  C28: The peer links of the sockets are always symmetric: after any sequence of socket calls and of
  rounds of pending sends and receives from boot, a socket with a peer is connected, its peer is
  another socket of the table, and that socket's peer is the first one.
\<close>

theorem peer_links_symmetric:
  "peers_ok (fold usock_exec ops usock_boot)"
  using usock_inv_run [OF usock_inv_boot] by (simp add: usock_inv_def)

text \<open>
  C29: A connection is a reliable byte stream: for every sequence of non-blocking sends at one end and
  receives at the other, the bytes accepted from the sender are exactly the bytes received so far
  followed by the bytes waiting in the buffer, in order, with nothing lost, duplicated or changed.
\<close>

theorem connection_is_stream:
  assumes "linked a b t" and "usb.contents (t ! b) = []"
    and "fold (stream_exec a b) ops ([], [], t) = (accepted, received, t')"
  shows "accepted = received @ usb.contents (t' ! b) \<and> length (usb.contents (t' ! b)) \<le> 4096"
proof -
  have r: "linked a b t' \<and> accepted = received @ usb.contents (t' ! b)"
    using stream_run [OF assms(1) _ assms(3)] assms(2) by simp
  then have "us_count (t' ! b) \<le> UNIX_SOCK_BUF_SZ" using usb.cnt_le by (simp add: linked_def)
  then have "length (usb.contents (t' ! b)) \<le> 4096"
    by (simp only: usb.length_contents) (simp add: UNIX_SOCK_BUF_SZ_def)
  then show ?thesis using r by blast
qed

text \<open>Two fresh sockets linked with each other.\<close>

definition demo_pair :: "unix_sock list" where
  "demo_pair = usock_link 0 1 [us_init () usock_zero, us_init () usock_zero]"

lemma demo_pair_linked: "linked 0 1 demo_pair" "usb.contents (demo_pair ! 1) = []"
  by (simp_all add: demo_pair_def linked_def usock_link_def Let_def usb.ok_def usb.contents_def ring_ok_def
      usock_zero_def usb.cap_pos)

theorem connection_is_stream_witness:
  "\<exists>acc got t'. fold (stream_exec 0 1) [SSend [1, 2], SRecv 1, SSend [3], SRecv 5] ([], [], demo_pair) = (acc, got, t') \<and>
     acc = got @ usb.contents (t' ! 1)"
proof -
  obtain acc got t' where r: "fold (stream_exec 0 1) [SSend [1, 2], SRecv 1, SSend [3], SRecv 5]
      ([], [], demo_pair) = (acc, got, t')" by (metis prod_cases3)
  from connection_is_stream [OF demo_pair_linked r] r show ?thesis by blast
qed

text \<open>
  A blocked sender does not notice that its peer has closed: the loop tests the flag that says the
  sender itself has closed. When the peer is closed while the sender waits and its slot is given to a
  new socket, the sender's next round writes its bytes into the buffer of that unrelated socket and
  the call reports success.
\<close>

theorem send_writes_to_stranger:
  assumes "i < length t" and "p < length t" and "i \<noteq> p" and "us_state (t ! i) = USOCK_CONNECTED"
    and "us_peer (t ! i) = Some p" and "us_peer (t ! p) = Some i" and "\<not> us_peer_closed (t ! p)"
    and "us_count (t ! p) = UNIX_SOCK_BUF_SZ" and "usb.ok (t ! p)" and "us_refs (t ! p) = 1"
    and "data \<noteq> []" and "length data \<le> UNIX_SOCK_BUF_SZ"
    and "unix_sock_alloc (unix_sock_close (Some p) t) = (Inr p, t1)"
  shows "\<exists>t2. unix_sock_send [\<lambda>_. t1] (Some i) data False t = Some (Inr (length data), t2) \<and>
     us_state (t2 ! p) = USOCK_UNBOUND \<and> us_peer (t2 ! p) = None \<and> us_peer (t2 ! i) = None \<and>
     usb.contents (t2 ! p) = data"
proof -
  obtain d ds where data: "data = d # ds" using assms(11) by (cases data) auto
  have first: "put_bytes data (t ! p) = (0, t ! p)" using assms(8) data by simp
  let ?t0 = "unix_sock_close (Some p) t"
  have al: "alloc_slot us_used (us_init ()) ?t0 = Some (p, t1)"
    using assms(13) by (auto simp: unix_sock_alloc_def split: option.splits)
  then have t1: "t1 = ?t0[p := us_init () (?t0 ! p)]" using alloc_slot_SomeD by blast
  have len: "length ?t0 = length t" by (simp add: unix_sock_close_def Let_def split: option.split)
  have i0: "us_peer (?t0 ! i) = None"
    using assms(1-3,6,10) by (simp add: unix_sock_close_def Let_def peer_notify_def)
  have buf: "us_buf (?t0 ! p) = us_buf (t ! p)"
    using assms(1-3,6,10) by (simp add: unix_sock_close_def Let_def peer_notify_def us_release_def)
  have q: "us_state (t1 ! p) = USOCK_UNBOUND" "us_peer (t1 ! p) = None" "\<not> us_peer_closed (t1 ! p)"
    "us_count (t1 ! p) = 0" "us_rd_pos (t1 ! p) = 0" "us_wr_pos (t1 ! p) = 0" "us_buf (t1 ! p) = us_buf (t ! p)"
    using assms(2) len buf by (simp_all add: t1)
  have okp: "usb.ok (t1 ! p)" using assms(9) q by (simp add: usb.ok_def ring_ok_def)
  have emp: "usb.contents (t1 ! p) = []" using q(4) by (simp add: usb.contents_def)
  obtain n u where pb: "put_bytes data (t1 ! p) = (n, u)" by fastforce
  note c = put_bytes_contents [OF okp pb] and fr = put_bytes_frame [OF pb]
  have n: "n = length data" using c q(4) assms(12) by simp
  have "unix_sock_send [\<lambda>_. t1] (Some i) data False t = send_loop [] p data 0 False t1"
    using assms(4,5,7,8,11) first by (simp add: unix_sock_send_def Let_def)
  also have "\<dots> = Some (Inr (length data), t1[p := u])"
    using assms(11) q(3) pb n by (simp add: Let_def)
  finally have r: "unix_sock_send [\<lambda>_. t1] (Some i) data False t = Some (Inr (length data), t1[p := u])" .
  have "us_peer (t1 ! i) = None" using i0 assms(3) by (simp add: t1)
  then show ?thesis
    using r c fr q emp n assms(2,3) len by (intro exI [of _ "t1[p := u]"]) (simp add: t1)
qed

text \<open>The pair with the receive buffer of socket 1 full.\<close>

definition demo_full :: "unix_sock list" where
  "demo_full = demo_pair[1 := (demo_pair ! 1)\<lparr>us_count := UNIX_SOCK_BUF_SZ\<rparr>]"

theorem send_writes_to_stranger_witness:
  "\<exists>t1 t2. unix_sock_alloc (unix_sock_close (Some 1) demo_full) = (Inr 1, t1) \<and>
     unix_sock_send [\<lambda>_. t1] (Some 0) [7, 8] False demo_full = Some (Inr 2, t2) \<and>
     us_peer (t2 ! 1) = None \<and> usb.contents (t2 ! 1) = [7, 8]"
proof -
  let ?t0 = "unix_sock_close (Some 1) demo_full"
  have c: "unix_sock_alloc ?t0 = (Inr 1, ?t0[1 := us_init () (?t0 ! 1)])"
    by (simp add: demo_full_def demo_pair_def usock_link_def Let_def unix_sock_alloc_def alloc_slot_def
        unix_sock_close_def us_used_def peer_notify_def us_release_def)
  have ok: "usb.ok (demo_full ! 1)"
    by (simp add: demo_full_def demo_pair_def usock_link_def Let_def usb.ok_def ring_ok_def usock_zero_def usb.cap_pos)
  have l: "length [7 :: u8, 8] \<le> UNIX_SOCK_BUF_SZ" by (simp add: UNIX_SOCK_BUF_SZ_def)
  have "\<exists>t2. unix_sock_send [\<lambda>_. ?t0[1 := us_init () (?t0 ! 1)]] (Some 0) [7, 8] False demo_full = Some (Inr (length [7 :: u8, 8]), t2) \<and>
     us_state (t2 ! 1) = USOCK_UNBOUND \<and> us_peer (t2 ! 1) = None \<and> us_peer (t2 ! 0) = None \<and> usb.contents (t2 ! 1) = [7, 8]"
    by (rule send_writes_to_stranger [OF _ _ _ _ _ _ _ _ ok _ _ l c])
      (simp_all add: demo_full_def demo_pair_def usock_link_def Let_def)
  then show ?thesis using c by auto
qed

end
