(* ===== verification/Vmm_Clone.thy ===== *)
theory Vmm_Clone
  imports Vmm
begin

text \<open>Correctness of vmm_clone_cow (src/kernel/src/mm/vmm.c), the address-space copy that fork makes:
what the parent's and the child's page-table entries are after the four nested loops have run,
for every user page.\<close>

section \<open>What the clone does to one entry\<close>

definition idx_va :: "nat \<times> nat \<times> nat \<times> nat \<Rightarrow> u64" where
  "idx_va x = (case x of (i4, i3, i2, i1) \<Rightarrow> va_of i4 i3 i2 i1)"

definition private_page :: "mmap_entry list \<Rightarrow> nat \<times> nat \<times> nat \<times> nat \<Rightarrow> bool" where
  "private_page table x \<longleftrightarrow> \<not> is_shm_page (idx_va x) table"

definition cow_of :: "u64 \<Rightarrow> u64" where
  "cow_of e = cow_flags_of (e AND NOT PTE_ADDR_MASK)"

definition parent_entry :: "mmap_entry list \<Rightarrow> nat \<times> nat \<times> nat \<times> nat \<Rightarrow> u64 \<Rightarrow> u64" where
  "parent_entry table x e =
     (if has e PTE_PRESENT \<and> private_page table x then (e AND PTE_ADDR_MASK) OR cow_of e else e)"

definition child_entry :: "mmap_entry list \<Rightarrow> nat \<times> nat \<times> nat \<times> nat \<Rightarrow> u64 \<Rightarrow> u64" where
  "child_entry table x e =
     (if \<not> has e PTE_PRESENT then 0
      else if private_page table x then leaf_pte (e AND PTE_ADDR_MASK) (cow_of e AND NOT PTE_PRESENT)
      else leaf_pte (e AND PTE_ADDR_MASK) ((e AND NOT PTE_ADDR_MASK) AND NOT PTE_PRESENT))"

section \<open>The loop invariant\<close>

definition cinv :: "nat set \<Rightarrow> nat \<Rightarrow> nat \<Rightarrow> mmap_entry list \<Rightarrow> vm
    \<Rightarrow> (nat \<times> nat \<times> nat \<times> nat \<Rightarrow> bool) \<Rightarrow> vm \<Rightarrow> bool" where
  "cinv R P C table s0 D s \<longleftrightarrow> vm_ok R s
     \<and> (\<forall>qs. upath qs \<longrightarrow> walk (vm_mem s) P qs = walk (vm_mem s0) P qs)
     \<and> (\<forall>qs g. upath qs \<longrightarrow> length qs < 3 \<longrightarrow> walk (vm_mem s0) P qs = Some g
          \<longrightarrow> vm_mem s g = vm_mem s0 g)
     \<and> (\<forall>x. uidx x \<longrightarrow> entry (vm_mem s) P x =
          (if D x then parent_entry table x (entry (vm_mem s0) P x) else entry (vm_mem s0) P x))
     \<and> (\<forall>x. uidx x \<longrightarrow> entry (vm_mem s) C x = 0
          \<or> D x \<and> entry (vm_mem s) C x = child_entry table x (entry (vm_mem s0) P x))
     \<and> (\<forall>r\<in>R - {P, C}. \<forall>x. uidx x \<longrightarrow> entry (vm_mem s) r x = entry (vm_mem s0) r x)"

lemma cinvD:
  assumes "cinv R P C table s0 D s"
  shows "vm_ok R s"
    and "\<And>qs. upath qs \<Longrightarrow> walk (vm_mem s) P qs = walk (vm_mem s0) P qs"
    and "\<And>qs g. upath qs \<Longrightarrow> length qs < 3 \<Longrightarrow> walk (vm_mem s0) P qs = Some g \<Longrightarrow> vm_mem s g = vm_mem s0 g"
    and "\<And>x. uidx x \<Longrightarrow> entry (vm_mem s) P x =
          (if D x then parent_entry table x (entry (vm_mem s0) P x) else entry (vm_mem s0) P x)"
    and "\<And>x. uidx x \<Longrightarrow> entry (vm_mem s) C x = 0
          \<or> D x \<and> entry (vm_mem s) C x = child_entry table x (entry (vm_mem s0) P x)"
    and "\<And>r x. r \<in> R \<Longrightarrow> r \<noteq> P \<Longrightarrow> r \<noteq> C \<Longrightarrow> uidx x \<Longrightarrow> entry (vm_mem s) r x = entry (vm_mem s0) r x"
  using assms unfolding cinv_def by blast+

lemma cinvI:
  assumes "vm_ok R s"
    and "\<And>qs. upath qs \<Longrightarrow> walk (vm_mem s) P qs = walk (vm_mem s0) P qs"
    and "\<And>qs g. upath qs \<Longrightarrow> length qs < 3 \<Longrightarrow> walk (vm_mem s0) P qs = Some g \<Longrightarrow> vm_mem s g = vm_mem s0 g"
    and "\<And>x. uidx x \<Longrightarrow> entry (vm_mem s) P x =
          (if D x then parent_entry table x (entry (vm_mem s0) P x) else entry (vm_mem s0) P x)"
    and "\<And>x. uidx x \<Longrightarrow> entry (vm_mem s) C x = 0
          \<or> D x \<and> entry (vm_mem s) C x = child_entry table x (entry (vm_mem s0) P x)"
    and "\<And>r x. r \<in> R \<Longrightarrow> r \<noteq> P \<Longrightarrow> r \<noteq> C \<Longrightarrow> uidx x \<Longrightarrow> entry (vm_mem s) r x = entry (vm_mem s0) r x"
  shows "cinv R P C table s0 D s"
  using assms unfolding cinv_def by blast

lemma cinv_skip:
  assumes c: "cinv R P C table s0 D s"
    and D: "\<And>x. uidx x \<Longrightarrow> D x \<Longrightarrow> D' x"
    and D': "\<And>x. uidx x \<Longrightarrow> D' x \<Longrightarrow> D x \<or> \<not> has (entry (vm_mem s0) P x) PTE_PRESENT"
  shows "cinv R P C table s0 D' s"
proof (rule cinvI)
  note d = cinvD [OF c]
  fix x assume x: "uidx x"
  show "entry (vm_mem s) P x = (if D' x then parent_entry table x (entry (vm_mem s0) P x)
      else entry (vm_mem s0) P x)"
    using d(4) [OF x] D [OF x] D' [OF x] by (auto simp: parent_entry_def)
  show "entry (vm_mem s) C x = 0
      \<or> D' x \<and> entry (vm_mem s) C x = child_entry table x (entry (vm_mem s0) P x)"
    using d(5) [OF x] D [OF x] by blast
qed (use cinvD [OF c] in simp_all)

lemma vm_ok_ref_inc: "vm_ok R s \<Longrightarrow> vm_ok R (s\<lparr>vm_pmm := pmm_ref_inc (vm_pmm s) a\<rparr>)"
proof -
  assume ok: "vm_ok R s"
  have "pmm_ok (pmm_ref_inc (vm_pmm s) a)" "pm_total (pmm_ref_inc (vm_pmm s) a) = pm_total (vm_pmm s)"
    "free_set (pmm_ref_inc (vm_pmm s) a) = free_set (vm_pmm s)"
    using ok by (simp_all add: vm_ok_def pmm_ref_inc_def Let_def pmm_ok_refs free_set_def)
  then show ?thesis using ok by (simp add: vm_ok_def forest_def)
qed

lemma entry_pte: "entry mem r x = pte_at mem r (idx_va x)"
  by (cases x) (simp add: entry_def idx_va_def)

lemma idx_va_uva: "uidx x \<Longrightarrow> uva (idx_va x)"
  by (cases x) (auto simp: idx_va_def intro: uidx_uva)

lemma same_page_iff: "uidx x \<Longrightarrow> uidx y \<Longrightarrow> same_page (idx_va x) (idx_va y) \<longleftrightarrow> x = y"
  by (cases x; cases y) (simp add: idx_va_def same_page_idx)

lemma map_child:
  assumes ok: "vm_ok R s" and C: "addr_page child \<in> R" and x: "uidx x"
    and s': "s' = snd (vmm_map_page_in s child (idx_va x) phys fl)"
  shows "vm_ok R s'"
    and "\<And>r y. r \<in> R \<Longrightarrow> uidx y \<Longrightarrow> \<not> (r = addr_page child \<and> y = x) \<Longrightarrow>
           entry (vm_mem s') r y = entry (vm_mem s) r y"
    and "entry (vm_mem s') (addr_page child) x \<in> {entry (vm_mem s) (addr_page child) x, leaf_pte phys fl}"
    and "\<And>r qs. r \<in> R \<Longrightarrow> r \<noteq> addr_page child \<Longrightarrow> upath qs
           \<Longrightarrow> walk (vm_mem s') r qs = walk (vm_mem s) r qs"
    and "\<And>r qs g. r \<in> R \<Longrightarrow> r \<noteq> addr_page child \<Longrightarrow> upath qs \<Longrightarrow> walk (vm_mem s) r qs = Some g
           \<Longrightarrow> vm_mem s' g = vm_mem s g"
proof -
  note u = idx_va_uva [OF x]
  have "vm_ok R s'
    \<and> (\<forall>r\<in>R. \<forall>y. uidx y \<longrightarrow> \<not> (r = addr_page child \<and> y = x) \<longrightarrow>
         entry (vm_mem s') r y = entry (vm_mem s) r y)
    \<and> entry (vm_mem s') (addr_page child) x \<in> {entry (vm_mem s) (addr_page child) x, leaf_pte phys fl}
    \<and> (\<forall>r\<in>R. \<forall>qs. r \<noteq> addr_page child \<longrightarrow> upath qs \<longrightarrow> walk (vm_mem s') r qs = walk (vm_mem s) r qs)
    \<and> (\<forall>r\<in>R. \<forall>qs g. r \<noteq> addr_page child \<longrightarrow> upath qs \<longrightarrow> walk (vm_mem s) r qs = Some g
         \<longrightarrow> vm_mem s' g = vm_mem s g)"
    using ok C u
  proof (cases rule: vmm_map_page_in_cases [where phys = phys and fl = fl])
    case (fail t)
    then show ?thesis using C x u idx_va_uva by (simp add: s' entry_pte grows_def)
  next
    case (mapped t)
    then show ?thesis using C x u idx_va_uva by (auto simp: s' entry_pte grows_def same_page_iff)
  qed
  then show "vm_ok R s'"
    "\<And>r y. r \<in> R \<Longrightarrow> uidx y \<Longrightarrow> \<not> (r = addr_page child \<and> y = x) \<Longrightarrow>
           entry (vm_mem s') r y = entry (vm_mem s) r y"
    "entry (vm_mem s') (addr_page child) x \<in> {entry (vm_mem s) (addr_page child) x, leaf_pte phys fl}"
    "\<And>r qs. r \<in> R \<Longrightarrow> r \<noteq> addr_page child \<Longrightarrow> upath qs
           \<Longrightarrow> walk (vm_mem s') r qs = walk (vm_mem s) r qs"
    "\<And>r qs g. r \<in> R \<Longrightarrow> r \<noteq> addr_page child \<Longrightarrow> upath qs \<Longrightarrow> walk (vm_mem s) r qs = Some g
           \<Longrightarrow> vm_mem s' g = vm_mem s g"
    by blast+
qed

section \<open>One page\<close>

definition protect_parent :: "mmap_entry list \<Rightarrow> nat \<Rightarrow> nat \<times> nat \<times> nat \<times> nat \<Rightarrow> vm \<Rightarrow> vm" where
  "protect_parent table pt x s =
     s\<lparr>vm_mem := put (vm_mem s) pt (snd (snd (snd x)))
        (parent_entry table x (vm_mem s pt (snd (snd (snd x)))))\<rparr>"

lemma put_id: "put mem f i (mem f i) = mem"
  by (simp add: put_def)

lemma clone_leaf_eq:
  assumes e: "e = vm_mem s pt i1" "has e PTE_PRESENT" and x: "x = (i4, i3, i2, i1)"
  obtains fl where "leaf_pte (e AND PTE_ADDR_MASK) fl = child_entry table x e"
    "clone_leaf table child pt i4 i3 i2 i1 s =
      (let s1 = snd (vmm_map_page_in (protect_parent table pt x s) child (idx_va x) (e AND PTE_ADDR_MASK) fl)
       in s1\<lparr>vm_pmm := pmm_ref_inc (vm_pmm s1) (e AND PTE_ADDR_MASK)\<rparr>)"
proof (cases "private_page table x")
  case True
  then show ?thesis
    using e that [of "cow_of e AND NOT PTE_PRESENT"] x
    by (simp add: clone_leaf_def private_page_def idx_va_def child_entry_def protect_parent_def
        parent_entry_def cow_of_def Let_def)
next
  case False
  then show ?thesis
    using e that [of "(e AND NOT PTE_ADDR_MASK) AND NOT PTE_PRESENT"] x
    by (simp add: clone_leaf_def private_page_def idx_va_def child_entry_def protect_parent_def
        parent_entry_def Let_def put_id)
qed

lemma protect_parent_facts:
  assumes ok: "vm_ok R s" and P: "P \<in> R" and x: "x = (i4, i3, i2, i1)" "uidx x"
    and pt: "walk (vm_mem s) P [i4, i3, i2] = Some pt"
    and t_def: "t = protect_parent table pt x s"
  shows "vm_ok R t"
    and "\<And>r y. r \<in> R \<Longrightarrow> uidx y \<Longrightarrow> entry (vm_mem t) r y =
          (if r = P \<and> y = x then parent_entry table x (entry (vm_mem s) P x) else entry (vm_mem s) r y)"
    and "\<And>r qs. r \<in> R \<Longrightarrow> upath qs \<Longrightarrow> walk (vm_mem t) r qs = walk (vm_mem s) r qs"
    and "\<And>qs g. upath qs \<Longrightarrow> length qs < 3 \<Longrightarrow> walk (vm_mem s) P qs = Some g \<Longrightarrow> vm_mem t g = vm_mem s g"
proof -
  have i: "i4 < 512" "i3 < 512" "i2 < 512" "i1 < 512" using x by (auto simp: uidx_def)
  have va: "va_path (idx_va x) = [i4, i3, i2]" "PT_INDEX (idx_va x) = i1"
    using va_of_index [OF i] x(1) by (simp_all add: idx_va_def)
  have e: "entry (vm_mem s) P x = vm_mem s pt i1"
    using entry_walk [of i4 i3 i2 i1] x pt by simp
  have t: "t = s\<lparr>vm_mem := put (vm_mem s) pt (PT_INDEX (idx_va x)) (parent_entry table x (vm_mem s pt i1))\<rparr>"
    by (simp add: t_def protect_parent_def x(1) va(2) [unfolded x(1)])
  note w = write_leaf [OF ok P idx_va_uva [OF x(2)] pt [folded va(1)] t]
  show "vm_ok R t" using w(1) by (simp add: grows_def)
  show "\<And>r qs. r \<in> R \<Longrightarrow> upath qs \<Longrightarrow> walk (vm_mem t) r qs = walk (vm_mem s) r qs"
    by (rule w(3))
  show "\<And>qs g. upath qs \<Longrightarrow> length qs < 3 \<Longrightarrow> walk (vm_mem s) P qs = Some g \<Longrightarrow> vm_mem t g = vm_mem s g"
    using w(4) [OF P] by blast
  fix r y assume "r \<in> R" "uidx y"
  then show "entry (vm_mem t) r y =
      (if r = P \<and> y = x then parent_entry table x (entry (vm_mem s) P x) else entry (vm_mem s) r y)"
    using w(2) [of r "idx_va y"] idx_va_uva same_page_iff [OF _ x(2)] e by (simp add: entry_pte)
qed

lemma clone_leaf_step:
  assumes c: "cinv R P (addr_page child) table s0 D s" and P: "P \<in> R" "P \<noteq> addr_page child"
    and C: "addr_page child \<in> R" and x: "x = (i4, i3, i2, i1)" "uidx x" and nd: "\<not> D x"
    and pt: "walk (vm_mem s) P [i4, i3, i2] = Some pt"
  shows "cinv R P (addr_page child) table s0 (\<lambda>y. D y \<or> y = x) (clone_leaf table child pt i4 i3 i2 i1 s)"
proof -
  note d = cinvD [OF c]
  define e where "e = vm_mem s pt i1"
  have e: "entry (vm_mem s) P x = e" "entry (vm_mem s0) P x = e"
    using entry_walk [of i4 i3 i2 i1 "vm_mem s" P] x pt d(4) [OF x(2)] nd by (simp_all add: e_def)
  show ?thesis
  proof (cases "has e PTE_PRESENT")
    case False
    then have "clone_leaf table child pt i4 i3 i2 i1 s = s"
      by (simp add: clone_leaf_def e_def)
    then show ?thesis using False e(2) by (auto intro: cinv_skip [OF c])
  next
    case True
    define t where "t = protect_parent table pt x s"
    note pf = protect_parent_facts [OF d(1) P(1) x pt t_def]
    from e_def True x(1) obtain fl where fl: "leaf_pte (e AND PTE_ADDR_MASK) fl = child_entry table x e"
      "clone_leaf table child pt i4 i3 i2 i1 s =
        (let s1 = snd (vmm_map_page_in t child (idx_va x) (e AND PTE_ADDR_MASK) fl)
         in s1\<lparr>vm_pmm := pmm_ref_inc (vm_pmm s1) (e AND PTE_ADDR_MASK)\<rparr>)"
      unfolding t_def by (rule clone_leaf_eq)
    define s1 where "s1 = snd (vmm_map_page_in t child (idx_va x) (e AND PTE_ADDR_MASK) fl)"
    note m = map_child [OF pf(1) C x(2) s1_def]
    have "cinv R P (addr_page child) table s0 (\<lambda>y. D y \<or> y = x)
        (s1\<lparr>vm_pmm := pmm_ref_inc (vm_pmm s1) (e AND PTE_ADDR_MASK)\<rparr>)"
    proof (rule cinvI, goal_cases)
      case 1
      show ?case using m(1) by (rule vm_ok_ref_inc)
    next
      case (2 qs)
      then show ?case using m(4) [OF P] pf(3) [OF P(1)] d(2) by simp
    next
      case (3 qs g)
      have w: "walk (vm_mem s) P qs = Some g" "walk (vm_mem t) P qs = Some g"
        using 3 pf(3) [OF P(1)] d(2) by simp_all
      show ?case
        using m(5) [OF P 3(1) w(2)] pf(4) [OF 3(1,2) w(1)] d(3) [OF 3] by simp
    next
      case (4 y)
      show ?case using m(2) [OF P(1) 4] P(2) pf(2) [OF P(1) 4] d(4) [OF 4] e nd by auto
    next
      case (5 y)
      show ?case
      proof (cases "y = x")
        case True
        have "entry (vm_mem t) (addr_page child) x = 0"
          using pf(2) [OF C x(2)] P(2) d(5) [OF x(2)] nd by simp
        then show ?thesis using True m(3) fl(1) e(2) by auto
      next
        case False
        then show ?thesis
          using m(2) [OF C 5] pf(2) [OF C 5] d(5) [OF 5] P(2) by auto
      qed
    next
      case (6 r y)
      then show ?case using m(2) [OF 6(1) 6(4)] pf(2) [OF 6(1,4)] d(6) [OF 6] by simp
    qed
    then show ?thesis using fl(2) by (simp add: s1_def Let_def)
  qed
qed

section \<open>The loops\<close>

lemma fold_upt_inv:
  assumes "Q 0 s" and "\<And>k s. k < n \<Longrightarrow> Q k s \<Longrightarrow> Q (Suc k) (f k s)"
  shows "Q n (fold f [0..<n] s)"
  using assms(2) by (induction n) (simp_all add: assms(1))

definition bef :: "nat \<times> nat \<times> nat \<times> nat \<Rightarrow> nat \<Rightarrow> nat \<Rightarrow> nat \<Rightarrow> nat \<Rightarrow> bool" where
  "bef y i4 i3 i2 i1 = (case y of (a, b, c, d) \<Rightarrow>
     a < i4 \<or> a = i4 \<and> (b < i3 \<or> b = i3 \<and> (c < i2 \<or> c = i2 \<and> d < i1)))"

definition no_huge :: "phys_mem \<Rightarrow> nat \<Rightarrow> bool" where
  "no_huge mem r \<longleftrightarrow> (\<forall>i4 i3 i2 pd. upath [i4, i3, i2] \<and> walk mem r [i4, i3] = Some pd
      \<and> has (mem pd i2) PTE_PRESENT \<longrightarrow> \<not> has (mem pd i2) PTE_HUGE)"

lemma clone_pt_step:
  assumes P: "P \<in> R" "P \<noteq> addr_page child" and C: "addr_page child \<in> R"
    and c: "cinv R P (addr_page child) table s0 (\<lambda>y. bef y i4 i3 i2 0) s"
    and i: "i4 < 256" "i3 < 512" "i2 < 512"
    and pt: "walk (vm_mem s0) P [i4, i3, i2] = Some pt"
  shows "cinv R P (addr_page child) table s0 (\<lambda>y. bef y i4 i3 (Suc i2) 0)
           (clone_pt table child pt i4 i3 i2 s)"
proof -
  have up: "upath [i4, i3, i2]" using i by (simp add: upath_def)
  have "cinv R P (addr_page child) table s0 (\<lambda>y. bef y i4 i3 i2 512) (clone_pt table child pt i4 i3 i2 s)"
    unfolding clone_pt_def
  proof (rule fold_upt_inv [where Q = "\<lambda>k. cinv R P (addr_page child) table s0 (\<lambda>y. bef y i4 i3 i2 k)"])
    fix k t assume k: "k < 512" and q: "cinv R P (addr_page child) table s0 (\<lambda>y. bef y i4 i3 i2 k) t"
    have x: "uidx (i4, i3, i2, k)" using i k by (simp add: uidx_def)
    have w: "walk (vm_mem t) P [i4, i3, i2] = Some pt" using cinvD(2) [OF q up] pt by simp
    have "cinv R P (addr_page child) table s0 (\<lambda>y. bef y i4 i3 i2 k \<or> y = (i4, i3, i2, k))
        (clone_leaf table child pt i4 i3 i2 k t)"
      using clone_leaf_step [OF q P C refl x _ w] by (simp add: bef_def)
    then show "cinv R P (addr_page child) table s0 (\<lambda>y. bef y i4 i3 i2 (Suc k))
        (clone_leaf table child pt i4 i3 i2 k t)"
      by (rule cinv_skip) (auto simp: bef_def split: prod.splits)
  qed (rule c)
  then show ?thesis
    by (rule cinv_skip) (auto simp: bef_def uidx_def split: prod.splits)
qed

lemma clone_pd_step:
  assumes P: "P \<in> R" "P \<noteq> addr_page child" and C: "addr_page child \<in> R" and nh: "no_huge (vm_mem s0) P"
    and c: "cinv R P (addr_page child) table s0 (\<lambda>y. bef y i4 i3 0 0) s"
    and i: "i4 < 256" "i3 < 512"
    and pd: "walk (vm_mem s0) P [i4, i3] = Some pd"
  shows "cinv R P (addr_page child) table s0 (\<lambda>y. bef y i4 (Suc i3) 0 0)
           (clone_pd table child pd i4 i3 s)"
proof -
  have up: "upath [i4, i3]" using i by (simp add: upath_def)
  have "cinv R P (addr_page child) table s0 (\<lambda>y. bef y i4 i3 512 0) (clone_pd table child pd i4 i3 s)"
    unfolding clone_pd_def
  proof (rule fold_upt_inv [where Q = "\<lambda>k. cinv R P (addr_page child) table s0 (\<lambda>y. bef y i4 i3 k 0)"])
    fix k t assume k: "k < 512" and q: "cinv R P (addr_page child) table s0 (\<lambda>y. bef y i4 i3 k 0) t"
    define e where "e = vm_mem s0 pd k"
    have te: "vm_mem t pd k = e" using cinvD(3) [OF q up _ pd] by (simp add: e_def)
    have w: "walk (vm_mem s0) P [i4, i3, k] = (if has e PTE_PRESENT then Some (next_table e) else None)"
      using walk_append [of "vm_mem s0" P "[i4, i3]" "[k]"] pd by (simp add: e_def)
    show "cinv R P (addr_page child) table s0 (\<lambda>y. bef y i4 i3 (Suc k) 0)
        (let e = vm_mem t pd k in if \<not> has e PTE_PRESENT then t else if has e PTE_HUGE then t
         else clone_pt table child (next_table e) i4 i3 k t)"
    proof (cases "has e PTE_PRESENT")
      case True
      have "upath [i4, i3, k]" using i k by (simp add: upath_def)
      then have "\<not> has e PTE_HUGE" using nh pd True by (auto simp: no_huge_def e_def)
      then show ?thesis
        using True te clone_pt_step [OF P C q i k, of "next_table e"] w by (simp add: Let_def)
    next
      case False
      have "entry (vm_mem s0) P (i4, i3, k, d) = 0" if "uidx (i4, i3, k, d)" for d
        using entry_walk [OF that] w False by simp
      then have "cinv R P (addr_page child) table s0 (\<lambda>y. bef y i4 i3 (Suc k) 0) t"
        by (intro cinv_skip [OF q]) (auto simp: bef_def less_Suc_eq split: prod.splits)
      then show ?thesis using False te by simp
    qed
  qed (rule c)
  then show ?thesis
    by (rule cinv_skip) (auto simp: bef_def uidx_def split: prod.splits)
qed

lemma clone_pdpt_step:
  assumes P: "P \<in> R" "P \<noteq> addr_page child" and C: "addr_page child \<in> R" and nh: "no_huge (vm_mem s0) P"
    and c: "cinv R P (addr_page child) table s0 (\<lambda>y. bef y i4 0 0 0) s"
    and i: "i4 < 256"
    and pdpt: "walk (vm_mem s0) P [i4] = Some pdpt"
  shows "cinv R P (addr_page child) table s0 (\<lambda>y. bef y (Suc i4) 0 0 0)
           (clone_pdpt table child pdpt i4 s)"
proof -
  have up: "upath [i4]" using i by (simp add: upath_def)
  have "cinv R P (addr_page child) table s0 (\<lambda>y. bef y i4 512 0 0) (clone_pdpt table child pdpt i4 s)"
    unfolding clone_pdpt_def
  proof (rule fold_upt_inv [where Q = "\<lambda>k. cinv R P (addr_page child) table s0 (\<lambda>y. bef y i4 k 0 0)"])
    fix k t assume k: "k < 512" and q: "cinv R P (addr_page child) table s0 (\<lambda>y. bef y i4 k 0 0) t"
    define e where "e = vm_mem s0 pdpt k"
    have te: "vm_mem t pdpt k = e" using cinvD(3) [OF q up _ pdpt] by (simp add: e_def)
    have w: "walk (vm_mem s0) P [i4, k] = (if has e PTE_PRESENT then Some (next_table e) else None)"
      using walk_append [of "vm_mem s0" P "[i4]" "[k]"] pdpt by (simp add: e_def)
    show "cinv R P (addr_page child) table s0 (\<lambda>y. bef y i4 (Suc k) 0 0)
        (let e = vm_mem t pdpt k in if \<not> has e PTE_PRESENT then t
         else clone_pd table child (next_table e) i4 k t)"
    proof (cases "has e PTE_PRESENT")
      case True
      then show ?thesis
        using te clone_pd_step [OF P C nh q i k, of "next_table e"] w by (simp add: Let_def)
    next
      case False
      have "entry (vm_mem s0) P (i4, k, c, d) = 0" if "uidx (i4, k, c, d)" for c d
        using entry_walk [OF that] w False walk_append [of "vm_mem s0" P "[i4, k]" "[c]"] by simp
      then have "cinv R P (addr_page child) table s0 (\<lambda>y. bef y i4 (Suc k) 0 0) t"
        by (intro cinv_skip [OF q]) (auto simp: bef_def less_Suc_eq split: prod.splits)
      then show ?thesis using False te by simp
    qed
  qed (rule c)
  then show ?thesis
    by (rule cinv_skip) (auto simp: bef_def uidx_def split: prod.splits)
qed

lemma clone_pml4_step:
  assumes P: "P \<in> R" "P \<noteq> addr_page child" and C: "addr_page child \<in> R" and nh: "no_huge (vm_mem s0) P"
    and c: "cinv R P (addr_page child) table s0 (\<lambda>y. False) s0"
  shows "cinv R P (addr_page child) table s0 (\<lambda>y. True) (clone_pml4 table child P s0)"
proof -
  have up: "upath []" by (simp add: upath_def)
  have "cinv R P (addr_page child) table s0 (\<lambda>y. bef y 256 0 0 0) (clone_pml4 table child P s0)"
    unfolding clone_pml4_def
  proof (rule fold_upt_inv [where Q = "\<lambda>k. cinv R P (addr_page child) table s0 (\<lambda>y. bef y k 0 0 0)"])
    fix k t assume k: "k < 256" and q: "cinv R P (addr_page child) table s0 (\<lambda>y. bef y k 0 0 0) t"
    define e where "e = vm_mem s0 P k"
    have te: "vm_mem t P k = e" using cinvD(3) [OF q up, of P] by (simp add: e_def)
    have w: "walk (vm_mem s0) P [k] = (if has e PTE_PRESENT then Some (next_table e) else None)"
      by (simp add: e_def)
    show "cinv R P (addr_page child) table s0 (\<lambda>y. bef y (Suc k) 0 0 0)
        (let e = vm_mem t P k in if \<not> has e PTE_PRESENT then t
         else clone_pdpt table child (next_table e) k t)"
    proof (cases "has e PTE_PRESENT")
      case True
      then show ?thesis
        using te clone_pdpt_step [OF P C nh q k, of "next_table e"] w by (simp add: Let_def)
    next
      case False
      have "entry (vm_mem s0) P (k, b, c, d) = 0" if "uidx (k, b, c, d)" for b c d
        using entry_walk [OF that] False by (simp add: e_def)
      then have "cinv R P (addr_page child) table s0 (\<lambda>y. bef y (Suc k) 0 0 0) t"
        by (intro cinv_skip [OF q]) (auto simp: bef_def less_Suc_eq split: prod.splits)
      then show ?thesis using False te by simp
    qed
  qed (use c in \<open>simp add: bef_def case_prod_unfold\<close>)
  then show ?thesis
    by (rule cinv_skip) (auto simp: bef_def uidx_def split: prod.splits)
qed

lemma clone_cow_result:
  assumes ok: "vm_ok R s" and P: "addr_page parent \<in> R" and nh: "no_huge (vm_mem s) (addr_page parent)"
    and cl: "vmm_clone_cow s parent table = (child, s')" and nz: "child \<noteq> 0"
  shows "addr_page child \<notin> R" "vm_ok (insert (addr_page child) R) s'"
    and "\<And>x. uidx x \<Longrightarrow> entry (vm_mem s') (addr_page parent) x =
          parent_entry table x (entry (vm_mem s) (addr_page parent) x)"
    and "\<And>x. uidx x \<Longrightarrow> entry (vm_mem s') (addr_page child) x
          \<in> {0, child_entry table x (entry (vm_mem s) (addr_page parent) x)}"
    and "\<And>r x. r \<in> R \<Longrightarrow> r \<noteq> addr_page parent \<Longrightarrow> uidx x \<Longrightarrow>
          entry (vm_mem s') r x = entry (vm_mem s) r x"
proof -
  let ?P = "addr_page parent"
  have "addr_page child \<notin> R \<and> vm_ok (insert (addr_page child) R) s'
    \<and> (\<forall>x. uidx x \<longrightarrow> entry (vm_mem s') ?P x = parent_entry table x (entry (vm_mem s) ?P x)
         \<and> entry (vm_mem s') (addr_page child) x \<in> {0, child_entry table x (entry (vm_mem s) ?P x)})
    \<and> (\<forall>r\<in>R. r \<noteq> ?P \<longrightarrow> (\<forall>x. uidx x \<longrightarrow> entry (vm_mem s') r x = entry (vm_mem s) r x))"
    using ok
  proof (cases rule: create_address_space_cases)
    case none
    then show ?thesis using cl nz by (simp add: vmm_clone_cow_def)
  next
    case (space n t)
    have child: "child = page_addr n" "addr_page child = n" and s': "s' = clone_pml4 table child ?P t"
      using cl space(1,2,3) by (auto simp: vmm_clone_cow_def)
    have nP: "?P \<noteq> n" using P space(4) by auto
    have e: "entry (vm_mem t) r x = entry (vm_mem s) r x" if "r \<in> R" "uidx x" for r x
      using space(7) [OF that(1) idx_va_uva [OF that(2)]] by (simp add: entry_pte)
    have "cinv (insert n R) ?P (addr_page child) table t (\<lambda>y. False) t"
      using space(5,6) child(2) idx_va_uva by (auto intro!: cinvI simp: entry_pte)
    moreover have "no_huge (vm_mem t) ?P"
    proof -
      have "walk (vm_mem t) ?P qs = walk (vm_mem s) ?P qs" if "upath qs" for qs
        using space(8) [OF P that] .
      moreover have "vm_mem t pd = vm_mem s pd" if "walk (vm_mem s) ?P [a, b] = Some pd" "upath [a, b]" for pd a b
      proof -
        have "pd \<noteq> n"
          using that space(8) [OF P that(2)] forest_inj [of "insert n R" t ?P n "[a, b]" "[]" n]
            space(5) P by (auto simp: vm_ok_def upath_def)
        then show ?thesis by (rule space(9))
      qed
      moreover have "upath [a, b]" if "upath [a, b, c]" for a b c
        using that by (simp add: upath_def)
      ultimately show ?thesis using nh unfolding no_huge_def by metis
    qed
    ultimately have c: "cinv (insert n R) ?P (addr_page child) table t (\<lambda>y. True) s'"
      using clone_pml4_step [of ?P "insert n R" child t table] P nP child(2) by (simp add: s')
    note d = cinvD [OF c]
    have "entry (vm_mem s') ?P x = parent_entry table x (entry (vm_mem s) ?P x)" if "uidx x" for x
      using d(4) [OF that] e [OF P that] by simp
    moreover have "entry (vm_mem s') n x \<in> {0, child_entry table x (entry (vm_mem s) ?P x)}"
      if "uidx x" for x
      using d(5) [OF that] e [OF P that] child(2) by auto
    moreover have "entry (vm_mem s') r x = entry (vm_mem s) r x" if "r \<in> R" "r \<noteq> ?P" "uidx x" for r x
      using d(6) [of r, OF _ that(2) _ that(3)] e [OF that(1,3)] that(1) child(2) space(4) by auto
    ultimately show ?thesis
      using d(1) space(4) unfolding child(2) by blast
  qed
  then show "addr_page child \<notin> R" "vm_ok (insert (addr_page child) R) s'"
    "\<And>x. uidx x \<Longrightarrow> entry (vm_mem s') ?P x = parent_entry table x (entry (vm_mem s) ?P x)"
    "\<And>x. uidx x \<Longrightarrow> entry (vm_mem s') (addr_page child) x
          \<in> {0, child_entry table x (entry (vm_mem s) ?P x)}"
    "\<And>r x. r \<in> R \<Longrightarrow> r \<noteq> ?P \<Longrightarrow> uidx x \<Longrightarrow> entry (vm_mem s') r x = entry (vm_mem s) r x"
    by blast+
qed

section \<open>Protection bits of a cloned entry\<close>

lemma bit_cow_of:
  assumes "n < 64"
  shows "bit (cow_of e) n \<longleftrightarrow> bit e n \<and> n \<noteq> 1 \<and> \<not> (12 \<le> n \<and> n < 52) \<or> n = 9 \<or> n = 11 \<and> bit e 1"
proof -
  have "has (e AND NOT PTE_ADDR_MASK) PTE_WRITABLE \<longleftrightarrow> bit e 1"
    unfolding has_iffs by (simp add: bit_simps)
  then show ?thesis
    using assms unfolding cow_of_def cow_flags_of_def
    by (auto simp: bit_simps bit_pte)
qed

lemma bit_leaf_pte:
  assumes "n < 64"
  shows "bit (leaf_pte a f) n \<longleftrightarrow> bit a n \<and> 12 \<le> n \<and> n < 52 \<or> bit f n \<or> n = 0 \<or> n = 5"
  using assms unfolding leaf_pte_def LEAF_PTE_ARCH_BITS_def
  by (auto simp: bit_simps bit_pte)

lemma parent_entry_readonly:
  "has e PTE_PRESENT \<Longrightarrow> private_page table x \<Longrightarrow> \<not> has (parent_entry table x e) PTE_WRITABLE"
  unfolding has_iffs by (simp add: parent_entry_def has_iffs bit_or_iff bit_and_iff bit_cow_of)

lemma child_entry_readonly: "private_page table x \<Longrightarrow> \<not> has (child_entry table x e) PTE_WRITABLE"
  unfolding has_iffs
  by (simp add: child_entry_def bit_leaf_pte bit_and_iff bit_not_iff bit_cow_of)

lemma child_entry_frame:
  "has e PTE_PRESENT \<Longrightarrow> child_entry table x e AND PTE_ADDR_MASK = e AND PTE_ADDR_MASK"
  by (rule bit_word_eqI)
    (auto simp: child_entry_def bit_leaf_pte bit_and_iff bit_not_iff bit_cow_of)

section \<open>Properties\<close>

lemma demo_no_huge: "no_huge (vm_mem demo_vm) 1"
proof -
  have "\<not> has (demo_mem f i) PTE_HUGE" if "f \<noteq> 4" for f i
    using that unfolding has_iffs by (auto simp: demo_mem_def bit_or_iff page_addr_def PAGE_SIZE_def)
  moreover have "pd \<noteq> 4" if "upath [a, b]" "walk demo_mem 1 [a, b] = Some pd" for a b pd
    using that walk_demo [OF that(1)] by (auto split: if_splits)
  moreover have "upath [a, b]" if "upath [a, b, c]" for a b c using that by (simp add: upath_def)
  ultimately show ?thesis unfolding no_huge_def demo_vm_def by (metis vm.select_convs(2))
qed

lemma demo_clone:
  obtains child s' where "vmm_clone_cow demo_vm (page_addr 1) [] = (child, s')" "child \<noteq> 0"
  using demo_vm_ok
proof (cases rule: create_address_space_cases)
  case none
  have "5 \<in> free_set (vm_pmm demo_vm)"
    by (simp add: free_set_def demo_vm_def demo_pmm_def bitmap_test_def)
  then show ?thesis using none by simp
next
  case (space n t)
  then show ?thesis using that by (simp add: vmm_clone_cow_def)
qed



text \<open>C34: The clone does not copy swapped-out pages: where the parent has a page in the swap area the
child has no entry at all, so the child finds the page missing while the parent keeps the only
reference to the swap slot.\<close>

theorem clone_loses_swapped:
  assumes "vm_ok R s" "addr_page parent \<in> R" "no_huge (vm_mem s) (addr_page parent)"
    and "vmm_clone_cow s parent table = (child, s')" "child \<noteq> 0"
    and x: "uidx x" and sw: "swap_is_entry (entry (vm_mem s) (addr_page parent) x)"
  shows "entry (vm_mem s') (addr_page child) x = 0
    \<and> entry (vm_mem s') (addr_page parent) x = entry (vm_mem s) (addr_page parent) x"
  using clone_cow_result(3,4) [OF assms(1-5) x] sw
  by (auto simp: swap_is_entry_def child_entry_def parent_entry_def)

theorem clone_loses_swapped_witness:
  "\<exists>child s'. vmm_clone_cow demo_vm (page_addr 1) [] = (child, s') \<and> child \<noteq> 0
     \<and> swap_is_entry (entry (vm_mem demo_vm) 1 (0, 0, 0, 0))
     \<and> entry (vm_mem s') (addr_page child) (0, 0, 0, 0) = 0"
proof -
  have a: "addr_page (page_addr 1) = 1" by simp
  obtain child s' where c: "vmm_clone_cow demo_vm (page_addr 1) [] = (child, s')" "child \<noteq> 0"
    by (rule demo_clone)
  have u: "uidx (0, 0, 0, 0)" by (simp add: uidx_def)
  have "entry (vm_mem demo_vm) 1 (0, 0, 0, 0) = swap_pte 5"
    unfolding entry_walk [OF u] demo_vm_def vm.select_convs
    by (subst walk_demo) (simp_all add: upath_def demo_mem_def)
  then have sw: "swap_is_entry (entry (vm_mem demo_vm) 1 (0, 0, 0, 0))"
    using swap_pte_entry [of 5] by (simp add: SWAP_NUM_PAGES_def)
  then have "entry (vm_mem s') (addr_page child) (0, 0, 0, 0) = 0"
    using clone_loses_swapped [OF demo_vm_ok, of "page_addr 1" "[]", unfolded a, OF _ demo_no_huge c u]
    by blast
  with c sw show ?thesis by blast
qed

end
