(* ===== verification/Kheap.thy ===== *)
theory Kheap
  imports User_Pages
begin

text \<open>The kernel heap, src/kernel/src/mm/kheap.c: a first-fit allocator over an address-ordered doubly
linked list of block headers. Memory is seen by type: the headers at the addresses where the code
writes them, and the bytes of the payload areas. Addresses are machine words and 0 is the null
pointer. The heap grows by pages of the page allocator that are mapped into the kernel's page tables
(the x86_64 branch). None stands for an access outside the tables of the page allocator or for a walk
along the list that does not end; the lemmas show that neither happens.\<close>

section \<open>State and operations\<close>

definition ALIGNMENT :: u64 where "ALIGNMENT = 16"
definition HEADER_SIZE :: u64 where "HEADER_SIZE = 32"
definition KHEAP_START :: u64 where "KHEAP_START = 0xFFFFFFFF90000000"
definition KHEAP_MAX :: u64 where "KHEAP_MAX = 1024 * 1024 * 1024"

record block_header =
  bh_size :: u64
  bh_free :: bool
  bh_next :: u64
  bh_prev :: u64

record kheap =
  kh_mem :: "u64 \<Rightarrow> block_header"
  kh_data :: "u64 \<Rightarrow> u8"
  kh_head :: u64
  kh_end :: u64
  kh_vm :: vm

definition align_up :: "u64 \<Rightarrow> u64 \<Rightarrow> u64" where
  "align_up v a = (v + a - 1) AND NOT (a - 1)"

definition heap_memcpy :: "u64 \<Rightarrow> u64 \<Rightarrow> nat \<Rightarrow> (u64 \<Rightarrow> u8) \<Rightarrow> u64 \<Rightarrow> u8" where
  "heap_memcpy dst src n d = fold (\<lambda>i d. d(dst + word_of_nat i := d (src + word_of_nat i))) [0..<n] d"

fun expand_pages :: "nat \<Rightarrow> kheap \<Rightarrow> (bool \<times> kheap) option" where
  "expand_pages 0 h = Some (True, h)"
| "expand_pages (Suc n) h =
     (case pmm_alloc_page (vm_pmm (kh_vm h)) of (phys, pm) \<Rightarrow>
        if phys = 0 then Some (False, h\<lparr>kh_vm := (kh_vm h)\<lparr>vm_pmm := pm\<rparr>\<rparr>)
        else case vmm_map_page ((kh_vm h)\<lparr>vm_pmm := pm\<rparr>) (kh_end h) phys (PTE_WRITABLE OR PTE_NX) of
          (Inl _, v) \<Rightarrow> map_option (\<lambda>v'. (False, h\<lparr>kh_vm := v'\<rparr>)) (vm_free_page phys v)
        | (Inr _, v) \<Rightarrow> expand_pages n (h\<lparr>kh_vm := v, kh_end := kh_end h + 4096\<rparr>))"

partial_function (option) heap_tail :: "(u64 \<Rightarrow> block_header) \<Rightarrow> u64 \<Rightarrow> u64 option" where
  "heap_tail mem p = (if bh_next (mem p) = 0 then Some p else heap_tail mem (bh_next (mem p)))"

definition heap_expand :: "u64 \<Rightarrow> kheap \<Rightarrow> (u64 \<times> kheap) option" where
  "heap_expand min_size h =
     (let pages = (min_size + 4096 - 1) div 4096; start = kh_end h; total_new = pages * 4096 in
      if KHEAP_START + KHEAP_MAX < start + total_new then Some (0, h)
      else case expand_pages (unat pages) h of
        None \<Rightarrow> None
      | Some (False, h1) \<Rightarrow> Some (0, h1)
      | Some (True, h1) \<Rightarrow>
          case (if kh_head h1 = 0 then Some 0 else heap_tail (kh_mem h1) (kh_head h1)) of
            None \<Rightarrow> None
          | Some tail \<Rightarrow>
              let mem = kh_mem h1; t = mem tail in
              if tail \<noteq> 0 \<and> bh_free t \<and> tail + bh_size t = start
              then Some (tail, h1\<lparr>kh_mem := mem(tail := t\<lparr>bh_size := bh_size t + total_new\<rparr>)\<rparr>)
              else let mem1 = mem(start := \<lparr>bh_size = total_new, bh_free = True, bh_next = 0, bh_prev = tail\<rparr>);
                       mem2 = (if tail \<noteq> 0 then mem1(tail := (mem1 tail)\<lparr>bh_next := start\<rparr>) else mem1)
                   in Some (start, h1\<lparr>kh_mem := mem2\<rparr>))"

text \<open>kheap_init panics if the first expansion fails; the flag is False then.\<close>

definition kheap_init :: "kheap \<Rightarrow> (bool \<times> kheap) option" where
  "kheap_init h =
     (case heap_expand 4096 (h\<lparr>kh_end := KHEAP_START, kh_head := 0\<rparr>) of
        None \<Rightarrow> None
      | Some (first, h1) \<Rightarrow> if first = 0 then Some (False, h1) else Some (True, h1\<lparr>kh_head := first\<rparr>))"

partial_function (option) first_fit :: "(u64 \<Rightarrow> block_header) \<Rightarrow> u64 \<Rightarrow> u64 \<Rightarrow> u64 option" where
  "first_fit mem need b =
     (if b = 0 then Some 0
      else if bh_free (mem b) \<and> need \<le> bh_size (mem b) then Some b
      else first_fit mem need (bh_next (mem b)))"

definition take_block :: "u64 \<Rightarrow> u64 \<Rightarrow> (u64 \<Rightarrow> block_header) \<Rightarrow> u64 \<Rightarrow> block_header" where
  "take_block block need mem =
     (let remainder = bh_size (mem block) - need;
          mem' = (if HEADER_SIZE + ALIGNMENT \<le> remainder then
             let split = block + need;
                 nxt = bh_next (mem block);
                 m1 = mem(split := \<lparr>bh_size = remainder, bh_free = True, bh_next = nxt, bh_prev = block\<rparr>);
                 m2 = (if nxt \<noteq> 0 then m1(nxt := (m1 nxt)\<lparr>bh_prev := split\<rparr>) else m1)
             in m2(block := (m2 block)\<lparr>bh_next := split, bh_size := need\<rparr>)
           else mem)
      in mem'(block := (mem' block)\<lparr>bh_free := False\<rparr>))"

definition total_needed :: "u64 \<Rightarrow> u64" where
  "total_needed sz =
     (let t = align_up (sz + HEADER_SIZE) ALIGNMENT in
      if t < HEADER_SIZE + ALIGNMENT then HEADER_SIZE + ALIGNMENT else t)"

definition kmalloc :: "u64 \<Rightarrow> kheap \<Rightarrow> (u64 \<times> kheap) option" where
  "kmalloc sz h =
     (if sz = 0 then Some (0, h)
      else let need = total_needed sz in
      case first_fit (kh_mem h) need (kh_head h) of None \<Rightarrow> None | Some b \<Rightarrow>
        if b \<noteq> 0 then Some (b + HEADER_SIZE, h\<lparr>kh_mem := take_block b need (kh_mem h)\<rparr>)
        else case heap_expand need h of None \<Rightarrow> None | Some (nb, h1) \<Rightarrow>
          if nb = 0 then Some (0, h1)
          else let h2 = (if kh_head h1 = 0 then h1\<lparr>kh_head := nb\<rparr> else h1) in
          case first_fit (kh_mem h2) need (kh_head h2) of None \<Rightarrow> None | Some b \<Rightarrow>
            if b \<noteq> 0 then Some (b + HEADER_SIZE, h2\<lparr>kh_mem := take_block b need (kh_mem h2)\<rparr>)
            else Some (0, h2))"

definition merge_next :: "u64 \<Rightarrow> (u64 \<Rightarrow> block_header) \<Rightarrow> u64 \<Rightarrow> block_header" where
  "merge_next block mem =
     (let n = bh_next (mem block) in
      if n \<noteq> 0 \<and> bh_free (mem n) then
        let m1 = mem(block := (mem block)\<lparr>bh_size := bh_size (mem block) + bh_size (mem n), bh_next := bh_next (mem n)\<rparr>);
            nn = bh_next (m1 block)
        in if nn \<noteq> 0 then m1(nn := (m1 nn)\<lparr>bh_prev := block\<rparr>) else m1
      else mem)"

definition merge_prev :: "u64 \<Rightarrow> (u64 \<Rightarrow> block_header) \<Rightarrow> u64 \<Rightarrow> block_header" where
  "merge_prev block mem =
     (let p = bh_prev (mem block) in
      if p \<noteq> 0 \<and> bh_free (mem p) then
        let m1 = mem(p := (mem p)\<lparr>bh_size := bh_size (mem p) + bh_size (mem block), bh_next := bh_next (mem block)\<rparr>);
            n = bh_next (m1 block)
        in if n \<noteq> 0 then m1(n := (m1 n)\<lparr>bh_prev := bh_prev (m1 block)\<rparr>) else m1
      else mem)"

definition kfree :: "u64 \<Rightarrow> kheap \<Rightarrow> kheap" where
  "kfree ptr h =
     (if ptr = 0 then h
      else let block = ptr - HEADER_SIZE; mem = kh_mem h;
               m1 = mem(block := (mem block)\<lparr>bh_free := True\<rparr>)
           in h\<lparr>kh_mem := merge_prev block (merge_next block m1)\<rparr>)"

definition krealloc :: "u64 \<Rightarrow> u64 \<Rightarrow> kheap \<Rightarrow> (u64 \<times> kheap) option" where
  "krealloc ptr new_size h =
     (if ptr = 0 then kmalloc new_size h
      else if new_size = 0 then Some (0, kfree ptr h)
      else let block = ptr - HEADER_SIZE; total = align_up (new_size + HEADER_SIZE) ALIGNMENT in
        if total \<le> bh_size (kh_mem h block) then Some (ptr, h)
        else case kmalloc new_size h of None \<Rightarrow> None | Some (new_ptr, h1) \<Rightarrow>
          if new_ptr = 0 then Some (0, h1)
          else let c = bh_size (kh_mem h1 block) - HEADER_SIZE;
                   copy_size = (if new_size < c then new_size else c)
               in Some (new_ptr, kfree ptr (h1\<lparr>kh_data := heap_memcpy new_ptr ptr (unat copy_size) (kh_data h1)\<rparr>)))"

section \<open>The list of blocks\<close>

record hblk =
  hb_addr :: u64
  hb_size :: u64
  hb_free :: bool

text \<open>The segment of the list from p up to q that holds the blocks bs, where prev is the block before it.\<close>

primrec seg :: "(u64 \<Rightarrow> block_header) \<Rightarrow> u64 \<Rightarrow> u64 \<Rightarrow> hblk list \<Rightarrow> u64 \<Rightarrow> bool" where
  "seg mem prev p [] q \<longleftrightarrow> p = q"
| "seg mem prev p (b # bs) q \<longleftrightarrow>
     p = hb_addr b \<and> p \<noteq> 0 \<and> bh_size (mem p) = hb_size b \<and> bh_free (mem p) = hb_free b \<and> bh_prev (mem p) = prev
     \<and> seg mem p (bh_next (mem p)) bs q"

definition last_addr :: "u64 \<Rightarrow> hblk list \<Rightarrow> u64" where
  "last_addr prev bs = (if bs = [] then prev else hb_addr (last bs))"

text \<open>The blocks lie one after the other between two addresses, aligned and each large enough for a header
and the smallest payload.\<close>

primrec laid_out :: "nat \<Rightarrow> hblk list \<Rightarrow> nat \<Rightarrow> bool" where
  "laid_out lo [] hi \<longleftrightarrow> lo \<le> hi"
| "laid_out lo (b # bs) hi \<longleftrightarrow>
     lo \<le> unat (hb_addr b) \<and> 16 dvd unat (hb_addr b) \<and> 16 dvd unat (hb_size b) \<and> 48 \<le> unat (hb_size b)
     \<and> laid_out (unat (hb_addr b) + unat (hb_size b)) bs hi"

definition heap_rep :: "kheap \<Rightarrow> hblk list \<Rightarrow> bool" where
  "heap_rep h bs \<longleftrightarrow>
     seg (kh_mem h) 0 (kh_head h) bs 0 \<and> laid_out (unat KHEAP_START) bs (unat (kh_end h))
     \<and> unat (kh_end h) \<le> unat KHEAP_START + unat KHEAP_MAX \<and> 4096 dvd unat (kh_end h) \<and> pmm_ok (vm_pmm (kh_vm h))"

lemma seg_append:
  "seg mem prev p (xs @ ys) q \<longleftrightarrow> (\<exists>r. seg mem prev p xs r \<and> seg mem (last_addr prev xs) r ys q)"
  by (induction xs arbitrary: prev p) (auto simp: last_addr_def)

lemma seg_cong:
  assumes "\<And>a. a \<in> hb_addr ` set bs \<Longrightarrow> mem' a = mem a"
  shows "seg mem' prev p bs q \<longleftrightarrow> seg mem prev p bs q"
  using assms by (induction bs arbitrary: prev p) auto

lemma seg_upd [simp]: "a \<notin> hb_addr ` set bs \<Longrightarrow> seg (mem(a := x)) prev p bs q = seg mem prev p bs q"
  by (rule seg_cong) auto

lemma seg_nonzero: "seg mem prev p bs q \<Longrightarrow> 0 \<notin> hb_addr ` set bs"
  by (induction bs arbitrary: prev p) auto

lemma seg_relink:
  assumes "seg mem prev p bs 0" "distinct (map hb_addr bs)"
  shows "seg (if p \<noteq> 0 then mem(p := (mem p)\<lparr>bh_prev := v\<rparr>) else mem) v p bs 0"
  using assms by (cases bs) auto

lemma seg_next:
  assumes "seg mem prev p bs q"
  shows "p = (if bs = [] then q else hb_addr (hd bs))"
  using assms by (cases bs) auto

lemma heap_tail_seg:
  assumes "seg mem prev p bs 0" "bs \<noteq> []"
  shows "heap_tail mem p = Some (hb_addr (last bs))"
  using assms
proof (induction bs arbitrary: prev p)
  case (Cons b bs)
  then show ?case by (subst heap_tail.simps) (cases bs; auto)
qed simp

abbreviation fits :: "u64 \<Rightarrow> hblk \<Rightarrow> bool" where
  "fits need b \<equiv> hb_free b \<and> need \<le> hb_size b"

lemma first_fit_seg:
  assumes "seg mem prev p bs 0"
  shows "first_fit mem need p = Some (case find (fits need) bs of None \<Rightarrow> 0 | Some b \<Rightarrow> hb_addr b)"
  using assms
proof (induction bs arbitrary: prev p)
  case (Cons b bs)
  then show ?case by (subst first_fit.simps) auto
qed (simp add: first_fit.simps)

lemma laid_out_append:
  "laid_out lo (xs @ ys) hi \<longleftrightarrow> (\<exists>m. laid_out lo xs m \<and> laid_out m ys hi)"
proof (induction xs arbitrary: lo)
  case Nil
  have "laid_out m ys hi \<Longrightarrow> lo \<le> m \<Longrightarrow> laid_out lo ys hi" for m by (cases ys) auto
  then show ?case by auto
qed auto

lemma laid_out_weaken: "laid_out lo bs hi \<Longrightarrow> lo' \<le> lo \<Longrightarrow> hi \<le> hi' \<Longrightarrow> laid_out lo' bs hi'"
  by (induction bs arbitrary: lo lo') auto

lemma laid_out_le: "laid_out lo bs hi \<Longrightarrow> lo \<le> hi"
proof (induction bs arbitrary: lo)
  case (Cons b bs)
  then have "unat (hb_addr b) + unat (hb_size b) \<le> hi" by simp
  then show ?case using Cons.prems by simp
qed simp

lemma laid_out_range:
  assumes "laid_out lo bs hi" "b \<in> set bs"
  shows "lo \<le> unat (hb_addr b) \<and> unat (hb_addr b) + unat (hb_size b) \<le> hi \<and> 16 dvd unat (hb_addr b)
    \<and> 16 dvd unat (hb_size b) \<and> 48 \<le> unat (hb_size b)"
proof -
  obtain xs ys where "bs = xs @ b # ys" using assms(2) by (meson split_list)
  then obtain m where m: "laid_out lo xs m" "laid_out m (b # ys) hi" using assms(1) by (auto simp: laid_out_append)
  then show ?thesis using laid_out_le [OF m(1)] laid_out_le [of "unat (hb_addr b) + unat (hb_size b)" ys hi] by simp
qed

text \<open>Two blocks of the list do not overlap.\<close>

lemma laid_out_disjoint:
  assumes "laid_out lo bs hi" "b \<in> set bs" "c \<in> set bs" "b \<noteq> c"
  shows "unat (hb_addr b) + unat (hb_size b) \<le> unat (hb_addr c) \<or> unat (hb_addr c) + unat (hb_size c) \<le> unat (hb_addr b)"
  using assms
proof (induction bs arbitrary: lo)
  case (Cons d bs)
  have r: "unat (hb_addr d) + unat (hb_size d) \<le> unat (hb_addr e)" if "e \<in> set bs" for e
    using laid_out_range [of "unat (hb_addr d) + unat (hb_size d)" bs hi e] Cons.prems(1) that by simp
  from Cons.prems consider "b = d" "c \<in> set bs" | "c = d" "b \<in> set bs" | "b \<in> set bs" "c \<in> set bs" by auto
  then show ?case
  proof cases
    case 3
    have "laid_out (unat (hb_addr d) + unat (hb_size d)) bs hi" using Cons.prems(1) by simp
    from Cons.IH [OF this 3 \<open>b \<noteq> c\<close>] show ?thesis .
  qed (use r in auto)
qed simp

lemma laid_out_distinct: "laid_out lo bs hi \<Longrightarrow> distinct (map hb_addr bs)"
proof (induction bs arbitrary: lo)
  case (Cons d bs)
  have "hb_addr d \<noteq> hb_addr b" if "b \<in> set bs" for b
    using laid_out_range [of "unat (hb_addr d) + unat (hb_size d)" bs hi b] Cons.prems that by fastforce
  moreover have "laid_out (unat (hb_addr d) + unat (hb_size d)) bs hi" using Cons.prems by simp
  from Cons.IH [OF this] have "distinct (map hb_addr bs)" .
  ultimately show ?case by fastforce
qed simp

section \<open>What the operations do to the list\<close>

definition fit_split :: "u64 \<Rightarrow> hblk \<Rightarrow> hblk list" where
  "fit_split need b =
     (if 48 \<le> hb_size b - need
      then [b\<lparr>hb_size := need, hb_free := False\<rparr>,
            \<lparr>hb_addr = hb_addr b + need, hb_size = hb_size b - need, hb_free = True\<rparr>]
      else [b\<lparr>hb_free := False\<rparr>])"

fun absorb :: "hblk \<Rightarrow> hblk list \<Rightarrow> hblk list" where
  "absorb b [] = [b]"
| "absorb b (y # ys) = (if hb_free y then b\<lparr>hb_size := hb_size b + hb_size y\<rparr> # ys else b # y # ys)"

definition join :: "hblk list \<Rightarrow> hblk list \<Rightarrow> hblk list" where
  "join xs bs =
     (if xs \<noteq> [] \<and> hb_free (last xs)
      then butlast xs @ (last xs)\<lparr>hb_size := hb_size (last xs) + hb_size (hd bs)\<rparr> # tl bs
      else xs @ bs)"

lemma seg_middle:
  assumes "seg mem 0 p (xs @ b # ys) 0"
  shows "seg mem 0 p xs (hb_addr b)" "hb_addr b \<noteq> 0" "bh_size (mem (hb_addr b)) = hb_size b"
    "bh_free (mem (hb_addr b)) = hb_free b" "bh_prev (mem (hb_addr b)) = last_addr 0 xs"
    "seg mem (hb_addr b) (bh_next (mem (hb_addr b))) ys 0"
  using assms by (auto simp: seg_append)

lemma seg_outside:
  assumes "seg mem a n ys 0" "distinct (map hb_addr (xs @ b # ys))" "0 \<notin> hb_addr ` set xs"
  shows "n \<notin> hb_addr ` set xs" "n = 0 \<or> n \<noteq> hb_addr b"
proof -
  have "n = 0 \<or> n \<in> hb_addr ` set ys" using seg_next [OF assms(1)] by (cases ys) auto
  then show "n \<notin> hb_addr ` set xs" "n = 0 \<or> n \<noteq> hb_addr b" using assms(2,3) by (auto simp del: distinct_map)
qed

lemma take_block_seg:
  assumes sg: "seg mem 0 p (xs @ b # ys) 0" and d: "distinct (map hb_addr (xs @ b # ys))"
    and split: "48 \<le> hb_size b - need \<Longrightarrow> hb_addr b + need \<notin> hb_addr ` set (xs @ b # ys)" "hb_addr b + need \<noteq> 0"
  shows "seg (take_block (hb_addr b) need mem) 0 p (xs @ fit_split need b @ ys) 0"
proof -
  let ?a = "hb_addr b" and ?s = "hb_addr b + need" and ?n = "bh_next (mem (hb_addr b))"
  note m = seg_middle [OF sg]
  note o = seg_outside [OF m(6) d seg_nonzero [OF m(1)]]
  have a: "?a \<notin> hb_addr ` set xs" "?a \<notin> hb_addr ` set ys" "distinct (map hb_addr ys)" using d by auto
  show ?thesis
  proof (cases "48 \<le> hb_size b - need")
    case True
    have s: "?s \<notin> hb_addr ` set xs" "?s \<notin> hb_addr ` set ys" "?s \<noteq> ?a" using split(1) [OF True] by auto
    define m1 where "m1 = mem(?s := \<lparr>bh_size = hb_size b - need, bh_free = True, bh_next = ?n, bh_prev = ?a\<rparr>)"
    define m2 where "m2 = (if ?n \<noteq> 0 then m1(?n := (m1 ?n)\<lparr>bh_prev := ?s\<rparr>) else m1)"
    have ns: "?n \<noteq> ?s \<or> ?n = 0" using seg_next [OF m(6)] s(2) by (cases ys) auto
    have "seg m1 ?a ?n ys 0" using m(6) s(2) by (simp add: m1_def)
    then have ys: "seg m2 ?s ?n ys 0" using seg_relink a(3) by (simp add: m2_def)
    have xs: "seg m2 0 p xs ?a" using m(1) s(1) o(1) by (simp add: m2_def m1_def)
    have tb: "take_block ?a need mem = m2(?a := (m2 ?a)\<lparr>bh_next := ?s, bh_size := need, bh_free := False\<rparr>)"
      using True m(3) by (simp add: take_block_def Let_def m2_def m1_def HEADER_SIZE_def ALIGNMENT_def fun_upd_upd)
    have f: "m2 ?a = mem ?a" "m2 ?s = \<lparr>bh_size = hb_size b - need, bh_free = True, bh_next = ?n, bh_prev = ?a\<rparr>"
      using s(3) o(2) ns split(2) by (auto simp: m2_def m1_def)
    show ?thesis using xs ys a s split(2) m(2,5) True
      by (auto simp: seg_append tb f fit_split_def last_addr_def)
  next
    case False
    then have "take_block ?a need mem = mem(?a := (mem ?a)\<lparr>bh_free := False\<rparr>)"
      using m(3) by (simp add: take_block_def Let_def HEADER_SIZE_def ALIGNMENT_def)
    then show ?thesis using m a False by (auto simp: seg_append fit_split_def)
  qed
qed

lemma merge_next_seg:
  assumes sg: "seg mem 0 p (xs @ b # ys) 0" and d: "distinct (map hb_addr (xs @ b # ys))"
  shows "seg (merge_next (hb_addr b) mem) 0 p (xs @ absorb b ys) 0"
proof -
  let ?a = "hb_addr b" and ?n = "bh_next (mem (hb_addr b))"
  note m = seg_middle [OF sg]
  show ?thesis
  proof (cases "\<exists>y zs. ys = y # zs \<and> hb_free y")
    case True
    then obtain y zs where y: "ys = y # zs" "hb_free y" by blast
    let ?nn = "bh_next (mem (hb_addr y))"
    have n: "?n = hb_addr y" "hb_addr y \<noteq> 0" "bh_size (mem (hb_addr y)) = hb_size y" "bh_free (mem (hb_addr y))"
      "seg mem (hb_addr y) ?nn zs 0"
      using m(6) y by auto
    have dd: "distinct (map hb_addr ((xs @ [b]) @ y # zs))" using d y(1) by simp
    have z: "0 \<notin> hb_addr ` set (xs @ [b])" using seg_nonzero [OF m(1)] m(2) by auto
    note o = seg_outside [OF n(5) dd z]
    have a: "?a \<notin> hb_addr ` set xs" "?a \<notin> hb_addr ` set zs" "distinct (map hb_addr zs)" using d y(1) by auto
    define m1 where "m1 = mem(?a := (mem ?a)\<lparr>bh_size := hb_size b + hb_size y, bh_next := ?nn\<rparr>)"
    define m2 where "m2 = (if ?nn \<noteq> 0 then m1(?nn := (m1 ?nn)\<lparr>bh_prev := ?a\<rparr>) else m1)"
    have "merge_next ?a mem = m2"
      using n m(3) by (simp add: merge_next_def Let_def m2_def m1_def)
    moreover have "seg m1 (hb_addr y) ?nn zs 0" using n(5) a(2) by (simp add: m1_def)
    then have "seg m2 ?a ?nn zs 0" using seg_relink a(3) by (simp add: m2_def)
    moreover have "seg m2 0 p xs ?a" using m(1) o(1) a(1) by (simp add: m2_def m1_def)
    moreover have "m2 ?a = (mem ?a)\<lparr>bh_size := hb_size b + hb_size y, bh_next := ?nn\<rparr>"
      using o(1) by (auto simp: m2_def m1_def)
    ultimately show ?thesis using m y by (auto simp: seg_append)
  next
    case False
    then have "absorb b ys = b # ys" by (cases ys) auto
    moreover have "merge_next ?a mem = mem"
      using m(6) False by (cases ys) (auto simp: merge_next_def Let_def)
    ultimately show ?thesis using sg by simp
  qed
qed

lemma merge_prev_seg:
  assumes sg: "seg mem 0 p (xs @ b # ys) 0" and d: "distinct (map hb_addr (xs @ b # ys))"
  shows "seg (merge_prev (hb_addr b) mem) 0 p (join xs (b # ys)) 0"
proof (cases "xs \<noteq> [] \<and> hb_free (last xs)")
  case True
  then obtain us u where u: "xs = us @ [u]" "hb_free u" by (metis append_butlast_last_id)
  have sg': "seg mem 0 p (us @ u # b # ys) 0" using sg u(1) by simp
  let ?a = "hb_addr b" and ?u = "hb_addr u" and ?n = "bh_next (mem (hb_addr b))"
  note m = seg_middle [OF sg] and k = seg_middle [OF sg']
  have z: "0 \<notin> hb_addr ` set xs" by (rule seg_nonzero [OF m(1)])
  note o = seg_outside [OF m(6) d z]
  have a: "?u \<notin> hb_addr ` set us" "?u \<notin> hb_addr ` set ys" "distinct (map hb_addr ys)" "?u \<noteq> ?a" "?a \<notin> hb_addr ` set ys"
    using d u(1) by auto
  have pv: "bh_prev (mem ?a) = ?u" using m(5) u(1) by (simp add: last_addr_def)
  define m1 where "m1 = mem(?u := (mem ?u)\<lparr>bh_size := hb_size u + hb_size b, bh_next := ?n\<rparr>)"
  define m2 where "m2 = (if ?n \<noteq> 0 then m1(?n := (m1 ?n)\<lparr>bh_prev := ?u\<rparr>) else m1)"
  have n: "?n = 0 \<or> ?n \<noteq> ?u" "?n \<notin> hb_addr ` set us" using o(1) u(1) k(2) by auto
  have "merge_prev ?a mem = m2"
    using pv k(2-4) m(3) u(2) a(4) by (simp add: merge_prev_def Let_def m2_def m1_def)
  moreover have "seg m1 ?a ?n ys 0" using m(6) a(2) by (simp add: m1_def)
  then have "seg m2 ?u ?n ys 0" using seg_relink a(3) by (simp add: m2_def)
  moreover have "seg m2 0 p us ?u" using k(1) n(2) a(1) by (simp add: m2_def m1_def)
  moreover have "m2 ?u = (mem ?u)\<lparr>bh_size := hb_size u + hb_size b, bh_next := ?n\<rparr>"
    using n(1) by (auto simp: m2_def m1_def)
  moreover have "join xs (b # ys) = us @ u\<lparr>hb_size := hb_size u + hb_size b\<rparr> # ys" using u by (simp add: join_def)
  ultimately show ?thesis using k by (auto simp: seg_append)
next
  case False
  then have "merge_prev (hb_addr b) mem = mem"
    using seg_middle(5) [OF sg] seg_middle(1) [OF sg]
    by (cases xs rule: rev_cases) (auto simp: merge_prev_def Let_def last_addr_def seg_append)
  then show ?thesis using sg False by (auto simp: join_def)
qed

section \<open>Growing the heap\<close>

text \<open>What mapping a page does to the page allocator: pages are taken, nothing else changes.\<close>

definition takes_pages :: "pmm \<Rightarrow> pmm \<Rightarrow> bool" where
  "takes_pages m m' \<longleftrightarrow> pmm_ok m' \<and> pm_total m' = pm_total m \<and> free_set m' \<subseteq> free_set m
     \<and> (\<forall>q. q \<notin> free_set m \<longrightarrow> pm_refs m' ! q = pm_refs m ! q)"

lemma takes_refl: "pmm_ok m \<Longrightarrow> takes_pages m m"
  by (simp add: takes_pages_def)

lemma takes_trans: "takes_pages m m' \<Longrightarrow> takes_pages m' m'' \<Longrightarrow> takes_pages m m''"
  by (fastforce simp: takes_pages_def)

lemma takes_ok: "takes_pages m m' \<Longrightarrow> pmm_ok m'"
  by (simp add: takes_pages_def)

lemma takes_keeps:
  assumes "takes_pages m m'" "q \<notin> free_set m"
  shows "q \<notin> free_set m'" "pm_refs m' ! q = pm_refs m ! q" "pm_total m' = pm_total m"
  using assms unfolding takes_pages_def by blast+

lemma get_or_create_takes:
  assumes "pmm_ok (vm_pmm s)"
  shows "takes_pages (vm_pmm s) (vm_pmm (snd (get_or_create_table s t i c)))"
  using assms
proof (cases rule: alloc_page_spec)
  case none
  then show ?thesis using takes_refl [OF assms] by (simp add: get_or_create_table_def Let_def)
next
  case (page p m')
  have "pm_refs m' ! q = pm_refs (vm_pmm s) ! q" if "q \<notin> free_set (vm_pmm s)" for q
    using page(3,7) that by (metis nth_list_update_neq)
  then have "takes_pages (vm_pmm s) m'" unfolding takes_pages_def using page(4-6) by blast
  then show ?thesis using page(1,2) takes_refl [OF assms] by (simp add: get_or_create_table_def Let_def)
qed

lemma vmm_map_page_takes:
  assumes ok: "pmm_ok (vm_pmm s)"
  shows "takes_pages (vm_pmm s) (vm_pmm (snd (vmm_map_page s va phys fl)))"
proof -
  obtain r1 s1 where 1: "get_or_create_table s (addr_page (vm_kpml4 s)) (PML4_INDEX va) True = (r1, s1)" by fastforce
  obtain r2 s2 where 2: "get_or_create_table s1 (the r1) (PDPT_INDEX va) True = (r2, s2)" by fastforce
  obtain r3 s3 where 3: "get_or_create_table s2 (the r2) (PD_INDEX va) True = (r3, s3)" by fastforce
  have t1: "takes_pages (vm_pmm s) (vm_pmm s1)" using get_or_create_takes [OF ok] 1 by (metis snd_conv)
  from get_or_create_takes [OF takes_ok [OF t1]] 2 have u2: "takes_pages (vm_pmm s1) (vm_pmm s2)" by (metis snd_conv)
  have t2: "takes_pages (vm_pmm s) (vm_pmm s2)" by (rule takes_trans [OF t1 u2])
  from get_or_create_takes [OF takes_ok [OF u2]] 3 have "takes_pages (vm_pmm s2) (vm_pmm s3)" by (metis snd_conv)
  then have "takes_pages (vm_pmm s) (vm_pmm s3)" by (rule takes_trans [OF t2])
  then show ?thesis using 1 2 3 t1 t2
    by (cases r1; cases r2; cases r3) (simp_all add: vmm_map_page_def)
qed

lemma expand_pages_spec:
  assumes "pmm_ok (vm_pmm (kh_vm h))"
  obtains r k v where "expand_pages n h = Some (r, h\<lparr>kh_vm := v, kh_end := kh_end h + word_of_nat k * 4096\<rparr>)"
    "pmm_ok (vm_pmm v)" "k \<le> n" "r \<longrightarrow> k = n"
proof -
  have "\<exists>r k v. expand_pages n h = Some (r, h\<lparr>kh_vm := v, kh_end := kh_end h + word_of_nat k * 4096\<rparr>)
    \<and> pmm_ok (vm_pmm v) \<and> k \<le> n \<and> (r \<longrightarrow> k = n)"
    using assms
  proof (induction n arbitrary: h)
    case 0
    have "expand_pages 0 h = Some (True, h\<lparr>kh_vm := kh_vm h, kh_end := kh_end h + word_of_nat 0 * 4096\<rparr>)" by simp
    then show ?case using 0 by (intro exI conjI) (assumption, simp_all)
  next
    case (Suc n)
    let ?v = "kh_vm h"
    show ?case using Suc.prems
    proof (cases rule: alloc_page_spec)
      case none
      then have "expand_pages (Suc n) h = Some (False, h\<lparr>kh_vm := ?v, kh_end := kh_end h + word_of_nat 0 * 4096\<rparr>)" by simp
      then show ?thesis using Suc.prems by (intro exI conjI) (assumption, simp_all)
    next
      case (page p m)
      obtain r v where mp: "vmm_map_page (?v\<lparr>vm_pmm := m\<rparr>) (kh_end h) (page_addr p) (PTE_WRITABLE OR PTE_NX) = (r, v)"
        by fastforce
      have tk: "takes_pages m (vm_pmm v)"
        using vmm_map_page_takes [of "?v\<lparr>vm_pmm := m\<rparr>" "kh_end h" "page_addr p" "PTE_WRITABLE OR PTE_NX"] mp page(4) by simp
      note vok = takes_ok [OF tk]
      show ?thesis
      proof (cases r)
        case (Inl e)
        have pb: "0 < p" "p < pm_total (vm_pmm ?v)" using free_set_pos [OF Suc.prems page(3)] by auto
        have "p \<notin> free_set m" using page(6) by blast
        note q = takes_keeps [OF tk this]
        have "p < length (pm_refs (vm_pmm ?v))" using pb(2) Suc.prems by (simp add: pmm_ok_def)
        then have q1: "pm_refs (vm_pmm v) ! p = 1" using q(2) page(7) by simp
        have pt: "p < pm_total (vm_pmm v)" using pb(2) q(3) page(5) by simp
        obtain m' where m': "pmm_free_page (vm_pmm v) (page_addr p) = Some m'" "pmm_ok m'"
          by (rule free_page_release [OF vok pb(1) pt q(1) q1])
        have "expand_pages (Suc n) h = Some (False, h\<lparr>kh_vm := v\<lparr>vm_pmm := m'\<rparr>, kh_end := kh_end h + word_of_nat 0 * 4096\<rparr>)"
          using page mp Inl m'(1) by (simp add: vm_free_page_def)
        then show ?thesis using m'(2) by (intro exI conjI) (assumption, simp_all)
      next
        case (Inr u)
        let ?h = "h\<lparr>kh_vm := v, kh_end := kh_end h + 4096\<rparr>"
        obtain r' k w where ih: "expand_pages n ?h = Some (r', ?h\<lparr>kh_vm := w, kh_end := kh_end ?h + word_of_nat k * 4096\<rparr>)"
          "pmm_ok (vm_pmm w)" "k \<le> n" "r' \<longrightarrow> k = n"
          using Suc.IH [of ?h] vok by auto
        have "expand_pages (Suc n) h = Some (r', h\<lparr>kh_vm := w, kh_end := kh_end h + word_of_nat (Suc k) * 4096\<rparr>)"
          using page mp Inr ih(1) by (simp add: algebra_simps)
        then show ?thesis using ih(2-4) by (intro exI conjI) (assumption, simp_all)
      qed
    qed
  qed
  then show ?thesis using that by blast
qed

section \<open>Sizes and addresses\<close>

text \<open>The largest request for which no address computation of the heap wraps around, whatever the heap's
size: the sum of the limit of the heap and a larger request exceeds the address space.\<close>

definition request_max :: u64 where "request_max = 0x2FFFE000"

lemma kheap_consts [simp]:
  "unat KHEAP_START = 18446744071830503424" "unat KHEAP_MAX = 1073741824" "unat request_max = 805298176"
  by (simp_all add: KHEAP_START_def KHEAP_MAX_def request_max_def)

lemma unat_less [simp]: "unat (w :: u64) < 18446744073709551616"
  using unsigned_less [of w] by simp

lemma unat_add_64: "unat (a :: u64) + unat b < 18446744073709551616 \<Longrightarrow> unat (a + b) = unat a + unat b"
  by (simp add: unat_word_ariths)

lemma unat_sub_64: "unat (b :: u64) \<le> unat a \<Longrightarrow> unat (a - b) = unat a - unat b"
  by (simp add: unat_sub word_le_nat_alt)

lemma unat_pages: "unat (a :: u64) * 4096 < 18446744073709551616 \<Longrightarrow> unat (a * 4096) = unat a * 4096"
  by (simp add: unat_word_ariths)

lemma unat_align16:
  assumes "unat v + 15 < 18446744073709551616"
  shows "unat (align_up v 16) = 16 * ((unat v + 15) div 16)"
proof -
  have "align_up v 16 = (v + 15) AND NOT (mask 4)"
    by (simp add: align_up_def mask_eq_exp_minus_1 algebra_simps)
  also have "\<dots> = push_bit 4 (drop_bit 4 (v + 15))"
    by (rule bit_word_eqI) (auto simp: bit_simps)
  finally have e: "align_up v 16 = push_bit 4 (drop_bit 4 (v + 15))" .
  have u: "unat (v + 15) = unat v + 15" using unat_add_64 [of v 15] assms by simp
  have d: "unat (drop_bit 4 (v + 15)) = (unat v + 15) div 16" using u by (simp add: drop_bit_eq_div unat_div)
  have "unat (push_bit 4 (drop_bit 4 (v + 15))) = take_bit 64 (push_bit 4 (unat (drop_bit 4 (v + 15))))"
    by (simp add: unsigned_push_bit_eq)
  also have "\<dots> = 16 * ((unat v + 15) div 16)"
    unfolding d using assms by (simp add: push_bit_eq_mult take_bit_eq_mod mult.commute)
  finally show ?thesis using e by simp
qed

lemma total_needed_spec:
  assumes "sz \<le> request_max"
  shows "unat sz + 32 \<le> unat (total_needed sz)" "16 dvd unat (total_needed sz)" "48 \<le> unat (total_needed sz)"
    "unat (total_needed sz) \<le> unat sz + 48"
proof -
  have s: "unat sz \<le> 805298176" using assms by (simp add: word_le_nat_alt)
  have h: "unat (sz + HEADER_SIZE) = unat sz + 32" using unat_add_64 [of sz 32] s by (simp add: HEADER_SIZE_def)
  define t where "t = align_up (sz + HEADER_SIZE) ALIGNMENT"
  have t: "unat t = 16 * ((unat sz + 47) div 16)"
    using unat_align16 [of "sz + HEADER_SIZE"] h s by (simp add: t_def ALIGNMENT_def)
  have e: "total_needed sz = (if t < 48 then 48 else t)"
    by (simp add: total_needed_def Let_def t_def HEADER_SIZE_def ALIGNMENT_def)
  have "t < 48 \<longleftrightarrow> unat t < 48" by (simp add: word_less_nat_alt)
  then show "unat sz + 32 \<le> unat (total_needed sz)" "16 dvd unat (total_needed sz)" "48 \<le> unat (total_needed sz)"
    "unat (total_needed sz) \<le> unat sz + 48"
    using t by (auto simp: e)
qed

abbreviation in_use :: "hblk list \<Rightarrow> hblk list" where
  "in_use bs \<equiv> filter (\<lambda>b. \<not> hb_free b) bs"

lemma laid_out_split:
  assumes "laid_out lo (xs @ b # ys) hi" "hi < 18446744073709551616" "need \<le> hb_size b" "16 dvd unat need" "48 \<le> unat need"
  shows "laid_out lo (xs @ fit_split need b @ ys) hi"
proof -
  obtain m where m: "laid_out lo xs m" "laid_out m (b # ys) hi" using assms(1) by (auto simp: laid_out_append)
  have r: "unat (hb_addr b) + unat (hb_size b) < 18446744073709551616"
    using laid_out_range [OF assms(1), of b] assms(2) by simp
  have n: "unat need \<le> unat (hb_size b)" using assms(3) by (simp add: word_le_nat_alt)
  have a: "unat (hb_addr b + need) = unat (hb_addr b) + unat need" using r n by (intro unat_add_64) linarith
  have s: "unat (hb_size b - need) = unat (hb_size b) - unat need" using n by (rule unat_sub_64)
  have "48 \<le> hb_size b - need \<longleftrightarrow> 48 \<le> unat (hb_size b) - unat need" by (simp add: word_le_nat_alt s)
  then have "laid_out m (fit_split need b @ ys) hi"
    using m(2) assms(4,5) n a s by (auto simp: fit_split_def)
  then show ?thesis using m(1) by (auto simp: laid_out_append)
qed

lemma laid_out_absorb:
  assumes "laid_out lo (b # ys) hi" "hi < 18446744073709551616"
  shows "laid_out lo (absorb b ys) hi"
proof (cases ys)
  case (Cons y zs)
  have "unat (hb_addr y) + unat (hb_size y) \<le> hi" using laid_out_range [OF assms(1), of y] Cons by simp
  then have "unat (hb_size b + hb_size y) = unat (hb_size b) + unat (hb_size y)"
    using assms Cons by (intro unat_add_64) simp
  then show ?thesis using assms(1) Cons by (auto elim: laid_out_weaken)
qed (use assms in simp)

lemma laid_out_join:
  assumes "laid_out lo (xs @ b # ys) hi" "hi < 18446744073709551616"
  shows "laid_out lo (join xs (b # ys)) hi"
proof (cases "xs \<noteq> [] \<and> hb_free (last xs)")
  case True
  then obtain us u where u: "xs = us @ [u]" "hb_free u" by (metis append_butlast_last_id)
  then obtain m where m: "laid_out lo us m" "laid_out m (u # b # ys) hi" using assms(1) by (auto simp: laid_out_append)
  from laid_out_absorb [of m u "b\<lparr>hb_free := True\<rparr> # ys" hi] m(2) assms(2)
  have "laid_out m (u\<lparr>hb_size := hb_size u + hb_size b\<rparr> # ys) hi" by simp
  then show ?thesis using m(1) u by (auto simp: join_def laid_out_append)
qed (use assms(1) in \<open>auto simp: join_def\<close>)

section \<open>Allocation\<close>

lemma heap_rep_bounds:
  assumes "heap_rep h bs"
  shows "18446744071830503424 \<le> unat (kh_end h)" "unat (kh_end h) \<le> 18446744072904245248" "16 dvd unat (kh_end h)"
    "laid_out 18446744071830503424 bs (unat (kh_end h))"
proof -
  have "laid_out 18446744071830503424 bs (unat (kh_end h))" "unat (kh_end h) \<le> 18446744072904245248" "4096 dvd unat (kh_end h)"
    using assms by (simp_all add: heap_rep_def)
  moreover from this(3) have "16 dvd unat (kh_end h)" by (rule dvd_trans [rotated]) simp
  ultimately show "18446744071830503424 \<le> unat (kh_end h)" "unat (kh_end h) \<le> 18446744072904245248" "16 dvd unat (kh_end h)"
    "laid_out 18446744071830503424 bs (unat (kh_end h))"
    using laid_out_le by blast+
qed

lemma grow_tail:
  assumes sg: "seg mem 0 p (us @ [u]) 0" and lo: "laid_out lo (us @ [u]) (unat start)"
    and sz: "unat start + unat n < 18446744073709551616" "16 dvd unat n" and adj: "hb_addr u + hb_size u = start"
  defines "u' \<equiv> u\<lparr>hb_size := hb_size u + n\<rparr>"
  shows "seg (mem(hb_addr u := (mem (hb_addr u))\<lparr>bh_size := bh_size (mem (hb_addr u)) + n\<rparr>)) 0 p (us @ [u']) 0"
    and "laid_out lo (us @ [u']) (unat start + unat n)" and "n \<le> hb_size u'"
proof -
  note m = seg_middle [OF sg]
  have d: "hb_addr u \<notin> hb_addr ` set us" using laid_out_distinct [OF lo] by auto
  then show "seg (mem(hb_addr u := (mem (hb_addr u))\<lparr>bh_size := bh_size (mem (hb_addr u)) + n\<rparr>)) 0 p (us @ [u']) 0"
    using m by (auto simp: seg_append u'_def)
  obtain k where k: "laid_out lo us k" "laid_out k [u] (unat start)" using lo by (auto simp: laid_out_append)
  have s: "unat (hb_size u + n) = unat (hb_size u) + unat n" using k(2) sz(1) by (intro unat_add_64) simp
  show "laid_out lo (us @ [u']) (unat start + unat n)"
    using k s sz(2) by (auto simp: laid_out_append u'_def)
  show "n \<le> hb_size u'" using s by (simp add: word_le_nat_alt u'_def)
qed

lemma grow_new:
  assumes sg: "seg mem 0 p bs 0" and lo: "laid_out lo bs (unat start)" "start \<noteq> 0" "16 dvd unat start"
    and sz: "16 dvd unat n" "48 \<le> unat n"
  defines "nb \<equiv> \<lparr>hb_addr = start, hb_size = n, hb_free = True\<rparr>" and "t \<equiv> last_addr 0 bs"
    and "mem1 \<equiv> mem(start := \<lparr>bh_size = n, bh_free = True, bh_next = 0, bh_prev = last_addr 0 bs\<rparr>)"
  shows "seg (if t \<noteq> 0 then mem1(t := (mem1 t)\<lparr>bh_next := start\<rparr>) else mem1) 0 (if p = 0 then start else p) (bs @ [nb]) 0"
    and "laid_out lo (bs @ [nb]) (unat start + unat n)"
proof -
  show l: "laid_out lo (bs @ [nb]) (unat start + unat n)"
    using lo sz by (auto simp: laid_out_append nb_def)
  then have f: "start \<notin> hb_addr ` set bs" "distinct (map hb_addr bs)" using laid_out_distinct by (fastforce simp: nb_def)+
  show "seg (if t \<noteq> 0 then mem1(t := (mem1 t)\<lparr>bh_next := start\<rparr>) else mem1) 0 (if p = 0 then start else p) (bs @ [nb]) 0"
  proof (cases bs rule: rev_cases)
    case Nil
    then show ?thesis using sg lo(2) by (simp add: t_def mem1_def nb_def last_addr_def)
  next
    case (snoc us u)
    note m = seg_middle [of mem p us u "[]"]
    have sg': "seg mem 0 p (us @ [u]) 0" using sg snoc by simp
    have p: "p \<noteq> 0" using sg snoc by (cases us) auto
    have t: "t = hb_addr u" "t \<noteq> 0" using snoc m(2) [OF sg'] by (simp_all add: t_def last_addr_def)
    show ?thesis using m [OF sg'] f snoc t lo(2) p by (auto simp: seg_append mem1_def nb_def last_addr_def)
  qed
qed

lemma page_count:
  fixes mn :: u64
  assumes mn: "0 < unat mn" "unat mn \<le> 805298224"
  defines "pages \<equiv> (4095 + mn) div 4096"
  shows "unat pages = (unat mn + 4095) div 4096" "unat (pages * 4096) = unat pages * 4096"
    "unat mn \<le> unat (pages * 4096)" "unat (pages * 4096) \<le> 805302319" "48 \<le> unat (pages * 4096)" "16 dvd unat (pages * 4096)"
proof -
  have "unat (4095 + mn) = unat mn + 4095" using unat_add_64 [of 4095 mn] mn by simp
  then show pg: "unat pages = (unat mn + 4095) div 4096" by (simp add: pages_def unat_div)
  show un: "unat (pages * 4096) = unat pages * 4096" by (rule unat_pages) (use pg mn in linarith)
  have "1 \<le> unat pages" using pg mn(1) by linarith
  then show "48 \<le> unat (pages * 4096)" using un by linarith
  show "unat mn \<le> unat (pages * 4096)" "unat (pages * 4096) \<le> 805302319" using un pg mn by linarith+
  show "16 dvd unat (pages * 4096)" using un by simp
qed

lemma heap_expand_spec:
  assumes rep: "heap_rep h bs" and mn: "0 < unat mn" "unat mn \<le> 805298224"
  obtains (full) h1 where "heap_expand mn h = Some (0, h1)" "heap_rep h1 bs" "kh_data h1 = kh_data h"
  | (grown) r h1 bs1 where "heap_expand mn h = Some (r, h1)" "r \<noteq> 0" "kh_data h1 = kh_data h"
      "heap_rep (if kh_head h1 = 0 then h1\<lparr>kh_head := r\<rparr> else h1) bs1" "in_use bs1 = in_use bs"
      "list_ex (fits mn) bs1" "kh_head h1 = kh_head h"
proof -
  let ?start = "kh_end h"
  define pages where "pages = (4095 + mn) div 4096"
  have pd: "(4095 + mn) div 4096 = pages" by (simp add: pages_def)
  define n where "n = pages * 4096"
  have pg: "unat pages = (unat mn + 4095) div 4096" and un: "unat n = unat pages * 4096"
    and nb: "unat mn \<le> unat n" "unat n \<le> 805302319" "48 \<le> unat n" "16 dvd unat n"
    unfolding n_def pages_def by (rule page_count [OF mn])+
  note b = heap_rep_bounds [OF rep]
  have sg: "seg (kh_mem h) 0 (kh_head h) bs 0" and pok: "pmm_ok (vm_pmm (kh_vm h))" and al: "4096 dvd unat ?start"
    using rep by (simp_all add: heap_rep_def)
  have us: "unat (?start + n) = unat ?start + unat n" using b(2) nb(2) by (intro unat_add_64) linarith
  have lim: "KHEAP_START + KHEAP_MAX < ?start + n \<longleftrightarrow> 18446744072904245248 < unat ?start + unat n"
    unfolding word_less_nat_alt us by (simp add: KHEAP_START_def KHEAP_MAX_def)
  obtain r k v where ex: "expand_pages (unat pages) h = Some (r, h\<lparr>kh_vm := v, kh_end := ?start + word_of_nat k * 4096\<rparr>)"
    "pmm_ok (vm_pmm v)" "k \<le> unat pages" "r \<longrightarrow> k = unat pages"
    by (rule expand_pages_spec [OF pok])
  have kn: "unat (word_of_nat k :: u64) = k"
  proof -
    have "k < 18446744073709551616" using ex(3) pg mn by linarith
    then show ?thesis by (simp add: unat_of_nat take_bit_nat_eq_self)
  qed
  then have uk: "unat (?start + word_of_nat k * 4096) = unat ?start + k * 4096"
  proof -
    have c: "unat (word_of_nat k * 4096 :: u64) = k * 4096" using unat_pages [of "word_of_nat k"] kn ex(3) un nb(2) by simp
    show ?thesis using unat_add_64 [of ?start "word_of_nat k * 4096"] c ex(3) un nb(2) b(2) by simp
  qed
  consider "18446744072904245248 < unat ?start + unat n" | "\<not> 18446744072904245248 < unat ?start + unat n" "\<not> r"
    | "\<not> 18446744072904245248 < unat ?start + unat n" r by blast
  then show ?thesis
  proof cases
    case 1
    then have "heap_expand mn h = Some (0, h)" using lim by (simp add: heap_expand_def Let_def pd n_def [symmetric])
    then show ?thesis using full rep by blast
  next
    case 2
    let ?h = "h\<lparr>kh_vm := v, kh_end := ?start + word_of_nat k * 4096\<rparr>"
    have "heap_expand mn h = Some (0, ?h)"
      using 2 lim ex(1) by (simp add: heap_expand_def Let_def pd n_def [symmetric])
    moreover have "heap_rep ?h bs"
      using sg b(4) uk ex(2,3) 2(1) un al by (auto simp: heap_rep_def elim!: laid_out_weaken intro: dvd_add)
    ultimately show ?thesis using full by simp
  next
    case 3
    let ?h = "h\<lparr>kh_vm := v, kh_end := ?start + n\<rparr>"
    have kp: "word_of_nat k * 4096 = n" using ex(4) 3(2) by (simp add: n_def)
    have ex': "expand_pages (unat pages) h = Some (True, ?h)" using ex(1) 3(2) kp by simp
    let ?t = "last_addr 0 bs" and ?mem = "kh_mem h"
    have tl: "(if kh_head h = 0 then Some 0 else heap_tail ?mem (kh_head h)) = Some ?t"
      using heap_tail_seg [OF sg] sg by (cases bs) (auto simp: last_addr_def)
    show ?thesis
    proof (cases "?t \<noteq> 0 \<and> bh_free (?mem ?t) \<and> ?t + bh_size (?mem ?t) = ?start")
      case True
      then obtain us u where u: "bs = us @ [u]" "?t = hb_addr u" by (cases bs rule: rev_cases) (auto simp: last_addr_def)
      have sg': "seg ?mem 0 (kh_head h) (us @ [u]) 0" and lo: "laid_out 18446744071830503424 (us @ [u]) (unat ?start)"
        using sg b(4) u(1) by simp_all
      note m = seg_middle [OF sg']
      have fr: "hb_free u" and adj: "hb_addr u + hb_size u = ?start" using True u(2) m by simp_all
      have ov: "unat ?start + unat n < 18446744073709551616" using b(2) nb(2) by linarith
      note g = grow_tail [OF sg' lo ov nb(4) adj]
      let ?h1 = "?h\<lparr>kh_mem := ?mem(?t := (?mem ?t)\<lparr>bh_size := bh_size (?mem ?t) + n\<rparr>)\<rparr>"
      have run: "heap_expand mn h = Some (?t, ?h1)"
        using 3 lim ex' tl True by (cases "kh_head h = 0") (auto simp: heap_expand_def Let_def pd n_def [symmetric])
      have hd: "kh_head h \<noteq> 0" using sg' by (cases us) auto
      have rep1: "heap_rep ?h1 (us @ [u\<lparr>hb_size := hb_size u + n\<rparr>])"
        using g(1,2) u(2) us 3(1) al ex(2) un by (simp add: heap_rep_def)
      have "list_ex (fits mn) (us @ [u\<lparr>hb_size := hb_size u + n\<rparr>])"
        using fr g(3) nb(1) by (auto simp: word_le_nat_alt intro: order_trans)
      then show ?thesis using grown [OF run, of "us @ [u\<lparr>hb_size := hb_size u + n\<rparr>]"] rep1 hd True u fr by simp
    next
      case False
      have s0: "?start \<noteq> 0" using b(1) by auto
      note g = grow_new [OF sg b(4) s0 b(3) nb(4,3)]
      let ?m1 = "?mem(?start := \<lparr>bh_size = n, bh_free = True, bh_next = 0, bh_prev = ?t\<rparr>)"
      let ?h1 = "?h\<lparr>kh_mem := if ?t \<noteq> 0 then ?m1(?t := (?m1 ?t)\<lparr>bh_next := ?start\<rparr>) else ?m1\<rparr>"
      let ?nb = "\<lparr>hb_addr = ?start, hb_size = n, hb_free = True\<rparr>"
      have run: "heap_expand mn h = Some (?start, ?h1)"
        using 3 lim ex' tl False by (cases "kh_head h = 0") (auto simp: heap_expand_def Let_def pd n_def [symmetric])
      have rep1: "heap_rep (if kh_head ?h1 = 0 then ?h1\<lparr>kh_head := ?start\<rparr> else ?h1) (bs @ [?nb])"
        using g us 3(1) al ex(2) un by (auto simp: heap_rep_def)
      have "list_ex (fits mn) (bs @ [?nb])" using nb(1) by (simp add: word_le_nat_alt)
      then show ?thesis using grown [OF run s0 _ rep1] by simp
    qed
  qed
qed

lemma find_split:
  assumes "find P xs = Some x"
  obtains us vs where "xs = us @ x # vs" "P x"
proof -
  obtain i where "i < length xs" "P (xs ! i)" "x = xs ! i" using assms by (auto simp: find_Some_iff)
  then show ?thesis using id_take_nth_drop [of i xs] that by auto
qed

lemma take_fit:
  assumes rep: "heap_rep h bs" and need: "16 dvd unat need" "48 \<le> unat need"
    and f: "first_fit (kh_mem h) need (kh_head h) = Some p" "p \<noteq> 0"
  obtains xs b ys where "hb_addr b = p" "heap_rep (h\<lparr>kh_mem := take_block p need (kh_mem h)\<rparr>) (xs @ b # ys)"
    "\<not> hb_free b" "in_use xs @ in_use ys = in_use bs" "need \<le> hb_size b"
proof -
  note bd = heap_rep_bounds [OF rep]
  have sg: "seg (kh_mem h) 0 (kh_head h) bs 0" using rep by (simp add: heap_rep_def)
  from first_fit_seg [OF sg, of need] f obtain c where c: "find (fits need) bs = Some c" "p = hb_addr c"
    by (auto split: option.splits)
  from find_split [OF c(1)] obtain xs ys where s: "bs = xs @ c # ys" "fits need c" by blast
  let ?bs = "xs @ fit_split need c @ ys"
  have lo: "laid_out 18446744071830503424 ?bs (unat (kh_end h))"
    using laid_out_split [of _ xs c ys "unat (kh_end h)" need] bd(4) s need by simp
  have dd: "distinct (map hb_addr ?bs)" by (rule laid_out_distinct [OF lo])
  have sp: "hb_addr c + need \<notin> hb_addr ` set (xs @ c # ys)" if "48 \<le> hb_size c - need"
    using dd that by (auto simp: fit_split_def)
  have r: "18446744071830503424 \<le> unat (hb_addr c)" "unat (hb_addr c) + unat (hb_size c) \<le> unat (kh_end h)"
    using laid_out_range [OF bd(4), of c] s by auto
  have "unat need \<le> unat (hb_size c)" using s(2) by (simp add: word_le_nat_alt)
  then have "unat (hb_addr c + need) = unat (hb_addr c) + unat need" using r bd(2) by (intro unat_add_64) linarith
  then have "hb_addr c + need \<noteq> 0" using r(1) by auto
  from take_block_seg [OF _ _ sp this, of "kh_mem h" "kh_head h"] sg s(1) laid_out_distinct [OF bd(4)]
  have "seg (take_block p need (kh_mem h)) 0 (kh_head h) ?bs 0" by (simp add: c(2))
  then have rep': "heap_rep (h\<lparr>kh_mem := take_block p need (kh_mem h)\<rparr>) ?bs"
    using lo rep by (simp add: heap_rep_def)
  show ?thesis
  proof (cases "48 \<le> hb_size c - need")
    case True
    show ?thesis
      by (rule that [of "c\<lparr>hb_size := need, hb_free := False\<rparr>" xs
            "\<lparr>hb_addr = hb_addr c + need, hb_size = hb_size c - need, hb_free = True\<rparr> # ys"])
        (use rep' s c(2) True in \<open>simp_all add: fit_split_def\<close>)
  next
    case False
    show ?thesis
      by (rule that [of "c\<lparr>hb_free := False\<rparr>" xs ys]) (use rep' s c(2) False in \<open>simp_all add: fit_split_def\<close>)
  qed
qed

lemma kmalloc_spec:
  assumes rep: "heap_rep h bs" and sz: "sz \<noteq> 0" "sz \<le> request_max"
  obtains (fail) h' bs' where "kmalloc sz h = Some (0, h')" "heap_rep h' bs'" "in_use bs' = in_use bs" "kh_data h' = kh_data h"
  | (block) h' xs b ys where "kmalloc sz h = Some (hb_addr b + HEADER_SIZE, h')" "heap_rep h' (xs @ b # ys)" "\<not> hb_free b"
      "in_use xs @ in_use ys = in_use bs" "unat sz + 32 \<le> unat (hb_size b)" "kh_data h' = kh_data h"
proof -
  let ?need = "total_needed sz"
  note n = total_needed_spec [OF sz(2)]
  have sg: "seg (kh_mem h) 0 (kh_head h) bs 0" using rep by (simp add: heap_rep_def)
  obtain p where p: "first_fit (kh_mem h) ?need (kh_head h) = Some p" using first_fit_seg [OF sg] by blast
  show ?thesis
  proof (cases "p = 0")
    case False
    obtain xs b ys where b: "hb_addr b = p"
      "heap_rep (h\<lparr>kh_mem := take_block p ?need (kh_mem h)\<rparr>) (xs @ b # ys)" "\<not> hb_free b"
      "in_use xs @ in_use ys = in_use bs" "?need \<le> hb_size b" by (rule take_fit [OF rep n(2,3) p False]) (rule that)
    show ?thesis
      by (rule block [OF _ b(2-4)]) (use sz(1) p False b n(1) in \<open>simp_all add: kmalloc_def Let_def word_le_nat_alt\<close>)
  next
    case True
    have mn: "0 < unat ?need" "unat ?need \<le> 805298224" using n sz(2) by (simp_all add: word_le_nat_alt)
    from rep mn show ?thesis
    proof (cases rule: heap_expand_spec)
      case (full h1)
      then show ?thesis using fail [of h1 bs] sz(1) p True by (simp add: kmalloc_def Let_def)
    next
      case (grown r h1 bs1)
      define h2 where "h2 = (if kh_head h1 = 0 then h1\<lparr>kh_head := r\<rparr> else h1)"
      have rep2: "heap_rep h2 bs1" and d2: "kh_data h2 = kh_data h" using grown by (simp_all add: h2_def)
      have sg2: "seg (kh_mem h2) 0 (kh_head h2) bs1 0" using rep2 by (simp add: heap_rep_def)
      obtain c where c: "find (fits ?need) bs1 = Some c"
        using grown(6) by (cases "find (fits ?need) bs1") (auto simp: find_None_iff list_ex_iff)
      then have "c \<in> set bs1" by (auto simp: find_Some_iff)
      then have q: "first_fit (kh_mem h2) ?need (kh_head h2) = Some (hb_addr c)" "hb_addr c \<noteq> 0"
        using first_fit_seg [OF sg2] c seg_nonzero [OF sg2] by force+
      obtain xs b ys where b: "hb_addr b = hb_addr c"
        "heap_rep (h2\<lparr>kh_mem := take_block (hb_addr c) ?need (kh_mem h2)\<rparr>) (xs @ b # ys)" "\<not> hb_free b"
        "in_use xs @ in_use ys = in_use bs1" "?need \<le> hb_size b" by (rule take_fit [OF rep2 n(2,3) q]) (rule that)
      have run: "kmalloc sz h = Some (hb_addr b + HEADER_SIZE, h2\<lparr>kh_mem := take_block (hb_addr c) ?need (kh_mem h2)\<rparr>)"
        unfolding kmalloc_def Let_def b(1)
        by (simp add: sz(1) p True grown(1,2) h2_def [symmetric] q del: split_paired_Ex)
      have iu: "in_use xs @ in_use ys = in_use bs" using b(4) grown(5) by (rule trans)
      have "unat sz + 32 \<le> unat (hb_size b)" using n(1) b(5) unfolding word_le_nat_alt by (rule order_trans)
      with block [OF run b(2,3) iu] show ?thesis using d2 by simp
    qed
  qed
qed

section \<open>Release\<close>

lemma absorb_Cons: "\<exists>c zs. absorb b ys = c # zs \<and> hb_addr c = hb_addr b \<and> hb_free c = hb_free b \<and> in_use zs = in_use ys"
  by (cases ys) auto

lemma in_use_join: "hb_free c \<Longrightarrow> in_use (join xs (c # zs)) = in_use xs @ in_use zs"
proof (cases "xs \<noteq> [] \<and> hb_free (last xs)")
  case True
  then obtain us u where "xs = us @ [u]" "hb_free u" by (metis append_butlast_last_id)
  then show ?thesis by (simp add: join_def)
qed (auto simp: join_def)

lemma kfree_spec:
  assumes rep: "heap_rep h (xs @ b # ys)"
  obtains bs' where "heap_rep (kfree (hb_addr b + HEADER_SIZE) h) bs'" "in_use bs' = in_use xs @ in_use ys"
proof -
  let ?a = "hb_addr b" and ?mem = "kh_mem h"
  note bd = heap_rep_bounds [OF rep]
  let ?b = "b\<lparr>hb_free := True\<rparr>"
  have hi: "unat (kh_end h) < 18446744073709551616" by simp
  have lo: "laid_out 18446744071830503424 (xs @ ?b # ys) (unat (kh_end h))" using bd(4) by (auto simp: laid_out_append)
  have sg: "seg ?mem 0 (kh_head h) (xs @ b # ys) 0" using rep by (simp add: heap_rep_def)
  note m = seg_middle [OF sg]
  have d: "distinct (map hb_addr (xs @ b # ys))" by (rule laid_out_distinct [OF bd(4)])
  define m1 where "m1 = ?mem(?a := (?mem ?a)\<lparr>bh_free := True\<rparr>)"
  have s1: "seg m1 0 (kh_head h) (xs @ ?b # ys) 0" using m d by (auto simp: seg_append m1_def)
  have s2: "seg (merge_next ?a m1) 0 (kh_head h) (xs @ absorb ?b ys) 0"
    using merge_next_seg [OF s1] d by simp
  obtain c zs where c: "absorb ?b ys = c # zs" "hb_addr c = ?a" "hb_free c" "in_use zs = in_use ys"
    using absorb_Cons [of ?b ys] by auto
  obtain k where k: "laid_out 18446744071830503424 xs k" "laid_out k (?b # ys) (unat (kh_end h))"
    using lo by (auto simp: laid_out_append)
  have lo2: "laid_out 18446744071830503424 (xs @ c # zs) (unat (kh_end h))"
    unfolding c(1) [symmetric] laid_out_append using laid_out_absorb [OF k(2) hi] k(1) by blast
  have s3: "seg (merge_prev ?a (merge_next ?a m1)) 0 (kh_head h) (join xs (c # zs)) 0"
    using merge_prev_seg [of "merge_next ?a m1" "kh_head h" xs c zs] s2 c(1,2) laid_out_distinct [OF lo2] by simp
  have lo3: "laid_out 18446744071830503424 (join xs (c # zs)) (unat (kh_end h))" by (rule laid_out_join [OF lo2 hi])
  have r: "18446744071830503424 \<le> unat ?a" "unat ?a + unat (hb_size b) \<le> unat (kh_end h)" "48 \<le> unat (hb_size b)"
    using laid_out_range [OF bd(4), of b] by auto
  have "unat (?a + HEADER_SIZE) = unat ?a + 32"
    using unat_add_64 [of ?a HEADER_SIZE] r bd(2) by (simp add: HEADER_SIZE_def)
  then have "?a + HEADER_SIZE \<noteq> 0" by auto
  then have "kfree (?a + HEADER_SIZE) h = h\<lparr>kh_mem := merge_prev ?a (merge_next ?a m1)\<rparr>"
    by (simp add: kfree_def Let_def m1_def)
  then have "heap_rep (kfree (?a + HEADER_SIZE) h) (join xs (c # zs))"
    using s3 lo3 rep by (simp add: heap_rep_def)
  then show ?thesis using that in_use_join [OF c(3), of xs zs] c(4) by simp
qed

section \<open>Clients of the heap\<close>

definition area :: "u64 \<Rightarrow> nat \<Rightarrow> u64 set" where
  "area p n = (\<lambda>i. p + word_of_nat i) ` {..<n}"

text \<open>The states a well-behaved client can bring the heap into, with the sizes of the areas it holds: it frees
and resizes only what it got and has not freed, and writes only into its areas.\<close>

inductive heap_client :: "kheap \<Rightarrow> (u64 \<rightharpoonup> nat) \<Rightarrow> bool" where
  init: "pmm_ok (vm_pmm (kh_vm h)) \<Longrightarrow> kheap_init h = Some (True, h') \<Longrightarrow> heap_client h' Map.empty"
| malloc: "heap_client h L \<Longrightarrow> sz \<le> request_max \<Longrightarrow> kmalloc sz h = Some (p, h') \<Longrightarrow>
    heap_client h' (if p = 0 then L else L(p \<mapsto> unat sz))"
| free: "heap_client h L \<Longrightarrow> L p = Some n \<Longrightarrow> heap_client (kfree p h) (L(p := None))"
| realloc: "heap_client h L \<Longrightarrow> L p = Some n \<Longrightarrow> sz \<noteq> 0 \<Longrightarrow> sz \<le> request_max \<Longrightarrow> krealloc p sz h = Some (q, h') \<Longrightarrow>
    heap_client h' (if q = 0 then L else L(p := None, q \<mapsto> unat sz))"
| store: "heap_client h L \<Longrightarrow> L p = Some n \<Longrightarrow> a \<in> area p n \<Longrightarrow>
    heap_client (h\<lparr>kh_data := (kh_data h)(a := x)\<rparr>) L"

definition holds :: "hblk list \<Rightarrow> (u64 \<rightharpoonup> nat) \<Rightarrow> bool" where
  "holds bs L \<longleftrightarrow> (\<forall>p n. L p = Some n \<longrightarrow> (\<exists>b \<in> set (in_use bs). p = hb_addr b + HEADER_SIZE \<and> n + 32 \<le> unat (hb_size b)))"

lemma holds_mono: "holds bs L \<Longrightarrow> set (in_use bs) \<subseteq> set (in_use bs') \<Longrightarrow> holds bs' L"
  by (fastforce simp: holds_def)

lemma holds_upd: "holds bs L \<Longrightarrow> b \<in> set (in_use bs) \<Longrightarrow> n + 32 \<le> unat (hb_size b) \<Longrightarrow> holds bs (L(hb_addr b + HEADER_SIZE \<mapsto> n))"
  by (auto simp: holds_def)

lemma holds_split:
  assumes "heap_rep h bs" "holds bs L" "L p = Some n"
  obtains xs b ys where "bs = xs @ b # ys" "p = hb_addr b + HEADER_SIZE" "\<not> hb_free b" "n + 32 \<le> unat (hb_size b)"
    "\<And>bs'. in_use bs' = in_use xs @ in_use ys \<Longrightarrow> holds bs' (L(p := None))"
proof -
  obtain b where b: "b \<in> set bs" "\<not> hb_free b" "p = hb_addr b + HEADER_SIZE" "n + 32 \<le> unat (hb_size b)"
    using assms(2,3) by (auto simp: holds_def)
  obtain xs ys where s: "bs = xs @ b # ys" using b(1) by (meson split_list)
  have "holds bs' (L(p := None))" if "in_use bs' = in_use xs @ in_use ys" for bs'
    unfolding holds_def
  proof (intro allI impI)
    fix q m assume q: "(L(p := None)) q = Some m"
    then obtain c where c: "c \<in> set (in_use bs)" "q = hb_addr c + HEADER_SIZE" "m + 32 \<le> unat (hb_size c)"
      using assms(2) by (auto simp: holds_def split: if_splits)
    have "c \<noteq> b" using q c(2) b(3) by auto
    then have "c \<in> set (in_use bs')" unfolding that using c(1) by (auto simp: s split: if_splits)
    then show "\<exists>b\<in>set (in_use bs'). q = hb_addr b + HEADER_SIZE \<and> m + 32 \<le> unat (hb_size b)"
      using c(2,3) by blast
  qed
  then show ?thesis using that s b by blast
qed

text \<open>The payload of a block, as numbers and as a set of addresses.\<close>

lemma payload:
  assumes rep: "heap_rep h bs" and b: "b \<in> set bs" "n + 32 \<le> unat (hb_size b)"
  shows "unat (hb_addr b + HEADER_SIZE) = unat (hb_addr b) + 32"
    and "i < n \<Longrightarrow> unat (hb_addr b + HEADER_SIZE + word_of_nat i) = unat (hb_addr b) + 32 + i"
    and "a \<in> area (hb_addr b + HEADER_SIZE) n \<Longrightarrow> unat (hb_addr b) + 32 \<le> unat a \<and> unat a < unat (hb_addr b) + unat (hb_size b)"
proof -
  note bd = heap_rep_bounds [OF rep]
  have r: "unat (hb_addr b) + unat (hb_size b) \<le> 18446744072904245248" "48 \<le> unat (hb_size b)"
    using laid_out_range [OF bd(4) b(1)] bd(2) by auto
  show h: "unat (hb_addr b + HEADER_SIZE) = unat (hb_addr b) + 32"
    using unat_add_64 [of "hb_addr b" HEADER_SIZE] r by (simp add: HEADER_SIZE_def)
  have i: "unat (hb_addr b + HEADER_SIZE + word_of_nat i) = unat (hb_addr b) + 32 + i" if "i < n" for i
  proof -
    have "i < 18446744073709551616" using that b(2) r(1) by linarith
    then have "unat (word_of_nat i :: u64) = i" by (simp add: unat_of_nat take_bit_nat_eq_self)
    then show ?thesis using unat_add_64 [of "hb_addr b + HEADER_SIZE" "word_of_nat i"] h r(1) b(2) that by simp
  qed
  then show "i < n \<Longrightarrow> unat (hb_addr b + HEADER_SIZE + word_of_nat i) = unat (hb_addr b) + 32 + i" .
  show "a \<in> area (hb_addr b + HEADER_SIZE) n \<Longrightarrow> unat (hb_addr b) + 32 \<le> unat a \<and> unat a < unat (hb_addr b) + unat (hb_size b)"
    using i b(2) by (auto simp: area_def)
qed

lemma payloads_disjoint:
  assumes rep: "heap_rep h bs" and b: "b \<in> set bs" "n + 32 \<le> unat (hb_size b)" and c: "c \<in> set bs" "m + 32 \<le> unat (hb_size c)"
    and ne: "hb_addr b \<noteq> hb_addr c"
  shows "area (hb_addr b + HEADER_SIZE) n \<inter> area (hb_addr c + HEADER_SIZE) m = {}"
proof -
  have "b \<noteq> c" using ne by auto
  then show ?thesis
    using laid_out_disjoint [OF heap_rep_bounds(4) [OF rep] b(1) c(1)] payload(3) [OF rep b] payload(3) [OF rep c]
    by fastforce
qed

lemma memcpy_eq:
  assumes "\<And>i j. i < n \<Longrightarrow> j < n \<Longrightarrow> src + word_of_nat i \<noteq> dst + word_of_nat j"
    and "\<And>i j. i < n \<Longrightarrow> j < n \<Longrightarrow> dst + word_of_nat i = dst + word_of_nat j \<Longrightarrow> i = j"
  shows "(\<forall>i<n. heap_memcpy dst src n d (dst + word_of_nat i) = d (src + word_of_nat i))
    \<and> (\<forall>a. a \<notin> area dst n \<longrightarrow> heap_memcpy dst src n d a = d a)"
  using assms
proof (induction n)
  case (Suc n)
  let ?d = "heap_memcpy dst src n d"
  have ih: "\<forall>i<n. ?d (dst + word_of_nat i) = d (src + word_of_nat i)" "\<forall>a. a \<notin> area dst n \<longrightarrow> ?d a = d a"
    using Suc by auto
  have st: "heap_memcpy dst src (Suc n) d = ?d(dst + word_of_nat n := ?d (src + word_of_nat n))"
    by (simp add: heap_memcpy_def)
  have "src + word_of_nat n \<notin> area dst n" using Suc.prems(1) [OF lessI] unfolding area_def by (metis (no_types, lifting) imageE lessThan_iff less_SucI)
  then have src: "?d (src + word_of_nat n) = d (src + word_of_nat n)" using ih(2) by simp
  have "heap_memcpy dst src (Suc n) d (dst + word_of_nat i) = d (src + word_of_nat i)" if "i < Suc n" for i
    using ih(1) src Suc.prems(2) [of i n] that by (cases "i = n") (auto simp: st)
  moreover have "heap_memcpy dst src (Suc n) d a = d a" if "a \<notin> area dst (Suc n)" for a
  proof -
    have "a \<notin> area dst n" "a \<noteq> dst + word_of_nat n" using that by (auto simp: area_def)
    then show ?thesis using ih(2) by (simp add: st)
  qed
  ultimately show ?case by blast
qed (simp add: heap_memcpy_def)

section \<open>Every operation serves the client\<close>

lemma kmalloc_client:
  assumes rep: "heap_rep h bs" and ho: "holds bs L" and sz: "sz \<le> request_max"
  obtains p h' bs' where "kmalloc sz h = Some (p, h')" "heap_rep h' bs'" "holds bs' (if p = 0 then L else L(p \<mapsto> unat sz))"
    "set (in_use bs) \<subseteq> set (in_use bs')" "kh_data h' = kh_data h"
    "p \<noteq> 0 \<Longrightarrow> \<exists>b \<in> set (in_use bs'). p = hb_addr b + HEADER_SIZE \<and> unat sz + 32 \<le> unat (hb_size b)
       \<and> (\<forall>c \<in> set (in_use bs). hb_addr c \<noteq> hb_addr b)"
proof (cases "sz = 0")
  case True
  then show ?thesis using that [of 0 h bs] rep ho by (simp add: kmalloc_def)
next
  case False
  from rep False sz show ?thesis
  proof (cases rule: kmalloc_spec)
    case (fail h' bs')
    then show ?thesis using that [of 0 h' bs'] ho by (simp add: holds_def)
  next
    case (block h' xs b ys)
    let ?bs = "xs @ b # ys"
    have iu: "b \<in> set (in_use ?bs)" "set (in_use bs) \<subseteq> set (in_use ?bs)" using block(3) by (auto simp: block(4) [symmetric])
    have "distinct (map hb_addr ?bs)" by (rule laid_out_distinct [OF heap_rep_bounds(4) [OF block(2)]])
    then have nb: "hb_addr b \<notin> hb_addr ` (set xs \<union> set ys)" by auto
    have sub: "set (in_use bs) \<subseteq> set xs \<union> set ys" unfolding block(4) [symmetric] by auto
    have ne: "\<forall>c \<in> set (in_use bs). hb_addr c \<noteq> hb_addr b"
    proof
      fix c assume "c \<in> set (in_use bs)"
      from imageI [OF subsetD [OF sub this], of hb_addr] show "hb_addr c \<noteq> hb_addr b" using nb by metis
    qed
    have p: "hb_addr b + HEADER_SIZE \<noteq> 0"
      using payload(1) [OF block(2), of b "unat sz"] block(5) by auto
    have ho': "holds ?bs (if hb_addr b + HEADER_SIZE = 0 then L else L(hb_addr b + HEADER_SIZE \<mapsto> unat sz))"
      using p holds_upd [OF holds_mono [OF ho iu(2)] iu(1) block(5)] by simp
    have "\<exists>b' \<in> set (in_use ?bs). hb_addr b + HEADER_SIZE = hb_addr b' + HEADER_SIZE \<and> unat sz + 32 \<le> unat (hb_size b')
        \<and> (\<forall>c \<in> set (in_use bs). hb_addr c \<noteq> hb_addr b')"
      using iu(1) block(5) ne by blast
    from that [OF block(1,2) ho' iu(2) block(6) this] show ?thesis .
  qed
qed

lemma kfree_client:
  assumes rep: "heap_rep h bs" and ho: "holds bs L" and p: "L p = Some n"
  obtains bs' where "heap_rep (kfree p h) bs'" "holds bs' (L(p := None))"
proof -
  from holds_split [OF rep ho p] obtain xs b ys where s: "bs = xs @ b # ys" "p = hb_addr b + HEADER_SIZE"
    "\<And>bs'. in_use bs' = in_use xs @ in_use ys \<Longrightarrow> holds bs' (L(p := None))" by metis
  from kfree_spec [of h xs b ys] rep s(1) obtain bs' where "heap_rep (kfree p h) bs'" "in_use bs' = in_use xs @ in_use ys"
    unfolding s(2) by blast
  then show ?thesis using that s(3) by blast
qed

lemma align_need:
  assumes "sz \<le> request_max"
  shows "unat sz + 32 \<le> unat (align_up (sz + HEADER_SIZE) ALIGNMENT)"
proof -
  have s: "unat sz \<le> 805298176" using assms by (simp add: word_le_nat_alt)
  have "unat (sz + HEADER_SIZE) = unat sz + 32" using unat_add_64 [of sz 32] s by (simp add: HEADER_SIZE_def)
  then show ?thesis using unat_align16 [of "sz + HEADER_SIZE"] s by (simp add: ALIGNMENT_def)
qed

lemma kfree_data [simp]: "kh_data (kfree p h) = kh_data h"
  by (simp add: kfree_def Let_def)

lemma heap_rep_data [simp]: "heap_rep (h\<lparr>kh_data := d\<rparr>) bs = heap_rep h bs"
  by (simp add: heap_rep_def)

lemma block_size:
  assumes "heap_rep h bs" "b \<in> set bs"
  shows "bh_size (kh_mem h (hb_addr b)) = hb_size b"
proof -
  obtain xs ys where "bs = xs @ b # ys" using assms(2) by (meson split_list)
  then show ?thesis using seg_middle(3) [of "kh_mem h" "kh_head h" xs b ys] assms(1) by (simp add: heap_rep_def)
qed

lemma area_mono: "n \<le> m \<Longrightarrow> area p n \<subseteq> area p m"
  by (auto simp: area_def)

lemma copy_block:
  assumes rep: "heap_rep h bs" and b: "b \<in> set bs" "n + 32 \<le> unat (hb_size b)" and c: "c \<in> set bs" "n + 32 \<le> unat (hb_size c)"
    and ne: "hb_addr b \<noteq> hb_addr c"
  defines "src \<equiv> hb_addr b + HEADER_SIZE" and "dst \<equiv> hb_addr c + HEADER_SIZE"
  shows "i < n \<Longrightarrow> heap_memcpy dst src n d (dst + word_of_nat i) = d (src + word_of_nat i)"
    and "a \<notin> area dst n \<Longrightarrow> heap_memcpy dst src n d a = d a"
proof -
  have dj: "src + word_of_nat i \<noteq> dst + word_of_nat j" if "i < n" "j < n" for i j
    using payloads_disjoint [OF rep b c ne] that by (auto simp: src_def dst_def area_def)
  have inj: "i = j" if "i < n" "j < n" "dst + word_of_nat i = dst + word_of_nat j" for i j
  proof -
    have "unat (hb_addr c) + 32 + i = unat (hb_addr c) + 32 + j"
      unfolding payload(2) [OF rep c that(1), symmetric] payload(2) [OF rep c that(2), symmetric]
      using that(3) by (simp only: dst_def)
    then show ?thesis by simp
  qed
  from memcpy_eq [OF dj inj, where d = d]
  show "i < n \<Longrightarrow> heap_memcpy dst src n d (dst + word_of_nat i) = d (src + word_of_nat i)"
    "a \<notin> area dst n \<Longrightarrow> heap_memcpy dst src n d a = d a" by blast+
qed

lemma krealloc_client:
  assumes rep: "heap_rep h bs" and ho: "holds bs L" and p: "L p = Some n" and sz: "sz \<noteq> 0" "sz \<le> request_max"
  obtains q h' bs' where "krealloc p sz h = Some (q, h')" "heap_rep h' bs'"
    "holds bs' (if q = 0 then L else L(p := None, q \<mapsto> unat sz))" "q = 0 \<Longrightarrow> kh_data h' = kh_data h"
    "q \<noteq> 0 \<Longrightarrow> (\<forall>i < min n (unat sz). kh_data h' (q + word_of_nat i) = kh_data h (p + word_of_nat i))
       \<and> (\<forall>r m. L r = Some m \<and> r \<noteq> p \<longrightarrow> (\<forall>a \<in> area r m. kh_data h' a = kh_data h a))"
proof -
  obtain b where b: "b \<in> set (in_use bs)" "p = hb_addr b + HEADER_SIZE" "n + 32 \<le> unat (hb_size b)"
    using ho p by (auto simp: holds_def)
  have bb: "b \<in> set bs" using b(1) by simp
  have p0: "p \<noteq> 0" using payload(1) [OF rep bb b(3)] b(2) by auto
  have blk: "p - HEADER_SIZE = hb_addr b" using b(2) by simp
  let ?tot = "align_up (sz + HEADER_SIZE) ALIGNMENT"
  show ?thesis
  proof (cases "?tot \<le> hb_size b")
    case True
    then have "unat sz + 32 \<le> unat (hb_size b)" using align_need [OF sz(2)] by (simp add: word_le_nat_alt)
    from holds_upd [OF ho b(1) this] have "holds bs (L(p := None, p \<mapsto> unat sz))" using b(2) by simp
    moreover have "krealloc p sz h = Some (p, h)" using True p0 sz(1) by (simp add: krealloc_def Let_def blk block_size [OF rep bb])
    ultimately show ?thesis using that [of p h bs] rep p0 by simp
  next
    case False
    obtain q h1 bs1 where k: "kmalloc sz h = Some (q, h1)" "heap_rep h1 bs1" "holds bs1 (if q = 0 then L else L(q \<mapsto> unat sz))"
      "set (in_use bs) \<subseteq> set (in_use bs1)" "kh_data h1 = kh_data h"
      "q \<noteq> 0 \<Longrightarrow> \<exists>c \<in> set (in_use bs1). q = hb_addr c + HEADER_SIZE \<and> unat sz + 32 \<le> unat (hb_size c)
         \<and> (\<forall>e \<in> set (in_use bs). hb_addr e \<noteq> hb_addr c)"
      by (rule kmalloc_client [OF rep ho sz(2)]) (rule that)
    have b1: "b \<in> set bs1" using k(4) b(1) by auto
    show ?thesis
    proof (cases "q = 0")
      case True
      then have "krealloc p sz h = Some (0, h1)"
        using False p0 sz(1) k(1) by (simp add: krealloc_def Let_def blk block_size [OF rep bb])
      then show ?thesis using that [of 0 h1 bs1] k True by simp
    next
      case q0: False
      then obtain c where c: "c \<in> set (in_use bs1)" "q = hb_addr c + HEADER_SIZE" "unat sz + 32 \<le> unat (hb_size c)"
        "\<forall>e \<in> set (in_use bs). hb_addr e \<noteq> hb_addr c" using k(6) by blast
      define m where "m = unat (if sz < hb_size b - HEADER_SIZE then sz else hb_size b - HEADER_SIZE)"
      define h2 where "h2 = h1\<lparr>kh_data := heap_memcpy q p m (kh_data h1)\<rparr>"
      have "unat (hb_size b - HEADER_SIZE) = unat (hb_size b) - 32"
        using unat_sub_64 [of HEADER_SIZE "hb_size b"] b(3) by (simp add: HEADER_SIZE_def)
      then have m: "m = min (unat sz) (unat (hb_size b) - 32)" by (simp add: m_def word_less_nat_alt)
      have bc: "m + 32 \<le> unat (hb_size b)" "m + 32 \<le> unat (hb_size c)" "min n (unat sz) \<le> m" using m b(3) c(3) by auto
      have run: "krealloc p sz h = Some (q, kfree p h2)"
        using False p0 sz(1) k(1) q0
        by (simp add: krealloc_def Let_def blk block_size [OF rep bb] block_size [OF k(2) b1] h2_def m_def)
      have c1: "c \<in> set bs1" using c(1) by simp
      have ne: "hb_addr b \<noteq> hb_addr c" using c(4) b(1) by blast
      note cp = copy_block [OF k(2) b1 bc(1) c1 bc(2) ne, folded b(2) c(2), of _ "kh_data h1"]
      have qp: "q \<noteq> p" using ne b(2) c(2) by simp
      have rep2: "heap_rep h2 bs1" using k(2) by (simp add: h2_def)
      have ho2: "holds bs1 (L(q \<mapsto> unat sz))" using k(3) q0 by simp
      obtain bs' where f: "heap_rep (kfree p h2) bs'" "holds bs' ((L(q \<mapsto> unat sz))(p := None))"
        by (rule kfree_client [OF rep2 ho2, of p n]) (use p qp in simp, rule that)
      have "(L(q \<mapsto> unat sz))(p := None) = L(p := None, q \<mapsto> unat sz)" using qp by (simp add: fun_upd_twist)
      with f(2) have f2: "holds bs' (if q = 0 then L else L(p := None, q \<mapsto> unat sz))" using q0 by simp
      have d1: "kh_data (kfree p h2) (q + word_of_nat i) = kh_data h (p + word_of_nat i)" if "i < min n (unat sz)" for i
        using cp(1) [of i] that bc(3) k(5) by (simp add: h2_def)
      have d2: "kh_data (kfree p h2) a = kh_data h a" if r: "L r = Some k'" "r \<noteq> p" "a \<in> area r k'" for r k' a
      proof -
        obtain e where e: "e \<in> set (in_use bs)" "r = hb_addr e + HEADER_SIZE" "k' + 32 \<le> unat (hb_size e)"
          using ho r(1) by (auto simp: holds_def)
        have e1: "e \<in> set bs1" using e(1) k(4) by auto
        have "a \<notin> area q m"
          using payloads_disjoint [OF k(2) e1 e(3) c1 bc(2)] c(2,4) e(1,2) r(3) by blast
        then show ?thesis using cp(2) [of a] k(5) by (simp add: h2_def)
      qed
      show ?thesis by (rule that [OF run f(1) f2]) (use q0 d1 d2 in auto)
    qed
  qed
qed

lemma heap_client_rep:
  assumes "heap_client h L"
  obtains bs where "heap_rep h bs" "holds bs L"
proof -
  have "\<exists>bs. heap_rep h bs \<and> holds bs L"
    using assms
  proof (induction rule: heap_client.induct)
    case (init h h')
    let ?h = "h\<lparr>kh_end := KHEAP_START, kh_head := 0\<rparr>"
    have rep: "heap_rep ?h []" using init(1) by (simp add: heap_rep_def)
    have mn: "0 < unat (4096 :: u64)" "unat (4096 :: u64) \<le> 805298224" by simp_all
    from rep mn show ?case
    proof (cases rule: heap_expand_spec)
      case (full h1)
      then show ?thesis using init(2) by (simp add: kheap_init_def)
    next
      case (grown r h1 bs1)
      then have "h' = h1\<lparr>kh_head := r\<rparr>" using init(2) by (simp add: kheap_init_def)
      then show ?thesis using grown(4,7) by (intro exI [of _ bs1]) (simp add: holds_def)
    qed
  next
    case (malloc h L sz p h')
    then obtain bs where bs: "heap_rep h bs" "holds bs L" by blast
    obtain p2 h2 bs2 where "kmalloc sz h = Some (p2, h2)" "heap_rep h2 bs2" "holds bs2 (if p2 = 0 then L else L(p2 \<mapsto> unat sz))"
      by (rule kmalloc_client [OF bs malloc(2)]) (rule that)
    then show ?case using malloc(3) by auto
  next
    case (free h L p n)
    then obtain bs where bs: "heap_rep h bs" "holds bs L" by blast
    show ?case by (rule kfree_client [OF bs free(2)]) blast
  next
    case (realloc h L p n sz q h')
    then obtain bs where bs: "heap_rep h bs" "holds bs L" by blast
    obtain q2 h2 bs2 where "krealloc p sz h = Some (q2, h2)" "heap_rep h2 bs2"
      "holds bs2 (if q2 = 0 then L else L(p := None, q2 \<mapsto> unat sz))"
      by (rule krealloc_client [OF bs realloc(2-4)]) (rule that)
    then show ?case using realloc(5) by auto
  qed auto
  then show ?thesis using that by blast
qed

section \<open>Properties\<close>

text \<open>C8: The kernel heap never hands out memory twice. In every state that a sequence of kmalloc, kfree and
krealloc calls and writes to allocated memory can reach after kheap_init, the areas in use are
16-byte aligned, lie inside the heap and do not overlap, and the next kmalloc returns (a pointer or
NULL), as long as no request exceeds 767 MB; the calls free and resize only areas in use.\<close>

theorem heap_areas_exclusive:
  assumes "heap_client h L"
  shows "(\<forall>p n. L p = Some n \<longrightarrow> 16 dvd unat p \<and> (\<forall>a \<in> area p n. unat KHEAP_START \<le> unat a \<and> unat a < unat (kh_end h))
           \<and> (\<forall>q m. L q = Some m \<and> q \<noteq> p \<longrightarrow> area p n \<inter> area q m = {}))
    \<and> (sz \<le> request_max \<longrightarrow> kmalloc sz h \<noteq> None)"
proof -
  obtain bs where bs: "heap_rep h bs" "holds bs L" by (rule heap_client_rep [OF assms])
  note bd = heap_rep_bounds [OF bs(1)]
  have blk: "\<exists>b \<in> set bs. p = hb_addr b + HEADER_SIZE \<and> n + 32 \<le> unat (hb_size b)" if "L p = Some n" for p n
    using bs(2) that by (fastforce simp: holds_def)
  have "16 dvd unat p \<and> (\<forall>a \<in> area p n. unat KHEAP_START \<le> unat a \<and> unat a < unat (kh_end h))
      \<and> (\<forall>q m. L q = Some m \<and> q \<noteq> p \<longrightarrow> area p n \<inter> area q m = {})" if p: "L p = Some n" for p n
  proof -
    obtain b where b: "b \<in> set bs" "p = hb_addr b + HEADER_SIZE" "n + 32 \<le> unat (hb_size b)" using blk [OF p] by blast
    have r: "18446744071830503424 \<le> unat (hb_addr b)" "unat (hb_addr b) + unat (hb_size b) \<le> unat (kh_end h)" "16 dvd unat (hb_addr b)"
      using laid_out_range [OF bd(4) b(1)] by auto
    have "16 dvd unat p" using payload(1) [OF bs(1) b(1,3)] r(3) b(2) by (simp add: dvd_add)
    moreover have "unat KHEAP_START \<le> unat a \<and> unat a < unat (kh_end h)" if "a \<in> area p n" for a
      using payload(3) [OF bs(1) b(1,3), of a] that r b(2) by simp
    moreover have "area p n \<inter> area q m = {}" if "L q = Some m" "q \<noteq> p" for q m
    proof -
      obtain c where c: "c \<in> set bs" "q = hb_addr c + HEADER_SIZE" "m + 32 \<le> unat (hb_size c)" using blk [OF \<open>L q = Some m\<close>] by blast
      have "hb_addr b \<noteq> hb_addr c" using \<open>q \<noteq> p\<close> b(2) c(2) by auto
      then show ?thesis unfolding b(2) c(2) by (rule payloads_disjoint [OF bs(1) b(1,3) c(1,3)])
    qed
    ultimately show ?thesis by blast
  qed
  moreover have "kmalloc sz h \<noteq> None" if "sz \<le> request_max"
    by (rule kmalloc_client [OF bs that]) simp
  ultimately show ?thesis by blast
qed

text \<open>C39: krealloc keeps what the client stored. When it returns a pointer, the new area holds the bytes of the
old one up to the smaller of the two sizes and the bytes of all other areas in use are unchanged; when
it returns NULL no byte has changed. It always returns.\<close>

theorem krealloc_keeps_contents:
  assumes "heap_client h L" and "L p = Some n" and "sz \<noteq> 0" and "sz \<le> request_max"
  shows "\<exists>q h'. krealloc p sz h = Some (q, h') \<and>
     (if q = 0 then kh_data h' = kh_data h
      else (\<forall>i < min n (unat sz). kh_data h' (q + word_of_nat i) = kh_data h (p + word_of_nat i))
        \<and> (\<forall>r m. L r = Some m \<and> r \<noteq> p \<longrightarrow> (\<forall>a \<in> area r m. kh_data h' a = kh_data h a)))"
proof -
  obtain bs where bs: "heap_rep h bs" "holds bs L" by (rule heap_client_rep [OF assms(1)])
  show ?thesis
    by (rule krealloc_client [OF bs assms(2-4)]) (intro exI conjI, assumption, auto)
qed

definition demo_heap :: kheap where
  "demo_heap = \<lparr>kh_mem = \<lambda>_. \<lparr>bh_size = 0, bh_free = False, bh_next = 0, bh_prev = 0\<rparr>, kh_data = \<lambda>_. 0, kh_head = 0, kh_end = 0,
     kh_vm = \<lparr>vm_pmm = demo_pmm, vm_mem = \<lambda>_ _. 1, vm_kpml4 = 0, vm_swap = \<lparr>sw_start = 0, sw_bitmap = [], sw_used = 0\<rparr>\<rparr>\<rparr>"

lemma demo_heap_init:
  "\<exists>h. kheap_init demo_heap = Some (True, h) \<and> kh_head h = KHEAP_START
     \<and> kh_mem h KHEAP_START = \<lparr>bh_size = 4096, bh_free = True, bh_next = 0, bh_prev = 0\<rparr>"
proof -
  have al: "\<exists>pm. pmm_alloc_page demo_pmm = (page_addr 2, pm)"
    by (simp add: pmm_alloc_page_def demo_pmm_def bitmap_test_def upt_conv_Cons)
  then obtain pm where pm: "pmm_alloc_page demo_pmm = (page_addr 2, pm)" by blast
  have p: "page_addr 2 \<noteq> 0" by (simp add: page_addr_def PAGE_SIZE_def)
  have mp: "\<exists>v. vmm_map_page ((kh_vm demo_heap)\<lparr>vm_pmm := pm\<rparr>) va ph fl = (Inr (), v)" for va ph fl
    by (simp add: vmm_map_page_def get_or_create_table_def demo_heap_def has_def PTE_PRESENT_def)
  then obtain v where v: "vmm_map_page ((kh_vm demo_heap)\<lparr>vm_pmm := pm\<rparr>) KHEAP_START (page_addr 2) (PTE_WRITABLE OR PTE_NX) = (Inr (), v)"
    by blast
  have vm: "vm_pmm (kh_vm demo_heap) = demo_pmm" by (simp add: demo_heap_def)
  let ?h = "demo_heap\<lparr>kh_end := KHEAP_START, kh_head := 0\<rparr>"
  have e: "expand_pages 1 ?h = Some (True, ?h\<lparr>kh_vm := v, kh_end := KHEAP_START + 4096\<rparr>)"
    using pm p v vm by simp
  have "KHEAP_START \<noteq> 0" by (simp add: KHEAP_START_def)
  then show ?thesis using e by (simp add: kheap_init_def heap_expand_def KHEAP_START_def KHEAP_MAX_def)
qed

lemma demo_heap_malloc:
  "\<exists>h. heap_client h [KHEAP_START + 32 \<mapsto> 100]"
proof -
  obtain h where h: "kheap_init demo_heap = Some (True, h)" "kh_head h = KHEAP_START"
    "kh_mem h KHEAP_START = \<lparr>bh_size = 4096, bh_free = True, bh_next = 0, bh_prev = 0\<rparr>" using demo_heap_init by blast
  have i: "heap_client h Map.empty"
    by (rule heap_client.init [OF _ h(1)]) (use demo_pmm_facts in \<open>simp add: demo_heap_def\<close>)
  have n: "total_needed 100 = 144"
    by (simp add: total_needed_def align_up_def HEADER_SIZE_def ALIGNMENT_def)
  have f: "first_fit (kh_mem h) 144 KHEAP_START = Some KHEAP_START"
    by (subst first_fit.simps) (use h in \<open>simp add: KHEAP_START_def\<close>)
  have k0: "KHEAP_START \<noteq> 0" "KHEAP_START + 32 \<noteq> 0" by (simp_all add: KHEAP_START_def)
  have "kmalloc 100 h = Some (KHEAP_START + 32, h\<lparr>kh_mem := take_block KHEAP_START 144 (kh_mem h)\<rparr>)"
    using f h(2) k0 n by (simp add: kmalloc_def HEADER_SIZE_def)
  from heap_client.malloc [OF i _ this] k0(2) show ?thesis by (auto simp: request_max_def)
qed

theorem heap_areas_exclusive_witness:
  "\<exists>h. heap_client h [KHEAP_START + 32 \<mapsto> 100] \<and> 16 dvd unat (KHEAP_START + 32) \<and> kmalloc 64 h \<noteq> None"
proof -
  obtain h where h: "heap_client h [KHEAP_START + 32 \<mapsto> 100]" using demo_heap_malloc by blast
  from heap_areas_exclusive [OF h, of 64] h show ?thesis by (auto simp: request_max_def)
qed

theorem krealloc_keeps_contents_witness:
  "\<exists>h q h'. heap_client h [KHEAP_START + 32 \<mapsto> 100] \<and> krealloc (KHEAP_START + 32) 6000 h = Some (q, h')"
proof -
  obtain h where h: "heap_client h [KHEAP_START + 32 \<mapsto> 100]" using demo_heap_malloc by blast
  have "\<exists>q h'. krealloc (KHEAP_START + 32) 6000 h = Some (q, h')"
    using krealloc_keeps_contents [OF h, of "KHEAP_START + 32" 100 6000] by (auto simp: request_max_def)
  then show ?thesis using h by blast
qed

section \<open>Requests that wrap around\<close>

text \<open>A request close to the size of the address space wraps around when the header is added and is served
with the smallest block: the caller receives 16 bytes.\<close>

lemma kmalloc_wraps: "total_needed (- 32) = 48" "total_needed (- 1) = 48"
  by (simp_all add: total_needed_def align_up_def HEADER_SIZE_def ALIGNMENT_def)

text \<open>The limit of the heap is not enforced for requests of 768 MB and more: with a full heap the sum wraps
around and the check passes.\<close>

lemma heap_limit_wraps:
  "\<not> KHEAP_START + KHEAP_MAX < (KHEAP_START + KHEAP_MAX) + 0x30000000"
  by (simp add: KHEAP_START_def KHEAP_MAX_def)

end
