(* ===== verification/Infer_Route.thy ===== *)
theory Infer_Route
  imports Slot_Table "HOL-Library.Multiset"
begin

text \<open>The registry of inference services and its routing, the first part of
src/kernel/src/ipc/infer_svc.c: sixteen providers, several of which may serve the same name, and
three policies that choose among the healthy ones. The process table is a parameter that gives the
namespace of a process and whether it has exited; the tick counter is an argument.\<close>

section \<open>State and registration\<close>

definition MAX_INFER_SERVICES :: nat where "MAX_INFER_SERVICES = 16"
definition INFER_NAME_MAX :: nat where "INFER_NAME_MAX = 32"
definition INFER_SOCK_PATH_MAX :: nat where "INFER_SOCK_PATH_MAX = 108"
definition INFER_HEALTH_TIMEOUT :: u32 where "INFER_HEALTH_TIMEOUT = 3600"
definition INFER_ROUTE_LEAST_LOADED :: u8 where "INFER_ROUTE_LEAST_LOADED = 0"
definition INFER_ROUTE_ROUND_ROBIN :: u8 where "INFER_ROUTE_ROUND_ROBIN = 1"
definition INFER_ROUTE_WEIGHTED :: u8 where "INFER_ROUTE_WEIGHTED = 2"

record infer_service =
  is_name :: string
  is_path :: string
  is_pid :: u64
  is_load :: u32
  is_heartbeat :: u32
  is_requests :: u32
  is_ns :: u32
  is_healthy :: bool
  is_used :: bool

record infer_reg =
  ir_table :: "infer_service list"
  ir_policy :: u8
  ir_rr :: u32

type_synonym proc_info = "u64 \<Rightarrow> (u32 \<times> bool) option"

definition service_reset :: "string \<Rightarrow> string \<Rightarrow> u32 \<Rightarrow> infer_service \<Rightarrow> infer_service" where
  "service_reset name path ns e =
     e\<lparr>is_name := str_copy (is_name e) name INFER_NAME_MAX,
       is_path := str_copy (is_path e) path INFER_SOCK_PATH_MAX,
       is_ns := ns, is_load := 0, is_healthy := False, is_heartbeat := 0, is_requests := 0\<rparr>"

definition infer_register :: "proc_info \<Rightarrow> string \<Rightarrow> string \<Rightarrow> u64 \<Rightarrow> infer_reg \<Rightarrow> unit ret \<times> infer_reg" where
  "infer_register procs name path pid s =
     (let ns = (case procs pid of None \<Rightarrow> 0 | Some (n, _) \<Rightarrow> n); t = ir_table s in
      case lookup_slot is_used is_pid pid t of
        Some i \<Rightarrow> (Inr (), s\<lparr>ir_table := t[i := service_reset name path ns (t ! i)]\<rparr>)
      | None \<Rightarrow>
          (case alloc_slot is_used (\<lambda>e. (service_reset name path ns e)\<lparr>is_pid := pid, is_used := True\<rparr>) t of
             Some (_, t') \<Rightarrow> (Inr (), s\<lparr>ir_table := t'\<rparr>)
           | None \<Rightarrow> (Inl ENOSPC, s)))"

definition infer_lookup :: "string \<Rightarrow> infer_reg \<Rightarrow> nat ret" where
  "infer_lookup name s =
     (case find_index (\<lambda>e. is_used e \<and> str_eq (is_name e) name) (ir_table s) of
        Some i \<Rightarrow> Inr i | None \<Rightarrow> Inl ENOENT)"

definition infer_get :: "int \<Rightarrow> infer_reg \<Rightarrow> infer_service option" where
  "infer_get idx s =
     (if idx < 0 \<or> int MAX_INFER_SERVICES \<le> idx then None
      else if \<not> is_used (ir_table s ! nat idx) then None else Some (ir_table s ! nat idx))"

definition service_clear :: "infer_service \<Rightarrow> infer_service" where
  "service_clear e =
     e\<lparr>is_used := False, is_name := (is_name e)[0 := NUL], is_path := (is_path e)[0 := NUL], is_pid := 0,
       is_ns := 0, is_load := 0, is_healthy := False, is_heartbeat := 0, is_requests := 0\<rparr>"

definition infer_unregister_pid :: "u64 \<Rightarrow> infer_reg \<Rightarrow> infer_reg" where
  "infer_unregister_pid pid s =
     s\<lparr>ir_table := release_where is_used service_clear (\<lambda>e. is_pid e = pid) (ir_table s)\<rparr>"

text \<open>The critical section of infer_health; it gives the name whose queue infer_health drains afterwards.\<close>

definition health_report :: "u64 \<Rightarrow> u32 \<Rightarrow> u32 \<Rightarrow> infer_reg \<Rightarrow> string ret \<times> infer_reg" where
  "health_report pid load now s =
     (case lookup_slot is_used is_pid pid (ir_table s) of
        None \<Rightarrow> (Inl ESRCH, s)
      | Some i \<Rightarrow>
          let e = ir_table s ! i in
          (Inr (cstr (is_name e)), s\<lparr>ir_table := (ir_table s)[i := e\<lparr>is_load := load, is_healthy := True, is_heartbeat := now\<rparr>]\<rparr>))"

definition heartbeat_stale :: "u32 \<Rightarrow> infer_service \<Rightarrow> bool" where
  "heartbeat_stale now e \<longleftrightarrow> is_used e \<and> is_healthy e \<and> INFER_HEALTH_TIMEOUT < now - is_heartbeat e"

definition infer_health_check :: "u32 \<Rightarrow> infer_reg \<Rightarrow> nat \<times> infer_reg" where
  "infer_health_check now s =
     (length (filter (heartbeat_stale now) (ir_table s)),
      s\<lparr>ir_table := map (\<lambda>e. if heartbeat_stale now e then e\<lparr>is_healthy := False\<rparr> else e) (ir_table s)\<rparr>)"

definition infer_set_policy :: "u8 \<Rightarrow> infer_reg \<Rightarrow> unit ret \<times> infer_reg" where
  "infer_set_policy policy s =
     (if INFER_ROUTE_WEIGHTED < policy then (Inl EINVAL, s) else (Inr (), s\<lparr>ir_policy := policy, ir_rr := 0\<rparr>))"

definition infer_get_policy :: "infer_reg \<Rightarrow> u8" where
  "infer_get_policy s = ir_policy s"

definition infer_swap :: "string \<Rightarrow> string \<Rightarrow> u64 \<Rightarrow> infer_reg \<Rightarrow> unit ret \<times> infer_reg" where
  "infer_swap name path pid s =
     (case find_index (\<lambda>e. is_used e \<and> str_eq (is_name e) name \<and> is_pid e = pid) (ir_table s) of
        None \<Rightarrow> (Inl ENOENT, s)
      | Some i \<Rightarrow>
          let e = ir_table s ! i in
          (Inr (), s\<lparr>ir_table := (ir_table s)[i := e\<lparr>is_path := str_copy (is_path e) path INFER_SOCK_PATH_MAX,
             is_load := 0, is_healthy := False, is_heartbeat := 0\<rparr>]\<rparr>))"

section \<open>Routing\<close>

definition provider_dead :: "proc_info \<Rightarrow> infer_service \<Rightarrow> bool" where
  "provider_dead procs e = (case procs (is_pid e) of None \<Rightarrow> True | Some (_, exited) \<Rightarrow> exited)"

definition serves :: "string \<Rightarrow> infer_service \<Rightarrow> bool" where
  "serves name e \<longleftrightarrow> is_used e \<and> str_eq (is_name e) name \<and> is_healthy e"

definition serves_ns :: "string \<Rightarrow> u32 \<Rightarrow> infer_service \<Rightarrow> bool" where
  "serves_ns name ns e \<longleftrightarrow> serves name e \<and> \<not> (ns \<noteq> 0 \<and> is_ns e \<noteq> ns)"

text \<open>The collecting loop: candidates in table order, entries of dead providers released.\<close>

fun collect :: "proc_info \<Rightarrow> (infer_service \<Rightarrow> bool) \<Rightarrow> nat \<Rightarrow> infer_service list \<Rightarrow> nat list \<times> infer_service list" where
  "collect procs ok i [] = ([], [])"
| "collect procs ok i (e # es) =
     (let (cs, es') = collect procs ok (Suc i) es in
      if \<not> ok e then (cs, e # es')
      else if provider_dead procs e then (cs, e\<lparr>is_used := False, is_healthy := False\<rparr> # es')
      else (i # cs, e # es'))"

definition max_load :: "u32 list \<Rightarrow> u32" where
  "max_load ls = fold (\<lambda>l m. if m < l then l else m) ls 0"

definition weights :: "u32 list \<Rightarrow> u32 list" where
  "weights ls = map (\<lambda>l. max_load ls - l + 1) ls"

fun pick_weighted :: "u32 \<Rightarrow> u32 \<Rightarrow> (nat \<times> u32) list \<Rightarrow> nat option" where
  "pick_weighted pick cumulative [] = None"
| "pick_weighted pick cumulative ((c, w) # cws) =
     (if pick < cumulative + w then Some c else pick_weighted pick (cumulative + w) cws)"

fun least_loaded :: "u32 \<Rightarrow> nat option \<Rightarrow> (nat \<times> u32) list \<Rightarrow> nat option" where
  "least_loaded best chosen [] = chosen"
| "least_loaded best chosen ((c, l) # cls) =
     (if l < best then least_loaded l (Some c) cls else least_loaded best chosen cls)"

text \<open>The policy switch over the candidates with their loads; the result is the chosen entry, none for -1.\<close>

definition choose_provider :: "u8 \<Rightarrow> u32 \<Rightarrow> (nat \<times> u32) list \<Rightarrow> nat option" where
  "choose_provider policy rr cls =
     (if policy = INFER_ROUTE_ROUND_ROBIN then Some (fst (cls ! (unat rr mod length cls)))
      else if policy = INFER_ROUTE_WEIGHTED then
        (let ws = weights (map snd cls); total_weight = fold (+) ws 0;
             pick = rr mod (if total_weight \<noteq> 0 then total_weight else 1) in
         case pick_weighted pick 0 (zip (map fst cls) ws) of
           Some c \<Rightarrow> Some c
         | None \<Rightarrow> Some (fst (last cls)))
      else least_loaded 0xFFFFFFFF None cls)"

definition next_rr :: "u8 \<Rightarrow> u32 \<Rightarrow> u32" where
  "next_rr policy rr = (if policy = INFER_ROUTE_ROUND_ROBIN \<or> policy = INFER_ROUTE_WEIGHTED then rr + 1 else rr)"

definition route :: "proc_info \<Rightarrow> (infer_service \<Rightarrow> bool) \<Rightarrow> infer_reg \<Rightarrow> nat ret \<times> infer_reg" where
  "route procs ok s =
     (let (cands, t) = collect procs ok 0 (ir_table s) in
      if cands = [] then (Inl ENOENT, s\<lparr>ir_table := t\<rparr>)
      else let chosen = choose_provider (ir_policy s) (ir_rr s) (map (\<lambda>i. (i, is_load (t ! i))) cands);
               s' = s\<lparr>ir_table := t, ir_rr := next_rr (ir_policy s) (ir_rr s)\<rparr> in
        case chosen of
          None \<Rightarrow> (Inl EGENERIC, s')
        | Some i \<Rightarrow> (Inr i, s'\<lparr>ir_table := t[i := (t ! i)\<lparr>is_requests := is_requests (t ! i) + 1\<rparr>]\<rparr>))"

definition infer_route :: "proc_info \<Rightarrow> string \<Rightarrow> infer_reg \<Rightarrow> nat ret \<times> infer_reg" where
  "infer_route procs name s = route procs (serves name) s"

definition infer_route_ns :: "proc_info \<Rightarrow> string \<Rightarrow> u32 \<Rightarrow> infer_reg \<Rightarrow> nat ret \<times> infer_reg" where
  "infer_route_ns procs name ns s = route procs (serves_ns name ns) s"

section \<open>The candidates\<close>

definition eligible :: "proc_info \<Rightarrow> (infer_service \<Rightarrow> bool) \<Rightarrow> infer_service list \<Rightarrow> nat list" where
  "eligible procs ok t = filter (\<lambda>i. ok (t ! i) \<and> \<not> provider_dead procs (t ! i)) [0..<length t]"

definition swept :: "proc_info \<Rightarrow> (infer_service \<Rightarrow> bool) \<Rightarrow> infer_service \<Rightarrow> infer_service" where
  "swept procs ok e = (if ok e \<and> provider_dead procs e then e\<lparr>is_used := False, is_healthy := False\<rparr> else e)"

lemma filter_upt_shift: "filter P [Suc i..<Suc i + n] = map Suc (filter (\<lambda>j. P (Suc j)) [i..<i + n])"
proof -
  have "[Suc i..<Suc i + n] = map Suc [i..<i + n]" by (simp add: map_Suc_upt)
  then show ?thesis by (simp only: filter_map comp_def)
qed

lemma collect_eq:
  "collect procs ok i es =
     (map (\<lambda>j. i + j) (eligible procs ok es), map (swept procs ok) es)"
proof (induction es arbitrary: i)
  case (Cons e es)
  have "[0..<length (e # es)] = 0 # map Suc [0..<length es]" by (simp add: upt_conv_Cons map_Suc_upt del: upt_Suc)
  then have "eligible procs ok (e # es) =
      (if ok e \<and> \<not> provider_dead procs e then [0] else []) @ map Suc (eligible procs ok es)"
    by (simp add: eligible_def filter_map comp_def)
  then show ?case using Cons.IH [of "Suc i"] by (auto simp: swept_def Let_def split: prod.splits)
qed (simp add: eligible_def)

lemma eligible_lt: "i \<in> set (eligible procs ok t) \<longleftrightarrow> i < length t \<and> ok (t ! i) \<and> \<not> provider_dead procs (t ! i)"
  by (auto simp: eligible_def)

lemma eligible_swept: "i \<in> set (eligible procs ok t) \<Longrightarrow> map (swept procs ok) t ! i = t ! i"
  by (auto simp: eligible_lt swept_def)

text \<open>The candidates with their loads.\<close>

definition offers :: "proc_info \<Rightarrow> (infer_service \<Rightarrow> bool) \<Rightarrow> infer_service list \<Rightarrow> (nat \<times> u32) list" where
  "offers procs ok t = map (\<lambda>i. (i, is_load (t ! i))) (eligible procs ok t)"

lemma route_eq:
  "route procs ok s =
     (let cls = offers procs ok (ir_table s); t = map (swept procs ok) (ir_table s) in
      if cls = [] then (Inl ENOENT, s\<lparr>ir_table := t\<rparr>)
      else let s' = s\<lparr>ir_table := t, ir_rr := next_rr (ir_policy s) (ir_rr s)\<rparr> in
        case choose_provider (ir_policy s) (ir_rr s) cls of
          None \<Rightarrow> (Inl EGENERIC, s')
        | Some i \<Rightarrow> (Inr i, s'\<lparr>ir_table := t[i := (t ! i)\<lparr>is_requests := is_requests (t ! i) + 1\<rparr>]\<rparr>))"
proof -
  have "map (\<lambda>i. (i, is_load (map (swept procs ok) (ir_table s) ! i))) (eligible procs ok (ir_table s))
      = offers procs ok (ir_table s)"
    unfolding offers_def by (rule map_cong) (simp_all add: eligible_swept)
  note e = this
  have n: "offers procs ok (ir_table s) = [] \<longleftrightarrow> eligible procs ok (ir_table s) = []" by (simp add: offers_def)
  show ?thesis by (simp add: route_def collect_eq Let_def e n)
qed

text \<open>The least loaded choice is the first candidate of minimal load, none if all loads are at the maximum.\<close>

lemma least_loaded_none: "\<forall>x \<in> set cls. best \<le> snd x \<Longrightarrow> least_loaded best chosen cls = chosen"
  by (induction cls) auto

lemma least_loaded_some:
  assumes "\<exists>x \<in> set cls. snd x < best"
  obtains k where "k < length cls" "least_loaded best chosen cls = Some (fst (cls ! k))" "snd (cls ! k) < best"
    "\<And>j. j < length cls \<Longrightarrow> snd (cls ! k) \<le> snd (cls ! j)" "\<And>j. j < k \<Longrightarrow> snd (cls ! k) < snd (cls ! j)"
proof -
  have "\<exists>k < length cls. least_loaded best chosen cls = Some (fst (cls ! k)) \<and> snd (cls ! k) < best
     \<and> (\<forall>j < length cls. snd (cls ! k) \<le> snd (cls ! j)) \<and> (\<forall>j < k. snd (cls ! k) < snd (cls ! j))"
    using assms
  proof (induction cls arbitrary: best chosen)
    case (Cons x cls)
    obtain c l where x: "x = (c, l)" by fastforce
    define b where "b = (if l < best then l else best)"
    define ch where "ch = (if l < best then Some c else chosen)"
    have st: "least_loaded best chosen (x # cls) = least_loaded b ch cls" by (simp add: x b_def ch_def)
    show ?case
    proof (cases "\<exists>y \<in> set cls. snd y < b")
      case True
      from Cons.IH [OF True, of ch] obtain k where k: "k < length cls" "least_loaded b ch cls = Some (fst (cls ! k))"
        "snd (cls ! k) < b" "\<forall>j < length cls. snd (cls ! k) \<le> snd (cls ! j)" "\<forall>j < k. snd (cls ! k) < snd (cls ! j)" by blast
      have "snd (cls ! k) < l" "snd (cls ! k) < best" using k(3) by (auto simp: b_def split: if_splits)
      then show ?thesis using k st x by (intro exI [of _ "Suc k"]) (auto simp: nth_Cons split: nat.splits)
    next
      case False
      then have le: "\<forall>y \<in> set cls. b \<le> snd y" by auto
      have lb: "l < best" using Cons.prems False x by (auto simp: b_def split: if_splits)
      then have "least_loaded best chosen (x # cls) = Some c" using least_loaded_none [OF le, of ch] st by (simp add: ch_def)
      moreover have "l \<le> snd ((x # cls) ! j)" if "j < length (x # cls)" for j
        using le lb that x by (cases j) (auto simp: b_def)
      ultimately show ?thesis using lb x by (intro exI [of _ 0]) auto
    qed
  qed simp
  then show ?thesis using that by blast
qed

lemma offers_set: "set (offers procs ok t) = (\<lambda>i. (i, is_load (t ! i))) ` set (eligible procs ok t)"
  by (simp add: offers_def)

lemma offers_nth: "k < length (offers procs ok t) \<Longrightarrow> fst (offers procs ok t ! k) \<in> set (eligible procs ok t)
    \<and> snd (offers procs ok t ! k) = is_load (t ! fst (offers procs ok t ! k))"
  by (auto simp: offers_def)

lemma pick_weighted_mem: "pick_weighted p cu cws = Some c \<Longrightarrow> c \<in> fst ` set cws"
  by (induction p cu cws rule: pick_weighted.induct) (auto split: if_splits)

lemma choose_mem:
  assumes "cls \<noteq> []" "choose_provider pol rr cls = Some c"
  shows "c \<in> fst ` set cls"
proof -
  consider "pol = INFER_ROUTE_ROUND_ROBIN" | "pol \<noteq> INFER_ROUTE_ROUND_ROBIN" "pol = INFER_ROUTE_WEIGHTED"
    | "pol \<noteq> INFER_ROUTE_ROUND_ROBIN" "pol \<noteq> INFER_ROUTE_WEIGHTED" by blast
  then show ?thesis
  proof cases
    case 1
    then show ?thesis using assms by (auto simp: choose_provider_def)
  next
    case 2
    have "fst ` set (zip (map fst cls) (weights (map snd cls))) \<subseteq> fst ` set cls"
      by (auto dest: set_zip_leftD)
    moreover have "fst (last cls) \<in> fst ` set cls" using assms(1) by simp
    ultimately show ?thesis using 2 assms(2) by (auto simp: choose_provider_def Let_def split: option.splits dest!: pick_weighted_mem)
  next
    case 3
    then have l: "least_loaded 0xFFFFFFFF None cls = Some c" using assms(2) by (simp add: choose_provider_def)
    have "\<exists>x \<in> set cls. snd x < 0xFFFFFFFF"
      using least_loaded_none [of cls "0xFFFFFFFF" None] l by (metis linorder_not_less option.distinct(1))
    then show ?thesis using least_loaded_some [of cls "0xFFFFFFFF" None] l by (metis imageI nth_mem option.inject)
  qed
qed

lemma choose_none:
  assumes "cls \<noteq> []"
  shows "choose_provider pol rr cls = None \<longleftrightarrow>
     pol \<notin> {INFER_ROUTE_ROUND_ROBIN, INFER_ROUTE_WEIGHTED} \<and> (\<forall>x \<in> set cls. snd x = 0xFFFFFFFF)"
proof (cases "pol \<in> {INFER_ROUTE_ROUND_ROBIN, INFER_ROUTE_WEIGHTED}")
  case True
  then show ?thesis by (auto simp: choose_provider_def Let_def split: option.splits)
next
  case False
  have top: "l = 0xFFFFFFFF" if "0xFFFFFFFF \<le> l" for l :: u32
  proof -
    have m: "(0xFFFFFFFF :: u32) = - 1" by simp
    show ?thesis using that word_order.extremum_unique [of l] unfolding m by simp
  qed
  have "least_loaded 0xFFFFFFFF None cls = None \<longleftrightarrow> (\<forall>x \<in> set cls. 0xFFFFFFFF \<le> snd x)"
    using least_loaded_none [of cls "0xFFFFFFFF" None] least_loaded_some [of cls "0xFFFFFFFF" None]
    by (metis linorder_not_less option.distinct(1))
  then show ?thesis using False top by (auto simp: choose_provider_def)
qed

lemma choose_least:
  assumes "choose_provider INFER_ROUTE_LEAST_LOADED rr (offers procs ok t) = Some i" "j \<in> set (eligible procs ok t)"
  shows "is_load (t ! i) \<le> is_load (t ! j)"
proof -
  let ?cls = "offers procs ok t"
  have l: "least_loaded 0xFFFFFFFF None ?cls = Some i"
    using assms(1) by (simp add: choose_provider_def INFER_ROUTE_LEAST_LOADED_def INFER_ROUTE_ROUND_ROBIN_def INFER_ROUTE_WEIGHTED_def)
  then have ex: "\<exists>x \<in> set ?cls. snd x < 0xFFFFFFFF"
    using least_loaded_none [of ?cls "0xFFFFFFFF" None] by (metis linorder_not_less option.distinct(1))
  obtain k where k: "k < length ?cls" "least_loaded 0xFFFFFFFF None ?cls = Some (fst (?cls ! k))"
    "\<And>j. j < length ?cls \<Longrightarrow> snd (?cls ! k) \<le> snd (?cls ! j)"
    by (rule least_loaded_some [OF ex, of None]) (rule that)
  have "(j, is_load (t ! j)) \<in> set ?cls" using assms(2) by (simp add: offers_set)
  then obtain m where "m < length ?cls" "?cls ! m = (j, is_load (t ! j))" by (auto simp: in_set_conv_nth)
  then show ?thesis using k l offers_nth [OF k(1)] by fastforce
qed

section \<open>Fairness\<close>

lemma mset_mod_window: "0 < w \<Longrightarrow> mset (map (\<lambda>p. p mod w) [r..<r + w]) = mset [0..<w]" for w :: nat
proof (induction r)
  case 0
  have "map (\<lambda>p. p mod w) [0..<w] = [0..<w]" by (rule map_idI) simp
  then show ?case by simp
next
  case (Suc r)
  have "[r..<r + w] = r # [Suc r..<r + w]" using Suc.prems by (simp add: upt_conv_Cons)
  moreover have "[Suc r..<Suc r + w] = [Suc r..<r + w] @ [r + w]" using Suc.prems by simp
  ultimately show ?case using Suc by simp
qed

lemma pick_weighted_spread:
  fixes cws :: "(nat \<times> u32) list"
  assumes "cu + sum_list (map (\<lambda>x. unat (snd x)) cws) < 4294967296"
  shows "map (\<lambda>p. pick_weighted (word_of_nat p) (word_of_nat cu) cws) [cu..<cu + sum_list (map (\<lambda>x. unat (snd x)) cws)]
     = concat (map (\<lambda>(c, w). replicate (unat w) (Some c)) cws)"
  using assms
proof (induction cws arbitrary: cu)
  case (Cons x cws)
  obtain c w where x: "x = (c, w)" by fastforce
  let ?S = "sum_list (map (\<lambda>x. unat (snd x)) cws)"
  have b: "cu + unat w + ?S < 4294967296" using Cons.prems by (simp add: x)
  have u: "unat (word_of_nat n :: u32) = n" if "n < 4294967296" for n using that by (simp add: unat_of_nat take_bit_nat_eq_self)
  have cw: "word_of_nat cu + w = word_of_nat (cu + unat w)" by simp
  have lt: "(word_of_nat p :: u32) < word_of_nat cu + w \<longleftrightarrow> p < cu + unat w" if "p < 4294967296" for p
    unfolding cw word_less_nat_alt using u [OF that] u [of "cu + unat w"] b by simp
  have step: "pick_weighted (word_of_nat p) (word_of_nat cu) (x # cws) =
      (if p < cu + unat w then Some c else pick_weighted (word_of_nat p) (word_of_nat (cu + unat w)) cws)"
    if "p < 4294967296" for p
    unfolding x pick_weighted.simps lt [OF that] unfolding cw ..
  have "[cu..<cu + (unat w + ?S)] = [cu..<cu + unat w] @ [cu + unat w..<cu + unat w + ?S]"
    using upt_add_eq_append [of cu "cu + unat w" ?S] by (simp add: add.assoc)
  moreover have "map (\<lambda>p. pick_weighted (word_of_nat p) (word_of_nat cu) (x # cws)) [cu..<cu + unat w] = replicate (unat w) (Some c)"
  proof -
    have "map (\<lambda>p. pick_weighted (word_of_nat p) (word_of_nat cu) (x # cws)) [cu..<cu + unat w] = map (\<lambda>_. Some c) [cu..<cu + unat w]"
    proof (rule map_cong [OF refl])
      fix p assume "p \<in> set [cu..<cu + unat w]"
      then have "p < cu + unat w" "p < 4294967296" using b by auto
      then show "pick_weighted (word_of_nat p) (word_of_nat cu) (x # cws) = Some c" unfolding step [OF \<open>p < 4294967296\<close>] by (simp only: if_True)
    qed
    then show ?thesis by (simp only: map_replicate_const length_upt) simp
  qed
  moreover have "map (\<lambda>p. pick_weighted (word_of_nat p) (word_of_nat cu) (x # cws)) [cu + unat w..<cu + unat w + ?S]
      = map (\<lambda>p. pick_weighted (word_of_nat p) (word_of_nat (cu + unat w)) cws) [cu + unat w..<cu + unat w + ?S]"
  proof (rule map_cong [OF refl])
    fix p assume "p \<in> set [cu + unat w..<cu + unat w + ?S]"
    then have "\<not> p < cu + unat w" "p < 4294967296" using b by auto
    then show "pick_weighted (word_of_nat p) (word_of_nat cu) (x # cws) = pick_weighted (word_of_nat p) (word_of_nat (cu + unat w)) cws"
      unfolding step [OF \<open>p < 4294967296\<close>] by (simp only: if_False)
  qed
  ultimately have "map (\<lambda>p. pick_weighted (word_of_nat p) (word_of_nat cu) (x # cws)) [cu..<cu + (unat w + ?S)]
      = replicate (unat w) (Some c) @ concat (map (\<lambda>(c, w). replicate (unat w) (Some c)) cws)"
    using Cons.IH [of "cu + unat w"] b by (simp only: map_append)
  then show ?case by (simp only: x list.map sum_list.Cons snd_conv concat.simps prod.case)
qed simp

lemma count_shares:
  assumes "inj g" and "distinct ns" "j \<in> set ns"
  shows "count_list (concat (map (\<lambda>i. replicate (f i) (g i)) ns)) (g j) = f j"
  using assms(2,3)
proof (induction ns)
  case (Cons i ns)
  have r: "count_list (replicate n (g i)) (g j) = (if i = j then n else 0)" for n
    using \<open>inj g\<close> by (induction n) (auto simp: inj_eq)
  have z: "count_list (concat (map (\<lambda>i. replicate (f i) (g i)) ks)) (g j) = 0" if "j \<notin> set ks" for ks
  proof -
    have "g j \<notin> set (concat (map (\<lambda>i. replicate (f i) (g i)) ks))" using that \<open>inj g\<close> by (auto simp: inj_eq)
    then show ?thesis by (rule count_notin)
  qed
  show ?case using Cons r z by (cases "i = j") (auto simp: count_list_append)
qed simp

definition total_share :: "u32 list \<Rightarrow> nat" where
  "total_share ls = sum_list (map (\<lambda>l. unat (max_load ls - l) + 1) ls)"

lemma weights_unat:
  assumes "total_share ls < 4294967296"
  shows "map unat (weights ls) = map (\<lambda>l. unat (max_load ls - l) + 1) ls"
    and "unat (fold (+) (weights ls) 0) = total_share ls"
proof -
  have "unat (max_load ls - l + 1) = unat (max_load ls - l) + 1" if "l \<in> set ls" for l
  proof -
    have "unat (max_load ls - l) + 1 \<le> total_share ls"
      unfolding total_share_def by (rule member_le_sum_list) (use that in auto)
    then show ?thesis using assms by (simp add: unat_word_ariths)
  qed
  then show w: "map unat (weights ls) = map (\<lambda>l. unat (max_load ls - l) + 1) ls" by (simp add: weights_def)
  have f: "a + sum_list (map unat ws) < 4294967296 \<Longrightarrow> unat (fold (+) ws (word_of_nat a)) = a + sum_list (map unat ws)"
    for ws :: "u32 list" and a
  proof (induction ws arbitrary: a)
    case Nil
    then show ?case by (simp add: unat_of_nat take_bit_nat_eq_self)
  next
    case (Cons w ws)
    have "w + word_of_nat a = word_of_nat (unat w + a)" by simp
    then show ?case using Cons.IH [of "unat w + a"] Cons.prems by (simp add: add.commute add.left_commute)
  qed
  show "unat (fold (+) (weights ls) 0) = total_share ls" using f [of 0 "weights ls"] assms w by (simp add: total_share_def)
qed

lemma mod_window:
  fixes rr :: u32
  assumes "unat rr + w \<le> 4294967296" "k < w" "0 < w" "w < 4294967296"
  shows "(rr + word_of_nat k) mod word_of_nat w = (word_of_nat ((unat rr + k) mod w) :: u32)"
    and "unat (rr + word_of_nat k) = unat rr + k"
proof -
  have u: "unat (word_of_nat n :: u32) = n" if "n < 4294967296" for n using that by (simp add: unat_of_nat take_bit_nat_eq_self)
  have "unat (word_of_nat k :: u32) = k" using assms by (intro u) simp
  then show s: "unat (rr + word_of_nat k) = unat rr + k" using assms by (simp add: unat_word_ariths)
  have "(unat rr + k) mod w < 4294967296" using mod_less_divisor [OF assms(3), of "unat rr + k"] assms(4) by linarith
  then have "unat ((rr + word_of_nat k) mod word_of_nat w) = unat (word_of_nat ((unat rr + k) mod w) :: u32)"
    using s u assms(4) by (simp add: unat_mod)
  then show "(rr + word_of_nat k) mod word_of_nat w = (word_of_nat ((unat rr + k) mod w) :: u32)"
    by (rule unsigned_word_eqI)
qed

definition share :: "u8 \<Rightarrow> u32 list \<Rightarrow> u32 \<Rightarrow> nat" where
  "share policy ls l = (if policy = INFER_ROUTE_ROUND_ROBIN then 1 else unat (max_load ls - l) + 1)"

lemma weighted_window:
  assumes ne: "cls \<noteq> []" and W: "total_share (map snd cls) < 4294967296" "unat rr + total_share (map snd cls) \<le> 4294967296"
  shows "mset (map (\<lambda>k. choose_provider INFER_ROUTE_WEIGHTED (rr + word_of_nat k) cls) [0..<total_share (map snd cls)])
     = mset (concat (map (\<lambda>(c, l). replicate (unat (max_load (map snd cls) - l) + 1) (Some c)) cls))"
proof -
  let ?ls = "map snd cls" and ?W = "total_share (map snd cls)"
  define cws where "cws = zip (map fst cls) (weights ?ls)"
  have len: "length (weights ?ls) = length cls" by (simp add: weights_def)
  have sw: "sum_list (map (\<lambda>x. unat (snd x)) cws) = ?W"
  proof -
    have "map (\<lambda>x. unat (snd x)) cws = map unat (map snd cws)" by simp
    also have "map snd cws = weights ?ls" by (simp add: cws_def len)
    finally show ?thesis using weights_unat(1) [OF W(1)] by (simp add: total_share_def)
  qed
  have pos: "0 < ?W" using ne by (cases cls) (auto simp: total_share_def)
  have tot: "fold (+) (weights ?ls) 0 = word_of_nat ?W"
  proof -
    have "word_of_nat (unat (fold (+) (weights ?ls) 0)) = fold (+) (weights ?ls) 0" by simp
    then show ?thesis unfolding weights_unat(2) [OF W(1)] by (rule sym)
  qed
  have tn: "(word_of_nat ?W :: u32) \<noteq> 0"
  proof
    assume "(word_of_nat ?W :: u32) = 0"
    then have "unat (fold (+) (weights ?ls) 0) = 0" unfolding tot by (simp only: unsigned_0)
    then show False using pos unfolding weights_unat(2) [OF W(1)] by (simp only: less_irrefl)
  qed
  note sp = pick_weighted_spread [of 0 cws, unfolded sw, simplified, OF W(1)]
  have ch: "choose_provider INFER_ROUTE_WEIGHTED (rr + word_of_nat k) cls = pick_weighted (word_of_nat ((unat rr + k) mod ?W)) 0 cws"
    if k: "k < ?W" for k
  proof -
    have "pick_weighted (word_of_nat ((unat rr + k) mod ?W)) 0 cws \<in> set (map (\<lambda>p. pick_weighted (word_of_nat p) 0 cws) [0..<?W])"
      using mod_less_divisor [OF pos] by auto
    then have "pick_weighted (word_of_nat ((unat rr + k) mod ?W)) 0 cws \<noteq> None" unfolding sp by (auto split: prod.splits)
    then show ?thesis using mod_window(1) [OF W(2) k pos W(1)] tn
      by (auto simp: choose_provider_def Let_def INFER_ROUTE_WEIGHTED_def INFER_ROUTE_ROUND_ROBIN_def tot cws_def)
  qed
  have "map (\<lambda>k. choose_provider INFER_ROUTE_WEIGHTED (rr + word_of_nat k) cls) [0..<?W]
      = map (\<lambda>p. pick_weighted (word_of_nat p) 0 cws) (map (\<lambda>p. p mod ?W) [unat rr..<unat rr + ?W])"
    using ch by (auto simp: list_eq_iff_nth_eq add.commute)
  then have "mset (map (\<lambda>k. choose_provider INFER_ROUTE_WEIGHTED (rr + word_of_nat k) cls) [0..<?W])
      = image_mset (\<lambda>p. pick_weighted (word_of_nat p) 0 cws) (mset (map (\<lambda>p. p mod ?W) [unat rr..<unat rr + ?W]))"
    by (simp only: mset_map)
  also have "\<dots> = mset (map (\<lambda>p. pick_weighted (word_of_nat p) 0 cws) [0..<?W])"
    unfolding mset_mod_window [OF pos] by (simp only: mset_map)
  also have "\<dots> = mset (concat (map (\<lambda>(c, w). replicate (unat w) (Some c)) cws))" unfolding sp ..
  also have "map (\<lambda>(c, w). replicate (unat w) (Some c)) cws = map (\<lambda>(c, l). replicate (unat (max_load ?ls - l) + 1) (Some c)) cls"
    using weights_unat(1) [OF W(1)] len by (auto simp: list_eq_iff_nth_eq cws_def split: prod.splits)
  finally show ?thesis .
qed

lemma round_robin_window:
  assumes ne: "cls \<noteq> []" and W: "length cls < 4294967296" "unat rr + length cls \<le> 4294967296"
  shows "mset (map (\<lambda>k. choose_provider INFER_ROUTE_ROUND_ROBIN (rr + word_of_nat k) cls) [0..<length cls]) = mset (map (Some \<circ> fst) cls)"
proof -
  have pos: "0 < length cls" using ne by simp
  have ch: "choose_provider INFER_ROUTE_ROUND_ROBIN (rr + word_of_nat k) cls = Some (fst (cls ! ((unat rr + k) mod length cls)))"
    if "k < length cls" for k
    unfolding choose_provider_def mod_window(2) [OF W(2) that pos W(1)] by (simp only: if_True simp_thms)
  have sh: "[unat rr..<unat rr + length cls] = map (\<lambda>k. unat rr + k) [0..<length cls]"
    using map_add_upt [of "unat rr" "length cls"] by (simp add: add.commute)
  have "map (\<lambda>k. choose_provider INFER_ROUTE_ROUND_ROBIN (rr + word_of_nat k) cls) [0..<length cls]
      = map (\<lambda>k. Some (fst (cls ! ((unat rr + k) mod length cls)))) [0..<length cls]"
    by (rule map_cong [OF refl]) (rule ch, simp)
  then have "map (\<lambda>k. choose_provider INFER_ROUTE_ROUND_ROBIN (rr + word_of_nat k) cls) [0..<length cls]
      = map (\<lambda>p. Some (fst (cls ! p))) (map (\<lambda>p. p mod length cls) [unat rr..<unat rr + length cls])"
    unfolding sh by (simp only: map_map comp_def)
  then have "mset (map (\<lambda>k. choose_provider INFER_ROUTE_ROUND_ROBIN (rr + word_of_nat k) cls) [0..<length cls])
      = image_mset (\<lambda>p. Some (fst (cls ! p))) (mset (map (\<lambda>p. p mod length cls) [unat rr..<unat rr + length cls]))"
    by (simp only: mset_map)
  also have "\<dots> = mset (map (\<lambda>p. Some (fst (cls ! p))) [0..<length cls])"
    unfolding mset_mod_window [OF pos] by (simp only: mset_map)
  also have "map (\<lambda>p. Some (fst (cls ! p))) [0..<length cls] = map (Some \<circ> fst) cls"
  proof -
    have "map (Some \<circ> fst) (map ((!) cls) [0..<length cls]) = map (Some \<circ> fst) cls" unfolding map_nth ..
    then show ?thesis by (simp only: map_map comp_def)
  qed
  finally show ?thesis .
qed

lemma choice_window:
  assumes ne: "cls \<noteq> []" and pol: "pol = INFER_ROUTE_ROUND_ROBIN \<or> pol = INFER_ROUTE_WEIGHTED"
  defines "n \<equiv> sum_list (map (share pol (map snd cls)) (map snd cls))"
  assumes W: "n < 4294967296" "unat rr + n \<le> 4294967296"
  shows "mset (map (\<lambda>k. choose_provider pol (rr + word_of_nat k) cls) [0..<n])
     = mset (concat (map (\<lambda>x. replicate (share pol (map snd cls) (snd x)) (Some (fst x))) cls))"
proof (cases "pol = INFER_ROUTE_ROUND_ROBIN")
  case True
  then have "n = length cls" by (simp add: n_def share_def sum_list_triv comp_def)
  then show ?thesis using round_robin_window [OF ne] W True by (simp add: share_def comp_def)
next
  case False
  then have p: "pol = INFER_ROUTE_WEIGHTED" "n = total_share (map snd cls)"
    using pol by (simp_all add: n_def share_def [abs_def] total_share_def)
  then show ?thesis using weighted_window [OF ne, unfolded case_prod_beta] W False by (simp add: share_def)
qed

fun route_n :: "proc_info \<Rightarrow> string \<Rightarrow> u32 \<Rightarrow> nat \<Rightarrow> infer_reg \<Rightarrow> nat ret list" where
  "route_n procs name ns 0 s = []"
| "route_n procs name ns (Suc n) s = (case infer_route_ns procs name ns s of (r, s') \<Rightarrow> r # route_n procs name ns n s')"

lemma offers_kept:
  assumes "length t' = length t"
    and "\<And>j. j < length t \<Longrightarrow> t' ! j = (let e = swept procs (serves_ns name ns) (t ! j) in if P j then e\<lparr>is_requests := n j\<rparr> else e)"
  shows "offers procs (serves_ns name ns) t' = offers procs (serves_ns name ns) t"
proof -
  let ?ok = "serves_ns name ns"
  have "eligible procs ?ok t' = eligible procs ?ok t"
    unfolding eligible_def assms(1)
    by (rule filter_cong [OF refl])
      (auto simp: assms(2) Let_def swept_def serves_ns_def serves_def provider_dead_def split: if_splits)
  moreover have "is_load (t' ! i) = is_load (t ! i)" if "i \<in> set (eligible procs ?ok t)" for i
    using that assms(2) by (auto simp: eligible_lt Let_def swept_def)
  ultimately show ?thesis by (simp add: offers_def)
qed

lemma route_entries:
  assumes "route procs ok s = (r, s')" "j < length (ir_table s)"
  shows "length (ir_table s') = length (ir_table s)"
    "ir_table s' ! j = (let e = swept procs ok (ir_table s ! j) in if r = Inr j then e\<lparr>is_requests := is_requests e + 1\<rparr> else e)"
  using assms by (auto simp: route_eq Let_def nth_list_update_if split: if_splits option.splits)

lemma route_step:
  assumes ne: "offers procs (serves_ns name ns) (ir_table s) \<noteq> []"
    and pol: "ir_policy s = INFER_ROUTE_ROUND_ROBIN \<or> ir_policy s = INFER_ROUTE_WEIGHTED"
    and r: "infer_route_ns procs name ns s = (r, s')"
  shows "ir_policy s' = ir_policy s" "ir_rr s' = ir_rr s + 1"
    "r = (case choose_provider (ir_policy s) (ir_rr s) (offers procs (serves_ns name ns) (ir_table s)) of Some i \<Rightarrow> Inr i | None \<Rightarrow> Inl EGENERIC)"
    "offers procs (serves_ns name ns) (ir_table s') = offers procs (serves_ns name ns) (ir_table s)"
proof -
  show "ir_policy s' = ir_policy s" "ir_rr s' = ir_rr s + 1"
    "r = (case choose_provider (ir_policy s) (ir_rr s) (offers procs (serves_ns name ns) (ir_table s)) of Some i \<Rightarrow> Inr i | None \<Rightarrow> Inl EGENERIC)"
    using ne pol r by (auto simp: infer_route_ns_def route_eq Let_def next_rr_def split: option.splits)
  have rt: "route procs (serves_ns name ns) s = (r, s')" using r by (simp add: infer_route_ns_def)
  have "ir_table s \<noteq> []" using ne by (auto simp: offers_def eligible_def)
  then show "offers procs (serves_ns name ns) (ir_table s') = offers procs (serves_ns name ns) (ir_table s)"
    using route_entries [OF rt]
    by (intro offers_kept [where P = "\<lambda>j. r = Inr j" and n = "\<lambda>j. is_requests (swept procs (serves_ns name ns) (ir_table s ! j)) + 1"])
      (auto simp: Let_def)
qed

lemma route_n_eq:
  assumes "offers procs (serves_ns name ns) (ir_table s) = cls" "cls \<noteq> []"
    and "ir_policy s = INFER_ROUTE_ROUND_ROBIN \<or> ir_policy s = INFER_ROUTE_WEIGHTED"
  shows "route_n procs name ns n s =
     map (\<lambda>k. case choose_provider (ir_policy s) (ir_rr s + word_of_nat k) cls of Some i \<Rightarrow> Inr i | None \<Rightarrow> Inl EGENERIC) [0..<n]"
  using assms
proof (induction n arbitrary: s)
  case (Suc n)
  obtain r s' where r: "infer_route_ns procs name ns s = (r, s')" by fastforce
  note st = route_step [OF _ Suc.prems(3) r, unfolded Suc.prems(1), OF Suc.prems(2)]
  have "[0..<Suc n] = 0 # map Suc [0..<n]" by (simp add: upt_conv_Cons map_Suc_upt del: upt_Suc)
  moreover have "ir_rr s + 1 + word_of_nat k = ir_rr s + word_of_nat (Suc k)" for k by simp
  ultimately show ?case
    using Suc.IH [OF st(4) Suc.prems(2)] Suc.prems(3) st(1-3) r by (simp add: comp_def add.assoc del: upt_Suc)
qed simp

section \<open>Properties\<close>

text \<open>C10: Routing within a namespace chooses a live, healthy provider of the service, visible in that namespace,
and reports ENOENT exactly if there is none; with the default policy the chosen provider has the least
load. The only other outcome is -1 although providers exist, exactly when the policy is least-loaded
and every provider reports the load 2^32-1. Entries of dead providers of the service are released, the
request counter of the chosen one is incremented and no other entry changes.\<close>

theorem infer_route_exact:
  "case infer_route_ns procs name ns s of (r, s') \<Rightarrow>
     let t = ir_table s; C = {i. i < length t \<and> serves_ns name ns (t ! i) \<and> \<not> provider_dead procs (t ! i)} in
     (r = Inl ENOENT \<longleftrightarrow> C = {})
     \<and> (\<forall>i. r = Inr i \<longrightarrow> i \<in> C \<and> (ir_policy s = INFER_ROUTE_LEAST_LOADED \<longrightarrow> (\<forall>j \<in> C. is_load (t ! i) \<le> is_load (t ! j))))
     \<and> (r = Inl EGENERIC \<longleftrightarrow> C \<noteq> {} \<and> ir_policy s \<notin> {INFER_ROUTE_ROUND_ROBIN, INFER_ROUTE_WEIGHTED}
           \<and> (\<forall>j \<in> C. is_load (t ! j) = 0xFFFFFFFF))
     \<and> (\<forall>e. r = Inl e \<longrightarrow> e = ENOENT \<or> e = EGENERIC)
     \<and> (\<forall>j < length t. ir_table s' ! j = (let e = swept procs (serves_ns name ns) (t ! j) in
            if r = Inr j then e\<lparr>is_requests := is_requests e + 1\<rparr> else e))"
proof -
  obtain r s' where run: "infer_route_ns procs name ns s = (r, s')" by fastforce
  let ?ok = "serves_ns name ns" and ?t = "ir_table s"
  let ?cls = "offers procs ?ok ?t" and ?C = "{i. i < length ?t \<and> serves_ns name ns (?t ! i) \<and> \<not> provider_dead procs (?t ! i)}"
  have rt: "route procs ?ok s = (r, s')" using run by (simp add: infer_route_ns_def)
  have C: "?C = set (eligible procs ?ok ?t)" by (auto simp: eligible_lt)
  have ne: "?cls = [] \<longleftrightarrow> ?C = {}" unfolding C by (simp add: offers_def)
  have loads: "(\<forall>x \<in> set ?cls. snd x = 0xFFFFFFFF) \<longleftrightarrow> (\<forall>j \<in> ?C. is_load (?t ! j) = 0xFFFFFFFF)"
    unfolding C by (simp add: offers_set)
  have ent: "\<forall>j < length ?t. ir_table s' ! j = (let e = swept procs ?ok (?t ! j) in if r = Inr j then e\<lparr>is_requests := is_requests e + 1\<rparr> else e)"
    using route_entries(2) [OF rt] by blast
  have mem: "i \<in> ?C" if "?cls \<noteq> []" "choose_provider (ir_policy s) (ir_rr s) ?cls = Some i" for i
    using choose_mem [OF that] unfolding C by (auto simp: offers_set)
  have lst: "is_load (?t ! i) \<le> is_load (?t ! j)"
    if "ir_policy s = INFER_ROUTE_LEAST_LOADED" "choose_provider (ir_policy s) (ir_rr s) ?cls = Some i" "j \<in> ?C" for i j
    using choose_least [of "ir_rr s" procs ?ok ?t i j] that unfolding C by simp
  show ?thesis
  proof (cases "?cls = []")
    case True
    then have "r = Inl ENOENT" using rt by (simp add: route_eq)
    then show ?thesis using run True ne ent by (simp add: Let_def)
  next
    case False
    have r: "r = (case choose_provider (ir_policy s) (ir_rr s) ?cls of Some i \<Rightarrow> Inr i | None \<Rightarrow> Inl EGENERIC)"
      using rt False by (auto simp: route_eq Let_def split: option.splits)
    note cn = choose_none [OF False, of "ir_policy s" "ir_rr s", unfolded loads]
    show ?thesis
    proof (cases "choose_provider (ir_policy s) (ir_rr s) ?cls")
      case None
      then show ?thesis using run r cn ne False ent by (simp add: Let_def)
    next
      case (Some i)
      then have ri: "r = Inr i" using r by simp
      show ?thesis using run ri mem [OF False Some] lst [OF _ Some] cn Some ent by (auto simp: Let_def)
    qed
  qed
qed

text \<open>C40: Routing is fair. While the same providers of a service stay available, out of any run of consecutive
requests as long as the sum of the shares, each provider gets exactly its share: one request each
under round robin, and the difference to the highest load plus one under the weighted policy, as long
as the request counter does not wrap around within the run.\<close>

theorem infer_route_fair:
  assumes "ir_policy s = INFER_ROUTE_ROUND_ROBIN \<or> ir_policy s = INFER_ROUTE_WEIGHTED"
    and "i \<in> set (eligible procs (serves_ns name ns) (ir_table s))"
    and "loads = map (\<lambda>j. is_load (ir_table s ! j)) (eligible procs (serves_ns name ns) (ir_table s))"
    and "n = sum_list (map (share (ir_policy s) loads) loads)"
    and "n < 2 ^ 32" and "unat (ir_rr s) + n \<le> 2 ^ 32"
  shows "count_list (route_n procs name ns n s) (Inr i) = share (ir_policy s) loads (is_load (ir_table s ! i))"
proof -
  let ?el = "eligible procs (serves_ns name ns) (ir_table s)" and ?cls = "offers procs (serves_ns name ns) (ir_table s)"
  let ?f = "\<lambda>x. case x of Some i \<Rightarrow> Inr i | None \<Rightarrow> Inl EGENERIC"
  have ls: "map snd ?cls = loads" by (simp add: offers_def assms(3))
  have ne: "?cls \<noteq> []" using assms(2) by (auto simp: offers_def)
  have "mset (route_n procs name ns n s)
      = image_mset ?f (mset (map (\<lambda>k. choose_provider (ir_policy s) (ir_rr s + word_of_nat k) ?cls) [0..<n]))"
    unfolding route_n_eq [OF refl ne assms(1)] by (simp only: mset_map [symmetric] map_map comp_def)
  also have "\<dots> = image_mset ?f (mset (concat (map (\<lambda>x. replicate (share (ir_policy s) loads (snd x)) (Some (fst x))) ?cls)))"
    using choice_window [OF ne assms(1), unfolded ls, folded assms(4)] assms(5,6) by simp
  also have "\<dots> = mset (concat (map (\<lambda>i. replicate (share (ir_policy s) loads (is_load (ir_table s ! i))) (Inr i)) ?el))"
    unfolding mset_map [symmetric] map_concat by (simp add: offers_def comp_def map_replicate)
  finally have e: "mset (route_n procs name ns n s)
      = mset (concat (map (\<lambda>i. replicate (share (ir_policy s) loads (is_load (ir_table s ! i))) (Inr i)) ?el))" .
  have "count_list (concat (map (\<lambda>i. replicate (share (ir_policy s) loads (is_load (ir_table s ! i))) (Inr i)) ?el)) (Inr i :: nat ret)
      = share (ir_policy s) loads (is_load (ir_table s ! i))"
    by (rule count_shares) (use assms(2) in \<open>simp_all add: eligible_def\<close>)
  then show ?thesis unfolding count_mset [symmetric] e .
qed

definition demo_service :: "u64 \<Rightarrow> u32 \<Rightarrow> infer_service" where
  "demo_service pid load = \<lparr>is_name = ''m'', is_path = ''/s'', is_pid = pid, is_load = load, is_heartbeat = 0, is_requests = 0,
     is_ns = 0, is_healthy = True, is_used = True\<rparr>"

definition demo_reg :: "u8 \<Rightarrow> infer_reg" where
  "demo_reg policy = \<lparr>ir_table = [demo_service 7 5, demo_service 8 3, demo_service 9 4], ir_policy = policy, ir_rr = 0\<rparr>"

definition demo_procs :: proc_info where
  "demo_procs pid = Some (0, pid = 9)"

theorem infer_route_exact_witness:
  "fst (infer_route_ns demo_procs ''m'' 0 (demo_reg 0)) = Inr 1 \<and> is_load (ir_table (demo_reg 0) ! 1) \<le> is_load (ir_table (demo_reg 0) ! 0)"
proof -
  have r: "fst (infer_route_ns demo_procs ''m'' 0 (demo_reg 0)) = Inr 1"
    by (simp add: infer_route_ns_def route_def demo_reg_def demo_service_def demo_procs_def serves_ns_def serves_def str_eq_iff cstr_def
        provider_dead_def choose_provider_def INFER_ROUTE_ROUND_ROBIN_def INFER_ROUTE_WEIGHTED_def)
  have z: "serves_ns ''m'' 0 (ir_table (demo_reg 0) ! 0)" "\<not> provider_dead demo_procs (ir_table (demo_reg 0) ! 0)" "0 < length (ir_table (demo_reg 0))"
    "ir_policy (demo_reg 0) = INFER_ROUTE_LEAST_LOADED"
    by (simp_all add: demo_reg_def demo_service_def demo_procs_def serves_ns_def serves_def str_eq_iff cstr_def provider_dead_def INFER_ROUTE_LEAST_LOADED_def)
  from infer_route_exact [where procs = demo_procs and name = "''m''" and ns = 0 and s = "demo_reg 0"] r z show ?thesis
    by (cases "infer_route_ns demo_procs ''m'' 0 (demo_reg 0)") (auto simp: Let_def)
qed

theorem infer_route_fair_witness:
  "count_list (route_n demo_procs ''m'' 0 4 (demo_reg 2)) (Inr 1) = 3"
proof -
  have el: "eligible demo_procs (serves_ns ''m'' 0) (ir_table (demo_reg 2)) = [0, 1]"
    by (simp add: eligible_def demo_reg_def demo_service_def demo_procs_def serves_ns_def serves_def str_eq_iff cstr_def
        provider_dead_def upt_conv_Cons)
  have ld: "map (\<lambda>j. is_load (ir_table (demo_reg 2) ! j)) [0, 1] = [5, 3]"
    by (simp add: demo_reg_def demo_service_def)
  have pol: "ir_policy (demo_reg 2) = INFER_ROUTE_WEIGHTED" "unat (ir_rr (demo_reg 2)) = 0"
    by (simp_all add: demo_reg_def INFER_ROUTE_WEIGHTED_def)
  have sh: "share INFER_ROUTE_WEIGHTED [5, 3] 5 = 1" "share INFER_ROUTE_WEIGHTED [5, 3] 3 = 3"
    by (simp_all add: share_def INFER_ROUTE_WEIGHTED_def INFER_ROUTE_ROUND_ROBIN_def max_load_def)
  have "count_list (route_n demo_procs ''m'' 0 4 (demo_reg 2)) (Inr 1)
      = share (ir_policy (demo_reg 2)) [5, 3] (is_load (ir_table (demo_reg 2) ! 1))"
    by (rule infer_route_fair) (use el ld pol sh in simp_all)
  then show ?thesis using ld pol sh by simp
qed

end
