(* ===== verification/Infer_Cache.thy ===== *)
theory Infer_Cache
  imports Infer_Route
begin

text \<open>The cache of inference results, the second part of src/kernel/src/ipc/infer_svc.c: thirty-two
entries found by service name and a hash of the request, in a doubly linked list ordered by use.
Indices are integers and -1 ends the list; a request and a response are the bytes the caller passes.\<close>

section \<open>State and operations\<close>

definition INFER_CACHE_SIZE :: nat where "INFER_CACHE_SIZE = 32"
definition INFER_CACHE_RESP_MAX :: nat where "INFER_CACHE_RESP_MAX = 256"
definition INFER_CACHE_DEFAULT_TTL :: u32 where "INFER_CACHE_DEFAULT_TTL = 180"

record infer_cache_entry =
  ce_hash :: u64
  ce_name :: string
  ce_resp :: "u8 list"
  ce_len :: nat
  ce_tick :: u32
  ce_prev :: int
  ce_next :: int
  ce_used :: bool

record infer_cache =
  ic_ent :: "infer_cache_entry list"
  ic_head :: int
  ic_tail :: int
  ic_hits :: u32
  ic_misses :: u32
  ic_evictions :: u32
  ic_ttl :: u32

definition fnv_step :: "u8 \<Rightarrow> u64 \<Rightarrow> u64" where
  "fnv_step b h = (h XOR ucast b) * 0x100000001b3"

definition fnv1a_hash :: "string \<Rightarrow> u8 list \<Rightarrow> u64" where
  "fnv1a_hash name req = fold fnv_step req (fold (\<lambda>c. fnv_step (of_char c)) (cstr name) 0xcbf29ce484222325)"

definition cupd :: "int \<Rightarrow> (infer_cache_entry \<Rightarrow> infer_cache_entry) \<Rightarrow> infer_cache \<Rightarrow> infer_cache" where
  "cupd i f c = c\<lparr>ic_ent := (ic_ent c)[nat i := f (ic_ent c ! nat i)]\<rparr>"

definition cache_lru_remove :: "nat \<Rightarrow> infer_cache \<Rightarrow> infer_cache" where
  "cache_lru_remove idx c =
     (let p = ce_prev (ic_ent c ! idx);
          c1 = (if 0 \<le> p then cupd p (\<lambda>x. x\<lparr>ce_next := ce_next (ic_ent c ! idx)\<rparr>) c
                else c\<lparr>ic_head := ce_next (ic_ent c ! idx)\<rparr>);
          n = ce_next (ic_ent c1 ! idx);
          c2 = (if 0 \<le> n then cupd n (\<lambda>x. x\<lparr>ce_prev := ce_prev (ic_ent c1 ! idx)\<rparr>) c1
                else c1\<lparr>ic_tail := ce_prev (ic_ent c1 ! idx)\<rparr>)
      in cupd (int idx) (\<lambda>x. x\<lparr>ce_prev := -1, ce_next := -1\<rparr>) c2)"

definition cache_lru_push_front :: "nat \<Rightarrow> infer_cache \<Rightarrow> infer_cache" where
  "cache_lru_push_front idx c =
     (let c1 = cupd (int idx) (\<lambda>x. x\<lparr>ce_prev := -1, ce_next := ic_head c\<rparr>) c;
          c2 = (if 0 \<le> ic_head c1 then cupd (ic_head c1) (\<lambda>x. x\<lparr>ce_prev := int idx\<rparr>) c1 else c1);
          c3 = c2\<lparr>ic_head := int idx\<rparr>
      in if ic_tail c3 < 0 then c3\<lparr>ic_tail := int idx\<rparr> else c3)"

definition cache_match :: "string \<Rightarrow> u64 \<Rightarrow> infer_cache_entry \<Rightarrow> bool" where
  "cache_match name h e \<longleftrightarrow> ce_used e \<and> ce_hash e = h \<and> str_eq (ce_name e) name"

definition infer_cache_lookup :: "string \<Rightarrow> u8 list \<Rightarrow> nat \<Rightarrow> infer_cache \<Rightarrow> u8 list ret \<times> infer_cache" where
  "infer_cache_lookup name req resp_max c =
     (case find_index (cache_match name (fnv1a_hash name req)) (ic_ent c) of
        None \<Rightarrow> (Inl ENOENT, c\<lparr>ic_misses := ic_misses c + 1\<rparr>)
      | Some i \<Rightarrow>
          let e = ic_ent c ! i; copy_len = (if resp_max < ce_len e then resp_max else ce_len e) in
          (Inr (take copy_len (ce_resp e)),
           (cache_lru_push_front i (cache_lru_remove i c))\<lparr>ic_hits := ic_hits c + 1\<rparr>))"

definition store_resp :: "u8 list \<Rightarrow> u32 \<Rightarrow> infer_cache_entry \<Rightarrow> infer_cache_entry" where
  "store_resp resp now e =
     e\<lparr>ce_resp := resp @ drop (length resp) (ce_resp e), ce_len := length resp, ce_tick := now\<rparr>"

definition infer_cache_insert :: "string \<Rightarrow> u8 list \<Rightarrow> u8 list \<Rightarrow> u32 \<Rightarrow> infer_cache \<Rightarrow> infer_cache" where
  "infer_cache_insert name req resp now c =
     (if INFER_CACHE_RESP_MAX < length resp then c
      else let h = fnv1a_hash name req in
      case find_index (cache_match name h) (ic_ent c) of
        Some i \<Rightarrow> cache_lru_push_front i (cache_lru_remove i (cupd (int i) (store_resp resp now) c))
      | None \<Rightarrow>
          let (slot, c1) = (case find_index (\<lambda>e. \<not> ce_used e) (ic_ent c) of
                Some i \<Rightarrow> (int i, c)
              | None \<Rightarrow>
                  if 0 \<le> ic_tail c then
                    (ic_tail c, (cupd (ic_tail c) (\<lambda>x. x\<lparr>ce_used := False\<rparr>) (cache_lru_remove (nat (ic_tail c)) c))
                                  \<lparr>ic_evictions := ic_evictions c + 1\<rparr>)
                  else (-1, c))
          in if slot < 0 then c1
             else cache_lru_push_front (nat slot)
               (cupd slot (\<lambda>x. (store_resp resp now (x\<lparr>ce_hash := h, ce_name := str_copy (ce_name x) name INFER_NAME_MAX\<rparr>))
                                \<lparr>ce_used := True\<rparr>) c1))"

definition infer_cache_flush :: "infer_cache \<Rightarrow> infer_cache" where
  "infer_cache_flush c =
     c\<lparr>ic_ent := map (\<lambda>e. e\<lparr>ce_used := False, ce_prev := -1, ce_next := -1\<rparr>) (ic_ent c), ic_head := -1, ic_tail := -1\<rparr>"

definition infer_cache_get_stat :: "infer_cache \<Rightarrow> u32 \<times> u32 \<times> u32 \<times> nat \<times> nat \<times> u32" where
  "infer_cache_get_stat c =
     (ic_hits c, ic_misses c, ic_evictions c, length (filter ce_used (ic_ent c)), INFER_CACHE_SIZE, ic_ttl c)"

definition infer_cache_set_ttl :: "u32 \<Rightarrow> infer_cache \<Rightarrow> infer_cache" where
  "infer_cache_set_ttl ttl c = c\<lparr>ic_ttl := ttl\<rparr>"

definition expire_one :: "u32 \<Rightarrow> nat \<Rightarrow> infer_cache \<Rightarrow> infer_cache" where
  "expire_one now i c =
     (if ce_used (ic_ent c ! i) \<and> ic_ttl c < now - ce_tick (ic_ent c ! i)
      then cupd (int i) (\<lambda>x. x\<lparr>ce_used := False\<rparr>) (cache_lru_remove i c) else c)"

definition infer_cache_expire :: "u32 \<Rightarrow> infer_cache \<Rightarrow> infer_cache" where
  "infer_cache_expire now c = fold (expire_one now) [0..<INFER_CACHE_SIZE] c"

section \<open>The list by use\<close>

primrec dseg :: "infer_cache_entry list \<Rightarrow> int \<Rightarrow> int \<Rightarrow> nat list \<Rightarrow> int \<Rightarrow> bool" where
  "dseg es prev p [] q \<longleftrightarrow> p = q"
| "dseg es prev p (i # is) q \<longleftrightarrow> p = int i \<and> i < length es \<and> ce_prev (es ! i) = prev \<and> dseg es (int i) (ce_next (es ! i)) is q"

definition last_idx :: "int \<Rightarrow> nat list \<Rightarrow> int" where
  "last_idx prev is = (if is = [] then prev else int (last is))"

definition linked :: "infer_cache \<Rightarrow> nat list \<Rightarrow> bool" where
  "linked c xs \<longleftrightarrow> dseg (ic_ent c) (-1) (ic_head c) xs (-1) \<and> ic_tail c = last_idx (-1) xs \<and> distinct xs"

lemma dseg_append:
  "dseg es prev p (xs @ ys) q \<longleftrightarrow> (\<exists>r. dseg es prev p xs r \<and> dseg es (last_idx prev xs) r ys q)"
  by (induction xs arbitrary: prev p) (auto simp: last_idx_def)

lemma dseg_upd [simp]: "i \<notin> set xs \<Longrightarrow> dseg (es[i := e]) prev p xs q = dseg es prev p xs q"
  by (induction xs arbitrary: prev p) auto

lemma dseg_lt: "dseg es prev p xs q \<Longrightarrow> i \<in> set xs \<Longrightarrow> i < length es"
  by (induction xs arbitrary: prev p) auto

lemma dseg_start: "dseg es prev p xs q \<Longrightarrow> p = (if xs = [] then q else int (hd xs))"
  by (cases xs) auto

lemma dseg_end:
  assumes "dseg es prev p (xs @ [i]) q" "distinct (xs @ [i])"
  shows "dseg (es[i := (es ! i)\<lparr>ce_next := r\<rparr>]) prev p (xs @ [i]) r"
  using assms by (auto simp: dseg_append)

lemma dseg_begin:
  assumes "dseg es prev p (i # xs) q" "distinct (i # xs)"
  shows "dseg (es[i := (es ! i)\<lparr>ce_prev := v\<rparr>]) v p (i # xs) q"
  using assms by auto

text \<open>What the list operations keep of an entry: everything but its links.\<close>

definition content :: "infer_cache_entry \<Rightarrow> u64 \<times> string \<times> u8 list \<times> nat \<times> u32 \<times> bool" where
  "content e = (ce_hash e, ce_name e, ce_resp e, ce_len e, ce_tick e, ce_used e)"

definition relinked :: "infer_cache \<Rightarrow> infer_cache \<Rightarrow> bool" where
  "relinked c c' \<longleftrightarrow> map content (ic_ent c') = map content (ic_ent c) \<and> ic_hits c' = ic_hits c \<and> ic_misses c' = ic_misses c
     \<and> ic_evictions c' = ic_evictions c \<and> ic_ttl c' = ic_ttl c"

lemma relinked_refl [simp]: "relinked c c"
  by (simp add: relinked_def)

lemma relinked_trans: "relinked a b \<Longrightarrow> relinked b c \<Longrightarrow> relinked a c"
  by (simp add: relinked_def)

lemma relinked_length: "relinked c c' \<Longrightarrow> length (ic_ent c') = length (ic_ent c)"
  unfolding relinked_def by (metis length_map)

lemma relinked_content:
  assumes r: "relinked c c'" and i: "i < length (ic_ent c)"
  shows "content (ic_ent c' ! i) = content (ic_ent c ! i)"
proof -
  have "map content (ic_ent c') ! i = map content (ic_ent c) ! i" using r by (simp only: relinked_def)
  then show ?thesis using i relinked_length [OF r] by (simp only: nth_map)
qed

lemma relinked_cupd: "(\<And>x. content (f x) = content x) \<Longrightarrow> relinked c (cupd i f c)"
  by (cases "nat i < length (ic_ent c)") (simp_all add: relinked_def cupd_def map_update list_update_same_conv list_update_beyond)

lemma relinked_ends [simp]: "relinked c (c\<lparr>ic_head := h\<rparr>)" "relinked c (c\<lparr>ic_tail := h\<rparr>)"
  by (simp_all add: relinked_def)

lemma cupd_sel [simp]:
  "ic_ent (cupd (int i) f c) = (ic_ent c)[i := f (ic_ent c ! i)]" "ic_head (cupd j f c) = ic_head c" "ic_tail (cupd j f c) = ic_tail c"
  by (simp_all add: cupd_def)

lemma lru_remove_linked:
  assumes l: "linked c (as @ i # bs)"
  shows "linked (cache_lru_remove i c) (as @ bs)"
proof -
  let ?es = "ic_ent c" and ?p = "ce_prev (ic_ent c ! i)" and ?n = "ce_next (ic_ent c ! i)"
  have d: "distinct (as @ i # bs)" and s: "dseg ?es (-1) (ic_head c) as (int i)" "?p = last_idx (-1) as" "i < length ?es"
    "dseg ?es (int i) ?n bs (-1)" and tl: "ic_tail c = last_idx (-1) (as @ i # bs)"
    using l by (auto simp: linked_def dseg_append)
  define c1 where "c1 = (if 0 \<le> ?p then cupd ?p (\<lambda>x. x\<lparr>ce_next := ?n\<rparr>) c else c\<lparr>ic_head := ?n\<rparr>)"
  define c2 where "c2 = (if 0 \<le> ?n then cupd ?n (\<lambda>x. x\<lparr>ce_prev := ?p\<rparr>) c1 else c1\<lparr>ic_tail := ?p\<rparr>)"
  have 1: "dseg (ic_ent c1) (-1) (ic_head c1) as ?n" "dseg (ic_ent c1) (int i) ?n bs (-1)" "ic_ent c1 ! i = ?es ! i"
    "ic_tail c1 = ic_tail c" "length (ic_ent c1) = length ?es"
  proof -
    show "dseg (ic_ent c1) (-1) (ic_head c1) as ?n"
    proof (cases as rule: rev_cases)
      case (snoc us u)
      then show ?thesis using dseg_end [of ?es "-1" "ic_head c" us u "int i" ?n] s(1,2) d by (simp add: c1_def last_idx_def)
    qed (use s(2) in \<open>simp add: c1_def last_idx_def\<close>)
    show "dseg (ic_ent c1) (int i) ?n bs (-1)" "ic_ent c1 ! i = ?es ! i" "ic_tail c1 = ic_tail c" "length (ic_ent c1) = length ?es"
      using s d by (cases as rule: rev_cases; auto simp: c1_def last_idx_def)+
  qed
  have rm: "cache_lru_remove i c = cupd (int i) (\<lambda>x. x\<lparr>ce_prev := -1, ce_next := -1\<rparr>) c2"
    unfolding cache_lru_remove_def Let_def c1_def [symmetric] 1(3) c2_def ..
  have 2: "dseg (ic_ent c2) (-1) (ic_head c2) as ?n" "dseg (ic_ent c2) ?p ?n bs (-1)" "ic_tail c2 = last_idx (-1) (as @ bs)"
  proof -
    have n: "?n = (if bs = [] then -1 else int (hd bs))" by (rule dseg_start [OF s(4)])
    show "dseg (ic_ent c2) (-1) (ic_head c2) as ?n" using 1(1) d n by (cases bs) (simp_all add: c2_def)
    show "dseg (ic_ent c2) ?p ?n bs (-1)" using dseg_begin [of "ic_ent c1" "int i" ?n] 1(2) d n by (cases bs) (simp_all add: c2_def)
    show "ic_tail c2 = last_idx (-1) (as @ bs)" using 1(4) tl s(2) n by (cases bs) (auto simp: c2_def last_idx_def)
  qed
  show ?thesis using 2 s(2) d by (auto simp: linked_def rm dseg_append)
qed

lemma content_links [simp]: "content (x\<lparr>ce_prev := a\<rparr>) = content x" "content (x\<lparr>ce_next := b\<rparr>) = content x"
  by (simp_all add: content_def)

lemma lru_remove_relinked: "relinked c (cache_lru_remove i c)"
proof -
  let ?p = "ce_prev (ic_ent c ! i)"
  define c1 where "c1 = (if 0 \<le> ?p then cupd ?p (\<lambda>x. x\<lparr>ce_next := ce_next (ic_ent c ! i)\<rparr>) c else c\<lparr>ic_head := ce_next (ic_ent c ! i)\<rparr>)"
  let ?n = "ce_next (ic_ent c1 ! i)"
  define c2 where "c2 = (if 0 \<le> ?n then cupd ?n (\<lambda>x. x\<lparr>ce_prev := ce_prev (ic_ent c1 ! i)\<rparr>) c1 else c1\<lparr>ic_tail := ce_prev (ic_ent c1 ! i)\<rparr>)"
  have "relinked c c1" by (simp add: c1_def relinked_cupd)
  moreover have "relinked c1 c2" by (simp add: c2_def relinked_cupd)
  moreover have "relinked c2 (cache_lru_remove i c)"
    unfolding cache_lru_remove_def Let_def c1_def [symmetric] c2_def [symmetric] by (rule relinked_cupd) simp
  ultimately show ?thesis by (blast intro: relinked_trans)
qed

lemma lru_push_linked:
  assumes l: "linked c xs" and i: "i < length (ic_ent c)" "i \<notin> set xs"
  shows "linked (cache_lru_push_front i c) (i # xs)"
proof -
  let ?h = "ic_head c"
  define c1 where "c1 = cupd (int i) (\<lambda>x. x\<lparr>ce_prev := -1, ce_next := ?h\<rparr>) c"
  define c2 where "c2 = (if 0 \<le> ?h then cupd ?h (\<lambda>x. x\<lparr>ce_prev := int i\<rparr>) c1 else c1)"
  have s: "dseg (ic_ent c) (-1) ?h xs (-1)" "ic_tail c = last_idx (-1) xs" "distinct xs" using l by (simp_all add: linked_def)
  have h: "?h = (if xs = [] then -1 else int (hd xs))" by (rule dseg_start [OF s(1)])
  have "dseg (ic_ent c1) (-1) ?h xs (-1)" using s(1) i(2) by (simp add: c1_def)
  then have x2: "dseg (ic_ent c2) (int i) ?h xs (-1)"
    using dseg_begin [of "ic_ent c1" "-1" ?h] s(3) h by (cases xs) (simp_all add: c2_def)
  have e: "ce_prev (ic_ent c2 ! i) = -1" "ce_next (ic_ent c2 ! i) = ?h" "length (ic_ent c2) = length (ic_ent c)" "ic_tail c2 = ic_tail c"
    using i h by (cases xs; auto simp: c2_def c1_def)+
  have "cache_lru_push_front i c = (if ic_tail c < 0 then c2\<lparr>ic_head := int i, ic_tail := int i\<rparr> else c2\<lparr>ic_head := int i\<rparr>)"
    using e(4) by (simp add: cache_lru_push_front_def Let_def c1_def c2_def)
  then show ?thesis using x2 e i s(2,3) by (cases xs) (auto simp: linked_def last_idx_def)
qed

lemma lru_push_relinked: "relinked c (cache_lru_push_front i c)"
proof -
  let ?c1 = "cupd (int i) (\<lambda>x. x\<lparr>ce_prev := -1, ce_next := ic_head c\<rparr>) c"
  let ?c2 = "if 0 \<le> ic_head ?c1 then cupd (ic_head ?c1) (\<lambda>x. x\<lparr>ce_prev := int i\<rparr>) ?c1 else ?c1"
  have "relinked c ?c1" by (rule relinked_cupd) simp
  moreover have "relinked ?c1 ?c2" by (auto intro: relinked_cupd)
  ultimately have "relinked c ?c2" by (rule relinked_trans)
  then show ?thesis unfolding cache_lru_push_front_def Let_def by (simp add: relinked_def)
qed

section \<open>The cache as a list of results, most recently used first\<close>

type_synonym citem = "string \<times> u64 \<times> u8 list \<times> u32"

definition item :: "infer_cache_entry \<Rightarrow> citem" where
  "item e = (cstr (ce_name e), ce_hash e, take (ce_len e) (ce_resp e), ce_tick e)"

abbreviation ikey :: "citem \<Rightarrow> string \<times> u64" where
  "ikey it \<equiv> (fst it, fst (snd it))"

definition lru_lookup :: "string \<Rightarrow> u64 \<Rightarrow> nat \<Rightarrow> citem list \<Rightarrow> u8 list ret \<times> citem list" where
  "lru_lookup name h mx l =
     (case find (\<lambda>it. ikey it = (name, h)) l of
        None \<Rightarrow> (Inl ENOENT, l)
      | Some it \<Rightarrow> (Inr (take mx (fst (snd (snd it)))), it # remove1 it l))"

definition lru_insert :: "string \<Rightarrow> u64 \<Rightarrow> u8 list \<Rightarrow> u32 \<Rightarrow> citem list \<Rightarrow> citem list" where
  "lru_insert name h resp now l =
     (if INFER_CACHE_RESP_MAX < length resp then l
      else take INFER_CACHE_SIZE ((name, h, resp, now) # filter (\<lambda>it. ikey it \<noteq> (name, h)) l))"

definition lru_expire :: "u32 \<Rightarrow> u32 \<Rightarrow> citem list \<Rightarrow> citem list" where
  "lru_expire ttl now l = filter (\<lambda>it. \<not> ttl < now - snd (snd (snd it))) l"

definition cache_ok :: "infer_cache \<Rightarrow> nat list \<Rightarrow> bool" where
  "cache_ok c xs \<longleftrightarrow> linked c xs \<and> length (ic_ent c) = INFER_CACHE_SIZE
     \<and> set xs = {i. i < INFER_CACHE_SIZE \<and> ce_used (ic_ent c ! i)}
     \<and> (\<forall>i < INFER_CACHE_SIZE. length (ce_name (ic_ent c ! i)) = INFER_NAME_MAX)
     \<and> inj_on (\<lambda>i. ikey (item (ic_ent c ! i))) (set xs)"

definition items :: "infer_cache \<Rightarrow> nat list \<Rightarrow> citem list" where
  "items c xs = map (\<lambda>i. item (ic_ent c ! i)) xs"

lemma cache_okD:
  assumes "cache_ok c xs"
  shows "linked c xs" "length (ic_ent c) = INFER_CACHE_SIZE" "distinct xs"
    "set xs = {i. i < INFER_CACHE_SIZE \<and> ce_used (ic_ent c ! i)}"
    "\<forall>i < INFER_CACHE_SIZE. length (ce_name (ic_ent c ! i)) = INFER_NAME_MAX"
    "inj_on (\<lambda>i. ikey (item (ic_ent c ! i))) (set xs)"
  using assms unfolding cache_ok_def linked_def by blast+

lemma cache_ok_more [simp]:
  "cache_ok (c\<lparr>ic_hits := n\<rparr>) xs = cache_ok c xs" "cache_ok (c\<lparr>ic_misses := n\<rparr>) xs = cache_ok c xs"
  "cache_ok (c\<lparr>ic_evictions := n\<rparr>) xs = cache_ok c xs" "cache_ok (c\<lparr>ic_ttl := ttl\<rparr>) xs = cache_ok c xs"
  "items (c\<lparr>ic_hits := n\<rparr>) xs = items c xs" "items (c\<lparr>ic_misses := n\<rparr>) xs = items c xs"
  "items (c\<lparr>ic_evictions := n\<rparr>) xs = items c xs" "items (c\<lparr>ic_ttl := ttl\<rparr>) xs = items c xs"
  by (cases c; simp only: cache_ok_def items_def linked_def infer_cache.simps)+

lemma item_content: "content e = content e' \<Longrightarrow> item e = item e' \<and> ce_used e = ce_used e' \<and> ce_name e = ce_name e'"
  by (simp add: content_def item_def)

lemma dseg_links:
  assumes "length es' = length es" "\<And>i. i < length es \<Longrightarrow> ce_prev (es' ! i) = ce_prev (es ! i) \<and> ce_next (es' ! i) = ce_next (es ! i)"
  shows "dseg es' prev p xs q = dseg es prev p xs q"
  using assms by (induction xs arbitrary: prev p) auto

lemma linked_cupd:
  assumes "\<And>x. ce_prev (f x) = ce_prev x \<and> ce_next (f x) = ce_next x"
  shows "linked (cupd (int i) f c) xs = linked c xs"
  using dseg_links [of "(ic_ent c)[i := f (ic_ent c ! i)]" "ic_ent c"] assms
  by (auto simp: linked_def nth_list_update_if)

lemma cache_ok_relinked:
  assumes ok: "cache_ok c xs" and r: "relinked c c'" and l: "linked c' ys" and s: "set ys = set xs"
  shows "cache_ok c' ys" "i < INFER_CACHE_SIZE \<Longrightarrow> item (ic_ent c' ! i) = item (ic_ent c ! i)"
proof -
  have n: "length (ic_ent c) = INFER_CACHE_SIZE" by (rule cache_okD(2) [OF ok])
  have e: "item (ic_ent c' ! i) = item (ic_ent c ! i) \<and> ce_used (ic_ent c' ! i) = ce_used (ic_ent c ! i)
      \<and> ce_name (ic_ent c' ! i) = ce_name (ic_ent c ! i)" if "i < INFER_CACHE_SIZE" for i
    using item_content [OF relinked_content [OF r]] that n by simp
  then show "i < INFER_CACHE_SIZE \<Longrightarrow> item (ic_ent c' ! i) = item (ic_ent c ! i)" by blast
  have "inj_on (\<lambda>i. ikey (item (ic_ent c' ! i))) (set xs)"
  proof -
    note cache_okD(6) [OF ok]
    moreover have "\<forall>i \<in> set xs. i < INFER_CACHE_SIZE" using ok by (auto simp: cache_ok_def)
    ultimately show ?thesis using e by (auto simp: inj_on_def)
  qed
  then show "cache_ok c' ys"
    using ok l s e relinked_length [OF r] by (auto simp: cache_ok_def)
qed

lemma front_ok:
  assumes ok: "cache_ok c (as @ i # bs)"
  defines "c' \<equiv> cache_lru_push_front i (cache_lru_remove i c)"
  shows "cache_ok c' (i # as @ bs)" "items c' (i # as @ bs) = items c (i # as @ bs)" "ic_ttl c' = ic_ttl c"
proof -
  have l: "linked c (as @ i # bs)" and i: "i < length (ic_ent c)" using ok by (auto simp: cache_ok_def)
  have d: "i \<notin> set (as @ bs)" using l by (simp add: linked_def)
  have r1: "relinked c (cache_lru_remove i c)" by (rule lru_remove_relinked)
  have l2: "linked c' (i # as @ bs)" unfolding c'_def
    by (rule lru_push_linked [OF lru_remove_linked [OF l] _ d]) (use i relinked_length [OF r1] in simp)
  have r: "relinked c c'" unfolding c'_def by (rule relinked_trans [OF r1 lru_push_relinked])
  have s: "set (i # as @ bs) = set (as @ i # bs)" by auto
  note k = cache_ok_relinked [OF ok r l2 s]
  show "cache_ok c' (i # as @ bs)" by (rule k(1))
  have lt: "j < INFER_CACHE_SIZE" if "j \<in> set (i # as @ bs)" for j using ok that s by (auto simp: cache_ok_def)
  show "items c' (i # as @ bs) = items c (i # as @ bs)"
    unfolding items_def by (rule map_cong [OF refl]) (rule k(2), rule lt)
  show "ic_ttl c' = ic_ttl c" using r by (simp add: relinked_def)
qed

lemma match_key:
  assumes "ce_used e"
  shows "cache_match name h e \<longleftrightarrow> ikey (item e) = (cstr name, h)"
  using assms by (auto simp: cache_match_def item_def str_eq_iff)

lemma find_only:
  assumes "x \<in> set l" "P x" "\<And>y. y \<in> set l \<Longrightarrow> P y \<Longrightarrow> y = x"
  shows "find P l = Some x"
proof (cases "find P l")
  case None
  then show ?thesis using assms(1,2) by (simp add: find_None_iff)
next
  case (Some y)
  then have "y \<in> set l" "P y" by (auto simp: find_Some_iff)
  then show ?thesis using assms(3) Some by simp
qed

lemma cache_hit:
  assumes ok: "cache_ok c xs" and f: "find_index (cache_match name h) (ic_ent c) = Some i"
  obtains as bs where "xs = as @ i # bs" "ikey (item (ic_ent c ! i)) = (cstr name, h)"
    "find (\<lambda>it. ikey it = (cstr name, h)) (items c xs) = Some (item (ic_ent c ! i))"
    "remove1 (item (ic_ent c ! i)) (items c xs) = items c (as @ bs)"
    "filter (\<lambda>it. ikey it \<noteq> (cstr name, h)) (items c xs) = items c (as @ bs)"
proof -
  have i: "i < length (ic_ent c)" "cache_match name h (ic_ent c ! i)" using find_index_SomeD [OF f] by auto
  then have u: "ce_used (ic_ent c ! i)" by (simp add: cache_match_def)
  have n: "length (ic_ent c) = INFER_CACHE_SIZE" and sx: "set xs = {i. i < INFER_CACHE_SIZE \<and> ce_used (ic_ent c ! i)}"
    and inj: "inj_on (\<lambda>i. ikey (item (ic_ent c ! i))) (set xs)" and d: "distinct xs"
    by (fact cache_okD [OF ok])+
  have ix: "i \<in> set xs" using i u n sx by simp
  then obtain as bs where s: "xs = as @ i # bs" by (meson split_list)
  have k: "ikey (item (ic_ent c ! i)) = (cstr name, h)" using match_key [OF u] i by simp
  have other: "ikey (item (ic_ent c ! j)) \<noteq> (cstr name, h)" if "j \<in> set (as @ bs)" for j
    using inj_onD [OF inj, of j i] that s d k ix by auto
  have "find (\<lambda>it. ikey it = (cstr name, h)) (items c xs) = Some (item (ic_ent c ! i))"
  proof (rule find_only)
    fix y
    assume y: "y \<in> set (items c xs)" "ikey y = (cstr name, h)"
    then obtain j where j: "j \<in> set xs" "y = item (ic_ent c ! j)" by (auto simp: items_def)
    then have "j = i" using other [of j] y(2) s by auto
    then show "y = item (ic_ent c ! i)" using j by simp
  qed (use ix k in \<open>auto simp: items_def\<close>)
  moreover have "item (ic_ent c ! i) \<notin> set (items c as)" using other k by (fastforce simp: items_def)
  then have "remove1 (item (ic_ent c ! i)) (items c xs) = items c (as @ bs)"
    by (simp add: s items_def remove1_append)
  moreover have "filter (\<lambda>it. ikey it \<noteq> (cstr name, h)) (items c xs) = items c (as @ bs)"
    using other k by (simp add: s items_def filter_map comp_def)
  ultimately show ?thesis using that s k by blast
qed

lemma cache_miss:
  assumes ok: "cache_ok c xs" and f: "find_index (cache_match name h) (ic_ent c) = None" and it: "it \<in> set (items c xs)"
  shows "ikey it \<noteq> (cstr name, h)"
proof -
  obtain i where i: "i \<in> set xs" "it = item (ic_ent c ! i)" using it by (auto simp: items_def)
  then have "i < length (ic_ent c)" "ce_used (ic_ent c ! i)" using ok by (auto simp: cache_ok_def)
  moreover from this have "\<not> cache_match name h (ic_ent c ! i)" using f by (simp add: find_index_None_iff)
  ultimately show ?thesis using match_key [of "ic_ent c ! i" name h] i(2) by simp
qed

lemma lookup_refines:
  assumes ok: "cache_ok c xs" and r: "infer_cache_lookup name req mx c = (r, c')"
  obtains xs' where "cache_ok c' xs'" "lru_lookup (cstr name) (fnv1a_hash name req) mx (items c xs) = (r, items c' xs')" "ic_ttl c' = ic_ttl c"
proof (cases "find_index (cache_match name (fnv1a_hash name req)) (ic_ent c)")
  case None
  have "find (\<lambda>it. ikey it = (cstr name, fnv1a_hash name req)) (items c xs) = None"
    using cache_miss [OF ok None] by (metis (mono_tags, lifting) find_None_iff)
  moreover have "r = Inl ENOENT" "c' = c\<lparr>ic_misses := ic_misses c + 1\<rparr>" using r None by (simp_all add: infer_cache_lookup_def)
  ultimately show ?thesis using that [of xs] ok by (simp add: lru_lookup_def)
next
  case (Some i)
  obtain as bs where h: "xs = as @ i # bs" "find (\<lambda>it. ikey it = (cstr name, fnv1a_hash name req)) (items c xs) = Some (item (ic_ent c ! i))"
    "remove1 (item (ic_ent c ! i)) (items c xs) = items c (as @ bs)"
    by (rule cache_hit [OF ok Some]) (rule that)
  define c1 where "c1 = cache_lru_push_front i (cache_lru_remove i c)"
  note f = front_ok [OF ok [unfolded h(1)], folded c1_def]
  have rc: "r = Inr (take mx (fst (snd (snd (item (ic_ent c ! i))))))" "c' = c1\<lparr>ic_hits := ic_hits c + 1\<rparr>"
    using r Some by (auto simp: infer_cache_lookup_def Let_def c1_def item_def min_def)
  have "items c' (i # as @ bs) = item (ic_ent c ! i) # items c (as @ bs)" using f(2) rc(2) by (simp only: cache_ok_more) (simp add: items_def)
  moreover have "cache_ok c' (i # as @ bs)" using f(1) rc(2) by simp
  ultimately show ?thesis using that [of "i # as @ bs"] h rc f(3) by (simp add: lru_lookup_def)
qed

text \<open>A slot is filled or emptied while it is off the list; the other slots keep their contents.\<close>

lemma cache_ok_drop:
  assumes ok: "cache_ok c (as @ i # bs)"
  defines "c' \<equiv> cupd (int i) (\<lambda>x. x\<lparr>ce_used := False\<rparr>) (cache_lru_remove i c)"
  shows "cache_ok c' (as @ bs)" "j < INFER_CACHE_SIZE \<Longrightarrow> item (ic_ent c' ! j) = item (ic_ent c ! j)"
    "\<not> ce_used (ic_ent c' ! i)" "ic_ttl c' = ic_ttl c"
proof -
  have n: "length (ic_ent c) = INFER_CACHE_SIZE" and i: "i < INFER_CACHE_SIZE" and d: "i \<notin> set (as @ bs)"
    using ok cache_okD(3,4) [OF ok] by (auto simp: cache_ok_def)
  have r: "relinked c (cache_lru_remove i c)" by (rule lru_remove_relinked)
  have n': "length (ic_ent (cache_lru_remove i c)) = INFER_CACHE_SIZE" using relinked_length [OF r] n by simp
  have e: "item (ic_ent c' ! j) = item (ic_ent c ! j) \<and> ce_used (ic_ent c' ! j) = (j \<noteq> i \<and> ce_used (ic_ent c ! j))
      \<and> ce_name (ic_ent c' ! j) = ce_name (ic_ent c ! j)" if "j < INFER_CACHE_SIZE" for j
  proof -
    have "content (ic_ent (cache_lru_remove i c) ! j) = content (ic_ent c ! j)"
      by (rule relinked_content [OF r]) (use that n in simp)
    note it = item_content [OF this]
    show ?thesis using that it n' by (auto simp: c'_def nth_list_update_if item_def)
  qed
  then show "j < INFER_CACHE_SIZE \<Longrightarrow> item (ic_ent c' ! j) = item (ic_ent c ! j)" by blast
  show "\<not> ce_used (ic_ent c' ! i)" using e i by blast
  show "ic_ttl c' = ic_ttl c" using r by (simp add: c'_def relinked_def cupd_def)
  have l: "linked c' (as @ bs)" unfolding c'_def
    by (subst linked_cupd) (simp_all add: lru_remove_linked [OF cache_okD(1) [OF ok]])
  have s: "set (as @ bs) = {j. j < INFER_CACHE_SIZE \<and> ce_used (ic_ent c' ! j)}"
  proof -
    have "set (as @ bs) = set (as @ i # bs) - {i}" using d by auto
    also have "\<dots> = {j. j < INFER_CACHE_SIZE \<and> ce_used (ic_ent c' ! j)}"
      unfolding cache_okD(4) [OF ok] using e by auto
    finally show ?thesis .
  qed
  have "inj_on (\<lambda>j. ikey (item (ic_ent c' ! j))) (set (as @ bs)) = inj_on (\<lambda>j. ikey (item (ic_ent c ! j))) (set (as @ bs))"
  proof (rule inj_on_cong)
    fix j
    assume "j \<in> set (as @ bs)"
    then have "j < INFER_CACHE_SIZE" unfolding s by blast
    then show "ikey (item (ic_ent c' ! j)) = ikey (item (ic_ent c ! j))" using e by presburger
  qed
  moreover have "inj_on (\<lambda>j. ikey (item (ic_ent c ! j))) (set (as @ bs))"
    by (rule inj_on_subset [OF cache_okD(6) [OF ok]]) auto
  moreover have "length (ic_ent c') = INFER_CACHE_SIZE" using n' by (simp add: c'_def)
  moreover have "\<forall>j < INFER_CACHE_SIZE. length (ce_name (ic_ent c' ! j)) = INFER_NAME_MAX"
    using e cache_okD(5) [OF ok] by presburger
  ultimately show "cache_ok c' (as @ bs)" unfolding cache_ok_def using l s by blast
qed

lemma cache_ok_fill:
  fixes resp :: "u8 list" and now :: u32
  assumes ok: "cache_ok c xs" and i: "i < INFER_CACHE_SIZE" "\<not> ce_used (ic_ent c ! i)"
    and new: "\<And>it. it \<in> set (items c xs) \<Longrightarrow> ikey it \<noteq> (cstr name, h)" and nm: "length (cstr name) < INFER_NAME_MAX"
  defines "c' \<equiv> cache_lru_push_front i (cupd (int i) (\<lambda>x. (store_resp resp now (x\<lparr>ce_hash := h, ce_name := str_copy (ce_name x) name INFER_NAME_MAX\<rparr>))\<lparr>ce_used := True\<rparr>) c)"
  shows "cache_ok c' (i # xs)" "items c' (i # xs) = (cstr name, h, resp, now) # items c xs" "ic_ttl c' = ic_ttl c"
proof -
  define f where "f = (\<lambda>x. (store_resp resp now (x\<lparr>ce_hash := h, ce_name := str_copy (ce_name x) name INFER_NAME_MAX\<rparr>))\<lparr>ce_used := True\<rparr>)"
  define c1 where "c1 = cupd (int i) f c"
  have c': "c' = cache_lru_push_front i c1" by (simp add: c'_def c1_def f_def)
  have n: "length (ic_ent c1) = INFER_CACHE_SIZE" using cache_okD(2) [OF ok] by (simp add: c1_def)
  have ix: "i \<notin> set xs" using cache_okD(4) [OF ok] i by simp
  have l: "linked c' (i # xs)" unfolding c'
    by (rule lru_push_linked) (use n i ix cache_okD(1) [OF ok] in \<open>simp_all add: c1_def f_def store_resp_def linked_cupd\<close>)
  have r: "relinked c1 c'" unfolding c' by (rule lru_push_relinked)
  have e1: "item (ic_ent c' ! j) = item (ic_ent c1 ! j) \<and> ce_used (ic_ent c' ! j) = ce_used (ic_ent c1 ! j)
      \<and> ce_name (ic_ent c' ! j) = ce_name (ic_ent c1 ! j)" if "j < INFER_CACHE_SIZE" for j
    by (rule item_content [OF relinked_content [OF r]]) (use that n in simp)
  have old: "ic_ent c1 ! j = ic_ent c ! j" if "j \<noteq> i" for j using that by (simp add: c1_def)
  have ln: "length (ce_name (ic_ent c ! i)) = INFER_NAME_MAX" using cache_okD(5) [OF ok] i by blast
  have mine: "ic_ent c1 ! i = f (ic_ent c ! i)" using n i by (simp add: c1_def)
  have it: "item (ic_ent c1 ! i) = (cstr name, h, resp, now)"
    using nm ln by (simp add: mine f_def store_resp_def item_def cbuf_simps)
  have its: "items c' xs = items c xs" unfolding items_def
    by (rule map_cong [OF refl]) (metis (mono_tags, lifting) e1 old ix cache_okD(4) [OF ok] mem_Collect_eq)
  show all: "items c' (i # xs) = (cstr name, h, resp, now) # items c xs"
    using its e1 [OF i(1)] it by (simp add: items_def)
  show "ic_ttl c' = ic_ttl c" using r by (simp add: relinked_def c1_def cupd_def)
  have s: "set (i # xs) = {j. j < INFER_CACHE_SIZE \<and> ce_used (ic_ent c' ! j)}"
  proof -
    have "ce_used (ic_ent c' ! j) = (j = i \<or> ce_used (ic_ent c ! j))" if "j < INFER_CACHE_SIZE" for j
      using e1 [OF that] old [of j] mine by (cases "j = i") (simp_all add: f_def)
    then show ?thesis using cache_okD(4) [OF ok] i by auto
  qed
  have len: "\<forall>j < INFER_CACHE_SIZE. length (ce_name (ic_ent c' ! j)) = INFER_NAME_MAX"
  proof (intro allI impI)
    fix j :: nat
    assume j: "j < INFER_CACHE_SIZE"
    show "length (ce_name (ic_ent c' ! j)) = INFER_NAME_MAX"
      using e1 [OF j] old [of j] mine ln cache_okD(5) [OF ok] j by (cases "j = i") (simp_all add: f_def store_resp_def)
  qed
  have "distinct (map ikey (items c xs))"
    using cache_okD(6) [OF ok] cache_okD(3) [OF ok] by (simp add: items_def distinct_map comp_def)
  then have "distinct (map ikey (items c' (i # xs)))" unfolding all using new by fastforce
  then have "inj_on (\<lambda>j. ikey (item (ic_ent c' ! j))) (set (i # xs))"
    by (simp only: items_def map_map comp_def distinct_map)
  moreover have "length (ic_ent c') = INFER_CACHE_SIZE" using relinked_length [OF r] n by simp
  ultimately show "cache_ok c' (i # xs)" unfolding cache_ok_def using l s len by blast
qed

lemma cache_ok_store:
  fixes resp :: "u8 list" and now :: u32
  assumes ok: "cache_ok c xs" and i: "i \<in> set xs"
  defines "c' \<equiv> cupd (int i) (store_resp resp now) c"
  shows "cache_ok c' xs" "item (ic_ent c' ! i) = (fst (item (ic_ent c ! i)), fst (snd (item (ic_ent c ! i))), resp, now)"
    "j \<noteq> i \<Longrightarrow> ic_ent c' ! j = ic_ent c ! j" "ic_ttl c' = ic_ttl c"
proof -
  have lt: "i < length (ic_ent c)" using cache_okD(2,4) [OF ok] i by simp
  have mine: "ic_ent c' ! i = store_resp resp now (ic_ent c ! i)" using lt by (simp add: c'_def)
  show old: "ic_ent c' ! j = ic_ent c ! j" if "j \<noteq> i" for j using that by (simp add: c'_def)
  show "item (ic_ent c' ! i) = (fst (item (ic_ent c ! i)), fst (snd (item (ic_ent c ! i))), resp, now)"
    by (simp add: mine store_resp_def item_def)
  have same: "ce_used (ic_ent c' ! j) = ce_used (ic_ent c ! j) \<and> ce_name (ic_ent c' ! j) = ce_name (ic_ent c ! j)
      \<and> ikey (item (ic_ent c' ! j)) = ikey (item (ic_ent c ! j))" for j
    using old [of j] mine by (cases "j = i") (simp_all add: store_resp_def item_def)
  show "ic_ttl c' = ic_ttl c" by (simp add: c'_def cupd_def)
  have "linked c' xs" unfolding c'_def
    using linked_cupd [of "store_resp resp now"] cache_okD(1) [OF ok] by (simp add: store_resp_def)
  moreover have "length (ic_ent c') = INFER_CACHE_SIZE" using cache_okD(2) [OF ok] by (simp add: c'_def)
  ultimately show "cache_ok c' xs" unfolding cache_ok_def
    using cache_okD(4,5,6) [OF ok] by (simp only: same simp_thms)
qed

lemma cache_ok_length: "cache_ok c xs \<Longrightarrow> length xs \<le> INFER_CACHE_SIZE"
proof -
  assume ok: "cache_ok c xs"
  have "set xs \<subseteq> {..<INFER_CACHE_SIZE}" using cache_okD(4) [OF ok] by auto
  then have "card (set xs) \<le> INFER_CACHE_SIZE" using card_mono [of "{..<INFER_CACHE_SIZE}"] by simp
  then show ?thesis using distinct_card [OF cache_okD(3) [OF ok]] by simp
qed

definition stored :: "infer_cache \<Rightarrow> nat list \<Rightarrow> string \<Rightarrow> u8 list \<Rightarrow> u8 list \<Rightarrow> u32 \<Rightarrow> infer_cache \<Rightarrow> nat list \<Rightarrow> bool" where
  "stored c xs name req resp now c' xs' \<longleftrightarrow> cache_ok c' xs' \<and> ic_ttl c' = ic_ttl c
     \<and> items c' xs' = lru_insert (cstr name) (fnv1a_hash name req) resp now (items c xs)"

lemma insert_hit:
  assumes ok: "cache_ok c xs" and nm: "length (cstr name) < INFER_NAME_MAX" and c'_def: "c' = infer_cache_insert name req resp now c"
    and hit: "\<not> INFER_CACHE_RESP_MAX < length resp" "find_index (cache_match name (fnv1a_hash name req)) (ic_ent c) = Some i"
  shows "\<exists>xs'. stored c xs name req resp now c' xs'"
proof -
  let ?h = "fnv1a_hash name req" and ?it = "(cstr name, fnv1a_hash name req, resp, now)"
  obtain as bs where h: "xs = as @ i # bs" "ikey (item (ic_ent c ! i)) = (cstr name, ?h)"
    "filter (\<lambda>it. ikey it \<noteq> (cstr name, ?h)) (items c xs) = items c (as @ bs)"
    by (rule cache_hit [OF ok hit(2)]) (rule that)
  define c1 where "c1 = cupd (int i) (store_resp resp now) c"
  have s: "cache_ok c1 xs" "item (ic_ent c1 ! i) = ?it" "\<And>j. j \<noteq> i \<Longrightarrow> ic_ent c1 ! j = ic_ent c ! j" "ic_ttl c1 = ic_ttl c"
    using cache_ok_store [OF ok, where i = i and resp = resp and now = now] h by (simp_all add: c1_def)
  have c': "c' = cache_lru_push_front i (cache_lru_remove i c1)"
    using hit by (simp add: c'_def infer_cache_insert_def c1_def)
  note f = front_ok [OF s(1) [unfolded h(1)], folded c']
  have "i \<notin> set (as @ bs)" using cache_okD(3) [OF ok] h(1) by simp
  then have "items c1 (as @ bs) = items c (as @ bs)" unfolding items_def
    by (intro map_cong [OF refl]) (metis s(3))
  then have "items c' (i # as @ bs) = ?it # items c (as @ bs)" using f(2) s(2) by (simp add: items_def)
  moreover have "length (as @ bs) < INFER_CACHE_SIZE" using cache_ok_length [OF ok] h(1) by simp
  ultimately show ?thesis using f hit(1) h(3) s(4)
    by (intro exI [of _ "i # as @ bs"]) (simp add: stored_def lru_insert_def items_def take_Cons')
qed

lemma insert_free:
  assumes ok: "cache_ok c xs" and nm: "length (cstr name) < INFER_NAME_MAX" and c'_def: "c' = infer_cache_insert name req resp now c"
    and free: "\<not> INFER_CACHE_RESP_MAX < length resp" "find_index (cache_match name (fnv1a_hash name req)) (ic_ent c) = None" "find_index (\<lambda>e. \<not> ce_used e) (ic_ent c) = Some i"
  shows "\<exists>xs'. stored c xs name req resp now c' xs'"
proof -
  let ?h = "fnv1a_hash name req" and ?it = "(cstr name, fnv1a_hash name req, resp, now)"
  have i: "i < INFER_CACHE_SIZE" "\<not> ce_used (ic_ent c ! i)" using find_index_SomeD [OF free(3)] cache_okD(2) [OF ok] by auto
  note new = cache_miss [OF ok free(2)]
  note f = cache_ok_fill [OF ok i new nm, where resp = resp and now = now]
  have c': "c' = cache_lru_push_front i (cupd (int i) (\<lambda>x. (store_resp resp now (x\<lparr>ce_hash := ?h, ce_name := str_copy (ce_name x) name INFER_NAME_MAX\<rparr>))\<lparr>ce_used := True\<rparr>) c)"
    using free by (simp add: c'_def infer_cache_insert_def)
  have "filter (\<lambda>it. ikey it \<noteq> (cstr name, ?h)) (items c xs) = items c xs" using new by (meson filter_True)
  moreover have "length (items c xs) < INFER_CACHE_SIZE" using cache_ok_length [OF f(1)] by (simp add: items_def)
  ultimately show ?thesis using f [folded c'] free(1) by (intro exI [of _ "i # xs"]) (simp add: stored_def lru_insert_def take_Cons')
qed

lemma insert_full:
  assumes ok: "cache_ok c xs" and nm: "length (cstr name) < INFER_NAME_MAX" and c'_def: "c' = infer_cache_insert name req resp now c"
    and full: "\<not> INFER_CACHE_RESP_MAX < length resp" "find_index (cache_match name (fnv1a_hash name req)) (ic_ent c) = None" "find_index (\<lambda>e. \<not> ce_used e) (ic_ent c) = None"
  shows "\<exists>xs'. stored c xs name req resp now c' xs'"
proof -
  let ?h = "fnv1a_hash name req" and ?it = "(cstr name, fnv1a_hash name req, resp, now)"
  note new = cache_miss [OF ok full(2)]
  have "\<forall>i < INFER_CACHE_SIZE. ce_used (ic_ent c ! i)" using full(3) cache_okD(2) [OF ok] by (auto simp: find_index_None_iff)
  then have sx: "set xs = {..<INFER_CACHE_SIZE}" using cache_okD(4) [OF ok] by auto
  then have lx: "length xs = INFER_CACHE_SIZE" using distinct_card [OF cache_okD(3) [OF ok]] by simp
  then obtain as i where x: "xs = as @ [i]" by (cases xs rule: rev_cases) (auto simp: INFER_CACHE_SIZE_def)
  have tl: "ic_tail c = int i" using cache_okD(1) [OF ok] x by (simp add: linked_def last_idx_def)
  define c1 where "c1 = cupd (int i) (\<lambda>x. x\<lparr>ce_used := False\<rparr>) (cache_lru_remove i c)"
  have d: "cache_ok c1 as" "\<And>j. j < INFER_CACHE_SIZE \<Longrightarrow> item (ic_ent c1 ! j) = item (ic_ent c ! j)" "\<not> ce_used (ic_ent c1 ! i)" "ic_ttl c1 = ic_ttl c"
    using cache_ok_drop [of c as i "[]"] ok x by (simp_all add: c1_def)
  have its: "items c1 as = items c as" unfolding items_def
    by (rule map_cong [OF refl]) (rule d(2), use sx x in auto)
  define c2 where "c2 = c1\<lparr>ic_evictions := ic_evictions c + 1\<rparr>"
  have c2: "cache_ok c2 as" "items c2 as = items c as" "\<not> ce_used (ic_ent c2 ! i)" using d its by (simp_all add: c2_def)
  have new2: "\<And>it. it \<in> set (items c2 as) \<Longrightarrow> ikey it \<noteq> (cstr name, ?h)" using new c2(2) x by (simp add: items_def)
  have i: "i < INFER_CACHE_SIZE" using sx x by auto
  note f = cache_ok_fill [OF c2(1) i c2(3) new2 nm, where resp = resp and now = now]
  have c': "c' = cache_lru_push_front i (cupd (int i) (\<lambda>x. (store_resp resp now (x\<lparr>ce_hash := ?h, ce_name := str_copy (ce_name x) name INFER_NAME_MAX\<rparr>))\<lparr>ce_used := True\<rparr>) c2)"
    using full tl by (simp add: c'_def infer_cache_insert_def c2_def c1_def)
  have "filter (\<lambda>it. ikey it \<noteq> (cstr name, ?h)) (items c xs) = items c as @ [item (ic_ent c ! i)]"
    using new by (subst filter_True) (auto simp: items_def x)
  moreover have "length (items c as) = INFER_CACHE_SIZE - 1" using lx x by (simp add: items_def)
  ultimately show ?thesis using f [folded c'] full(1) c2(2) d(4) by (intro exI [of _ "i # as"]) (simp add: stored_def lru_insert_def take_Cons' c2_def INFER_CACHE_SIZE_def)
qed

lemma insert_refines:
  assumes ok: "cache_ok c xs" and nm: "length (cstr name) < INFER_NAME_MAX"
  shows "\<exists>xs'. stored c xs name req resp now (infer_cache_insert name req resp now c) xs'"
proof (cases "INFER_CACHE_RESP_MAX < length resp")
  case True
  then show ?thesis using ok by (auto simp: infer_cache_insert_def lru_insert_def stored_def)
next
  case False
  note ins = insert_hit [OF ok nm refl False] insert_free [OF ok nm refl False] insert_full [OF ok nm refl False]
  show ?thesis
  proof (cases "find_index (cache_match name (fnv1a_hash name req)) (ic_ent c)")
    case None
    then show ?thesis using ins(2,3) by (cases "find_index (\<lambda>e. \<not> ce_used e) (ic_ent c)") blast+
  qed (rule ins(1))
qed

lemma expire_one_refines:
  fixes now :: u32
  assumes ok: "cache_ok c xs" and i: "i < INFER_CACHE_SIZE"
  defines "c' \<equiv> expire_one now i c" and "ys \<equiv> filter (\<lambda>j. \<not> (j = i \<and> ic_ttl c < now - ce_tick (ic_ent c ! j))) xs"
  shows "cache_ok c' ys" "\<And>j. j < INFER_CACHE_SIZE \<Longrightarrow> item (ic_ent c' ! j) = item (ic_ent c ! j)" "ic_ttl c' = ic_ttl c"
proof -
  have "cache_ok c' ys \<and> (\<forall>j < INFER_CACHE_SIZE. item (ic_ent c' ! j) = item (ic_ent c ! j)) \<and> ic_ttl c' = ic_ttl c"
  proof (cases "ce_used (ic_ent c ! i) \<and> ic_ttl c < now - ce_tick (ic_ent c ! i)")
    case True
    then have "i \<in> set xs" using cache_okD(4) [OF ok] i by simp
    then obtain as bs where s: "xs = as @ i # bs" by (meson split_list)
    have "i \<notin> set (as @ bs)" using cache_okD(3) [OF ok] s by simp
    then have "filter (\<lambda>j. j \<noteq> i) (as @ bs) = as @ bs" by (intro filter_True) auto
    then have "ys = as @ bs" using True by (auto simp: ys_def s)
    moreover have "c' = cupd (int i) (\<lambda>x. x\<lparr>ce_used := False\<rparr>) (cache_lru_remove i c)" using True by (simp add: c'_def expire_one_def)
    ultimately show ?thesis using cache_ok_drop [OF ok [unfolded s]] by simp
  next
    case False
    then have "ys = xs" using cache_okD(4) [OF ok] by (auto simp: ys_def intro!: filter_True)
    then show ?thesis using False ok by (auto simp: c'_def expire_one_def)
  qed
  then show "cache_ok c' ys" "\<And>j. j < INFER_CACHE_SIZE \<Longrightarrow> item (ic_ent c' ! j) = item (ic_ent c ! j)" "ic_ttl c' = ic_ttl c" by blast+
qed

lemma item_tick: "item e = item e' \<Longrightarrow> ce_tick e = ce_tick e'"
  by (simp add: item_def)

lemma expire_fold:
  assumes "cache_ok c xs" "\<forall>i \<in> set ks. i < INFER_CACHE_SIZE"
  shows "cache_ok (fold (expire_one now) ks c) (filter (\<lambda>j. \<not> (j \<in> set ks \<and> ic_ttl c < now - ce_tick (ic_ent c ! j))) xs)
    \<and> (\<forall>j < INFER_CACHE_SIZE. item (ic_ent (fold (expire_one now) ks c) ! j) = item (ic_ent c ! j))
    \<and> ic_ttl (fold (expire_one now) ks c) = ic_ttl c"
  using assms
proof (induction ks arbitrary: c xs)
  case (Cons k ks)
  have k: "k < INFER_CACHE_SIZE" using Cons.prems by simp
  note one = expire_one_refines [OF Cons.prems(1) k, where now = now]
  have ks: "\<forall>i \<in> set ks. i < INFER_CACHE_SIZE" using Cons.prems by simp
  note ih = Cons.IH [OF one(1) ks]
  have tick: "ce_tick (ic_ent (expire_one now k c) ! j) = ce_tick (ic_ent c ! j)" if "j \<in> set xs" for j
    using item_tick [OF one(2)] cache_okD(4) [OF Cons.prems(1)] that by blast
  have "filter (\<lambda>j. \<not> (j \<in> set ks \<and> ic_ttl (expire_one now k c) < now - ce_tick (ic_ent (expire_one now k c) ! j)))
      (filter (\<lambda>j. \<not> (j = k \<and> ic_ttl c < now - ce_tick (ic_ent c ! j))) xs)
    = filter (\<lambda>j. \<not> (j \<in> set (k # ks) \<and> ic_ttl c < now - ce_tick (ic_ent c ! j))) xs"
    unfolding filter_filter by (rule filter_cong [OF refl]) (auto simp: one(3) tick)
  then show ?case using ih one(2,3) by simp
qed simp

lemma expire_refines:
  fixes now :: u32
  assumes ok: "cache_ok c xs"
  defines "c' \<equiv> infer_cache_expire now c"
  shows "\<exists>xs'. cache_ok c' xs' \<and> items c' xs' = lru_expire (ic_ttl c) now (items c xs) \<and> ic_ttl c' = ic_ttl c"
proof -
  let ?ys = "filter (\<lambda>j. \<not> (j \<in> set [0..<INFER_CACHE_SIZE] \<and> ic_ttl c < now - ce_tick (ic_ent c ! j))) xs"
  have f: "cache_ok c' ?ys" "\<And>j. j < INFER_CACHE_SIZE \<Longrightarrow> item (ic_ent c' ! j) = item (ic_ent c ! j)" "ic_ttl c' = ic_ttl c"
    using expire_fold [OF ok, of "[0..<INFER_CACHE_SIZE]" now] by (simp_all add: c'_def infer_cache_expire_def)
  have lt: "\<And>j. j \<in> set xs \<Longrightarrow> j < INFER_CACHE_SIZE" using cache_okD(4) [OF ok] by blast
  have i: "items c' ?ys = items c ?ys" unfolding items_def
    by (rule map_cong [OF refl]) (rule f(2), rule lt, simp)
  have "?ys = filter (\<lambda>j. \<not> ic_ttl c < now - ce_tick (ic_ent c ! j)) xs"
    by (rule filter_cong [OF refl]) (simp add: lt)
  then have "items c ?ys = lru_expire (ic_ttl c) now (items c xs)"
    by (simp add: items_def lru_expire_def filter_map comp_def item_def)
  then show ?thesis using f i by auto
qed

lemma flush_refines:
  assumes ok: "cache_ok c xs"
  shows "cache_ok (infer_cache_flush c) []" "items (infer_cache_flush c) [] = []" "ic_ttl (infer_cache_flush c) = ic_ttl c"
  using cache_okD(2,5) [OF ok] by (simp_all add: cache_ok_def infer_cache_flush_def linked_def last_idx_def items_def)

section \<open>Every run of the cache is a run of the list\<close>

datatype cop = Lookup string "u8 list" nat | Insert string "u8 list" "u8 list" u32 | Expire u32 | Flush | Set_Ttl u32

fun cache_op :: "cop \<Rightarrow> infer_cache \<Rightarrow> u8 list ret option \<times> infer_cache" where
  "cache_op (Lookup name req mx) c = apfst Some (infer_cache_lookup name req mx c)"
| "cache_op (Insert name req resp now) c = (None, infer_cache_insert name req resp now c)"
| "cache_op (Expire now) c = (None, infer_cache_expire now c)"
| "cache_op Flush c = (None, infer_cache_flush c)"
| "cache_op (Set_Ttl ttl) c = (None, infer_cache_set_ttl ttl c)"

fun lru_op :: "cop \<Rightarrow> u32 \<times> citem list \<Rightarrow> u8 list ret option \<times> u32 \<times> citem list" where
  "lru_op (Lookup name req mx) (ttl, l) =
     (let (r, l') = lru_lookup (cstr name) (fnv1a_hash name req) mx l in (Some r, ttl, l'))"
| "lru_op (Insert name req resp now) (ttl, l) = (None, ttl, lru_insert (cstr name) (fnv1a_hash name req) resp now l)"
| "lru_op (Expire now) (ttl, l) = (None, ttl, lru_expire ttl now l)"
| "lru_op Flush (ttl, l) = (None, ttl, [])"
| "lru_op (Set_Ttl t) (ttl, l) = (None, t, l)"

fun run_ops :: "('o \<Rightarrow> 's \<Rightarrow> 'r \<times> 's) \<Rightarrow> 'o list \<Rightarrow> 's \<Rightarrow> 'r list \<times> 's" where
  "run_ops f [] s = ([], s)"
| "run_ops f (p # ps) s = (let (r, s') = f p s; (rs, t) = run_ops f ps s' in (r # rs, t))"

fun short_name :: "cop \<Rightarrow> bool" where
  "short_name (Insert name req resp now) \<longleftrightarrow> length (cstr name) < INFER_NAME_MAX"
| "short_name p \<longleftrightarrow> True"

definition cache_repr :: "infer_cache \<Rightarrow> u32 \<times> citem list \<Rightarrow> bool" where
  "cache_repr c s \<longleftrightarrow> (\<exists>xs. cache_ok c xs \<and> s = (ic_ttl c, items c xs))"

lemma cache_op_refines:
  assumes "cache_repr c s" "short_name p"
  shows "fst (cache_op p c) = fst (lru_op p s) \<and> cache_repr (snd (cache_op p c)) (snd (lru_op p s))"
proof -
  obtain xs where ok: "cache_ok c xs" and s: "s = (ic_ttl c, items c xs)" using assms(1) by (auto simp: cache_repr_def)
  show ?thesis
  proof (cases p)
    case (Lookup name req mx)
    obtain r c' where r: "infer_cache_lookup name req mx c = (r, c')" by fastforce
    obtain xs' where "cache_ok c' xs'" "lru_lookup (cstr name) (fnv1a_hash name req) mx (items c xs) = (r, items c' xs')" "ic_ttl c' = ic_ttl c"
      by (rule lookup_refines [OF ok r]) (rule that)
    then show ?thesis using Lookup s r by (auto simp: cache_repr_def)
  next
    case (Insert name req resp now)
    then show ?thesis using insert_refines [OF ok, of name req resp now] assms(2) s by (auto simp: cache_repr_def stored_def)
  next
    case (Expire now)
    then show ?thesis using expire_refines [OF ok, of now] s by (auto simp: cache_repr_def)
  next
    case Flush
    then show ?thesis using flush_refines [OF ok] s by (auto simp: cache_repr_def)
  next
    case (Set_Ttl t)
    then show ?thesis using ok s by (auto simp: cache_repr_def infer_cache_set_ttl_def)
  qed
qed

lemma run_ops_refines:
  assumes "cache_repr c s" "list_all short_name ps"
  shows "fst (run_ops cache_op ps c) = fst (run_ops lru_op ps s)
    \<and> cache_repr (snd (run_ops cache_op ps c)) (snd (run_ops lru_op ps s))"
  using assms
proof (induction ps arbitrary: c s)
  case (Cons p ps)
  have "short_name p" "list_all short_name ps" using Cons.prems by simp_all
  then show ?case using cache_op_refines [OF Cons.prems(1), of p] Cons.IH by (auto simp: case_prod_beta Let_def)
qed simp

definition cache_boot :: infer_cache where
  "cache_boot = \<lparr>ic_ent = replicate INFER_CACHE_SIZE
       \<lparr>ce_hash = 0, ce_name = replicate INFER_NAME_MAX NUL, ce_resp = replicate INFER_CACHE_RESP_MAX 0, ce_len = 0,
        ce_tick = 0, ce_prev = 0, ce_next = 0, ce_used = False\<rparr>,
     ic_head = -1, ic_tail = -1, ic_hits = 0, ic_misses = 0, ic_evictions = 0, ic_ttl = INFER_CACHE_DEFAULT_TTL\<rparr>"

lemma cache_boot_repr: "cache_repr cache_boot (INFER_CACHE_DEFAULT_TTL, [])"
  unfolding cache_repr_def by (rule exI [of _ "[]"]) (simp add: cache_boot_def cache_ok_def linked_def last_idx_def items_def)

text \<open>C11: from the boot state, every sequence of look-ups, insertions, expiries, flushes and lifetime changes gives the
  results of a plain list of at most 32 results kept most recently used first: a look-up returns the stored response and
  moves it to the front, an insertion puts the response first, replaces the one under the same key and drops the least
  recently used beyond 32, an expiry removes exactly the results older than the lifetime. The doubly linked list of
  indices, the free slots and the eviction are not visible.\<close>

theorem cache_refines_lru:
  assumes "list_all short_name ps"
  shows "fst (run_ops cache_op ps cache_boot) = fst (run_ops lru_op ps (INFER_CACHE_DEFAULT_TTL, []))
     \<and> (\<exists>xs. items (snd (run_ops cache_op ps cache_boot)) xs = snd (snd (run_ops lru_op ps (INFER_CACHE_DEFAULT_TTL, [])))
           \<and> linked (snd (run_ops cache_op ps cache_boot)) xs \<and> length xs \<le> INFER_CACHE_SIZE)"
proof -
  note r = run_ops_refines [OF cache_boot_repr assms]
  obtain xs where "cache_ok (snd (run_ops cache_op ps cache_boot)) xs"
    "snd (run_ops lru_op ps (INFER_CACHE_DEFAULT_TTL, [])) = (ic_ttl (snd (run_ops cache_op ps cache_boot)), items (snd (run_ops cache_op ps cache_boot)) xs)"
    using r unfolding cache_repr_def by blast
  then show ?thesis using r cache_okD(1) cache_ok_length by auto
qed

theorem cache_refines_lru_witness:
  "fst (run_ops cache_op [Lookup ''m'' [1] 4, Insert ''m'' [1] [7, 8] 5, Lookup ''m'' [1] 1, Set_Ttl 2, Expire 8, Lookup ''m'' [1] 4] cache_boot)
     = [Some (Inl ENOENT), None, Some (Inr [7]), None, None, Some (Inl ENOENT)]"
  using cache_refines_lru [of "[Lookup ''m'' [1] 4, Insert ''m'' [1] [7, 8] 5, Lookup ''m'' [1] 1, Set_Ttl 2, Expire 8, Lookup ''m'' [1] 4]"]
  by (simp add: lru_lookup_def lru_insert_def lru_expire_def cstr_def INFER_NAME_MAX_def INFER_CACHE_RESP_MAX_def INFER_CACHE_SIZE_def)

lemma hash_collision:
  "fnv1a_hash [] (map of_char ''8yn0iYCKYHlIj4-BwPqk'') = fnv1a_hash [] (map of_char ''GReLUrM4wMqfg9yzV3KQ'')"
  by code_simp

text \<open>The key of a result is its 64-bit hash and the service name; the request itself is not kept. Two different
  requests with the same hash share a result, so a look-up returns the response to the other one (here for the service
  of the empty name).\<close>

theorem cache_collision:
  "\<exists>req req'. req \<noteq> req' \<and>
     fst (run_ops cache_op [Insert [] req [7] 0, Lookup [] req' 4] cache_boot) = [None, Some (Inr [7])]"
proof -
  obtain r s :: "u8 list" where "r \<noteq> s" and h: "fnv1a_hash [] r = fnv1a_hash [] s"
  proof (rule that [OF _ hash_collision])
    show "map of_char ''8yn0iYCKYHlIj4-BwPqk'' \<noteq> (map of_char ''GReLUrM4wMqfg9yzV3KQ'' :: u8 list)" by code_simp
  qed
  moreover have "list_all short_name [Insert [] r [7] 0, Lookup [] s 4]" by (simp add: cstr_def INFER_NAME_MAX_def)
  note e = conjunct1 [OF run_ops_refines [OF cache_boot_repr this]]
  have "fst (run_ops cache_op [Insert [] r [7] 0, Lookup [] s 4] cache_boot) = [None, Some (Inr [7])]"
    unfolding e by (simp add: lru_lookup_def lru_insert_def h cstr_def INFER_CACHE_RESP_MAX_def INFER_CACHE_SIZE_def)
  ultimately show ?thesis by blast
qed

end
