(* ===== verification/Limnfs.thy ===== *)
theory Limnfs
  imports Bitmap "HOL-Library.State_Monad"
begin

text \<open>The file system, src/kernel/src/blk/limnfs.c and limnfs.h: a superblock, a block bitmap, an inode
bitmap, a table of packed inodes and data blocks that inodes reach directly and through one, two or
three levels of pointer blocks. Blocks are lists of 4096 bytes and every structure on the disk is
encoded byte by byte. The operations are programs of the state monad over the in-memory state, with
the three static scratch buffers as the code uses them. The block cache and the bulk transfer of the
driver are a parameter, so that the same programs run over the cache of theory Bcache and over a
plain array of blocks; the result of every transfer is a branch as in the code. The flag fs_oob
records an access behind the end of a scratch buffer.\<close>

section \<open>Layout\<close>

type_synonym block = "u8 list"

abbreviation LIMNFS_MAGIC :: u32 where "LIMNFS_MAGIC \<equiv> 0x4C494D46"
abbreviation LIMNFS_TYPE_FREE :: u16 where "LIMNFS_TYPE_FREE \<equiv> 0"
abbreviation LIMNFS_TYPE_FILE :: u16 where "LIMNFS_TYPE_FILE \<equiv> 1"
abbreviation LIMNFS_TYPE_DIR :: u16 where "LIMNFS_TYPE_DIR \<equiv> 2"
abbreviation LIMNFS_BLOCK_SIZE :: nat where "LIMNFS_BLOCK_SIZE \<equiv> 4096"
abbreviation LIMNFS_MAX_INODES :: nat where "LIMNFS_MAX_INODES \<equiv> 1024"
abbreviation LIMNFS_MAX_DIRECT :: u32 where "LIMNFS_MAX_DIRECT \<equiv> 10"
abbreviation LIMNFS_DENTRY_SIZE :: nat where "LIMNFS_DENTRY_SIZE \<equiv> 64"
abbreviation LIMNFS_DENTRIES_PER_BLOCK :: nat where "LIMNFS_DENTRIES_PER_BLOCK \<equiv> 64"
abbreviation LIMNFS_PTRS_PER_BLOCK :: u32 where "LIMNFS_PTRS_PER_BLOCK \<equiv> 1024"

record limnfs_super =
  sb_magic :: u32
  sb_total_blocks :: u32
  sb_total_inodes :: u32
  sb_block_size :: u32
  sb_inode_tbl_start :: u32
  sb_data_start :: u32
  sb_free_blocks :: u32
  sb_free_inodes :: u32
  sb_reserved :: "u8 list"

record limnfs_inode =
  in_type :: u16
  in_mode :: u16
  in_size :: u32
  in_block_count :: u32
  in_direct :: "u32 list"
  in_indirect :: u32
  in_double :: u32
  in_triple :: u32
  in_parent :: u32
  in_uid :: u16
  in_gid :: u16
  in_reserved :: "u8 list"

record limnfs_dentry =
  de_inode :: u32
  de_name_len :: u8
  de_type :: u8
  de_name :: string

text \<open>Little-endian fields.\<close>

definition bytes16 :: "u16 \<Rightarrow> u8 list" where
  "bytes16 w = [ucast w, ucast (drop_bit 8 w)]"

definition bytes32 :: "u32 \<Rightarrow> u8 list" where
  "bytes32 w = [ucast w, ucast (drop_bit 8 w), ucast (drop_bit 16 w), ucast (drop_bit 24 w)]"

definition get16 :: "u8 list \<Rightarrow> nat \<Rightarrow> u16" where
  "get16 bs p = ucast (bs ! p) OR push_bit 8 (ucast (bs ! (p + 1)))"

definition get32 :: "u8 list \<Rightarrow> nat \<Rightarrow> u32" where
  "get32 bs p = ucast (bs ! p) OR push_bit 8 (ucast (bs ! (p + 1)))
     OR push_bit 16 (ucast (bs ! (p + 2))) OR push_bit 24 (ucast (bs ! (p + 3)))"

definition splice :: "nat \<Rightarrow> u8 list \<Rightarrow> u8 list \<Rightarrow> u8 list" where
  "splice p bs blk = take p blk @ bs @ drop (p + length bs) blk"

definition enc_super :: "limnfs_super \<Rightarrow> block" where
  "enc_super b = bytes32 (sb_magic b) @ bytes32 (sb_total_blocks b) @ bytes32 (sb_total_inodes b)
     @ bytes32 (sb_block_size b) @ bytes32 (sb_inode_tbl_start b) @ bytes32 (sb_data_start b)
     @ bytes32 (sb_free_blocks b) @ bytes32 (sb_free_inodes b) @ sb_reserved b"

definition dec_super :: "block \<Rightarrow> limnfs_super" where
  "dec_super bs = \<lparr>sb_magic = get32 bs 0, sb_total_blocks = get32 bs 4, sb_total_inodes = get32 bs 8,
     sb_block_size = get32 bs 12, sb_inode_tbl_start = get32 bs 16, sb_data_start = get32 bs 20,
     sb_free_blocks = get32 bs 24, sb_free_inodes = get32 bs 28, sb_reserved = take 4064 (drop 32 bs)\<rparr>"

definition enc_inode :: "limnfs_inode \<Rightarrow> u8 list" where
  "enc_inode n = bytes16 (in_type n) @ bytes16 (in_mode n) @ bytes32 (in_size n) @ bytes32 (in_block_count n)
     @ concat (map bytes32 (in_direct n)) @ bytes32 (in_indirect n) @ bytes32 (in_double n) @ bytes32 (in_triple n)
     @ bytes32 (in_parent n) @ bytes16 (in_uid n) @ bytes16 (in_gid n) @ in_reserved n"

definition dec_inode :: "u8 list \<Rightarrow> limnfs_inode" where
  "dec_inode bs = \<lparr>in_type = get16 bs 0, in_mode = get16 bs 2, in_size = get32 bs 4, in_block_count = get32 bs 8,
     in_direct = map (\<lambda>i. get32 bs (12 + 4 * i)) [0..<10], in_indirect = get32 bs 52, in_double = get32 bs 56,
     in_triple = get32 bs 60, in_parent = get32 bs 64, in_uid = get16 bs 68, in_gid = get16 bs 70,
     in_reserved = take 44 (drop 72 bs)\<rparr>"

text \<open>The size of the packed structure; the comment in limnfs.h says 128.\<close>

abbreviation INODE_SIZE :: nat where "INODE_SIZE \<equiv> 116"

definition zero_inode :: limnfs_inode where
  "zero_inode = \<lparr>in_type = 0, in_mode = 0, in_size = 0, in_block_count = 0, in_direct = replicate 10 0,
     in_indirect = 0, in_double = 0, in_triple = 0, in_parent = 0, in_uid = 0, in_gid = 0, in_reserved = replicate 44 0\<rparr>"

definition enc_dentry :: "limnfs_dentry \<Rightarrow> u8 list" where
  "enc_dentry e = bytes32 (de_inode e) @ [de_name_len e, de_type e] @ map of_char (de_name e)"

definition dec_dentry :: "u8 list \<Rightarrow> limnfs_dentry" where
  "dec_dentry bs = \<lparr>de_inode = get32 bs 0, de_name_len = bs ! 4, de_type = bs ! 5,
     de_name = map (\<lambda>b. char_of (unat b)) (take 58 (drop 6 bs))\<rparr>"

definition dentry_at :: "block \<Rightarrow> nat \<Rightarrow> limnfs_dentry" where
  "dentry_at blk i = dec_dentry (take LIMNFS_DENTRY_SIZE (drop (LIMNFS_DENTRY_SIZE * i) blk))"

definition set_dentry :: "nat \<Rightarrow> limnfs_dentry \<Rightarrow> block \<Rightarrow> block" where
  "set_dentry i e blk = splice (LIMNFS_DENTRY_SIZE * i) (enc_dentry e) blk"

section \<open>State and primitive steps\<close>

datatype scratch = Scratch1 | Scratch2 | Scratch3

record 's lfs =
  fs_mounted :: bool
  fs_super :: limnfs_super
  fs_bitmap :: "u8 list"
  fs_ibitmap :: "u8 list"
  fs_hint :: u32
  fs_buf :: "scratch \<Rightarrow> block"
  fs_oob :: bool
  fs_dev :: 's

record 's blkio =
  io_read :: "u32 \<Rightarrow> 's \<Rightarrow> block ret \<times> 's"
  io_write :: "u32 \<Rightarrow> block \<Rightarrow> 's \<Rightarrow> unit ret \<times> 's"
  io_bulk :: "u64 \<Rightarrow> u32 \<Rightarrow> 's \<Rightarrow> u8 list ret \<times> 's"

type_synonym ('s, 'a) fsm = "('s lfs, 'a) state"

abbreviation mret :: "'a \<Rightarrow> ('s, 'a) fsm" where "mret \<equiv> State_Monad.return"

definition asks :: "('s lfs \<Rightarrow> 'a) \<Rightarrow> ('s, 'a) fsm" where
  "asks f = State (\<lambda>s. (f s, s))"

definition modify :: "('s lfs \<Rightarrow> 's lfs) \<Rightarrow> ('s, unit) fsm" where
  "modify f = State (\<lambda>s. ((), f s))"

text \<open>bcache_read into a scratch buffer; a failed read leaves the buffer as it was.\<close>

definition read_block :: "'s blkio \<Rightarrow> scratch \<Rightarrow> u32 \<Rightarrow> ('s, bool) fsm" where
  "read_block io k b = State (\<lambda>s. case io_read io b (fs_dev s) of
       (Inr x, d) \<Rightarrow> (True, s\<lparr>fs_dev := d, fs_buf := (fs_buf s)(k := x)\<rparr>)
     | (Inl _, d) \<Rightarrow> (False, s\<lparr>fs_dev := d\<rparr>))"

definition write_bytes :: "'s blkio \<Rightarrow> u32 \<Rightarrow> block \<Rightarrow> ('s, bool) fsm" where
  "write_bytes io b x = State (\<lambda>s. case io_write io b x (fs_dev s) of
       (Inr _, d) \<Rightarrow> (True, s\<lparr>fs_dev := d\<rparr>)
     | (Inl _, d) \<Rightarrow> (False, s\<lparr>fs_dev := d\<rparr>))"

definition write_block :: "'s blkio \<Rightarrow> scratch \<Rightarrow> u32 \<Rightarrow> ('s, bool) fsm" where
  "write_block io k b = do { x \<leftarrow> asks (\<lambda>s. fs_buf s k); write_bytes io b x }"

definition read_bulk :: "'s blkio \<Rightarrow> u64 \<Rightarrow> u32 \<Rightarrow> ('s, u8 list option) fsm" where
  "read_bulk io sector sectors = State (\<lambda>s. case io_bulk io sector sectors (fs_dev s) of
       (Inr x, d) \<Rightarrow> (Some x, s\<lparr>fs_dev := d\<rparr>)
     | (Inl _, d) \<Rightarrow> (None, s\<lparr>fs_dev := d\<rparr>))"

definition edit :: "scratch \<Rightarrow> (block \<Rightarrow> block) \<Rightarrow> ('s, unit) fsm" where
  "edit k f = modify (\<lambda>s. s\<lparr>fs_buf := (fs_buf s)(k := f (fs_buf s k))\<rparr>)"

definition clear_buf :: "scratch \<Rightarrow> ('s, unit) fsm" where
  "clear_buf k = edit k (\<lambda>_. replicate LIMNFS_BLOCK_SIZE 0)"

text \<open>A scratch buffer seen as an array of block pointers.\<close>

definition get_ptr :: "scratch \<Rightarrow> u32 \<Rightarrow> ('s, u32) fsm" where
  "get_ptr k i = State (\<lambda>s. if i < LIMNFS_PTRS_PER_BLOCK then (get32 (fs_buf s k) (4 * unat i), s)
     else (0, s\<lparr>fs_oob := True\<rparr>))"

definition set_ptr :: "scratch \<Rightarrow> u32 \<Rightarrow> u32 \<Rightarrow> ('s, unit) fsm" where
  "set_ptr k i v = modify (\<lambda>s. if i < LIMNFS_PTRS_PER_BLOCK
     then s\<lparr>fs_buf := (fs_buf s)(k := splice (4 * unat i) (bytes32 v) (fs_buf s k))\<rparr> else s\<lparr>fs_oob := True\<rparr>)"

text \<open>Loops over an index: without and with a variable the body updates.\<close>

primrec for_all :: "'i list \<Rightarrow> ('i \<Rightarrow> ('s, unit) fsm) \<Rightarrow> ('s, unit) fsm" where
  "for_all [] f = mret ()"
| "for_all (i # is) f = do { f i; for_all is f }"

primrec for_fold :: "'i list \<Rightarrow> ('i \<Rightarrow> 'a \<Rightarrow> ('s, 'a) fsm) \<Rightarrow> 'a \<Rightarrow> ('s, 'a) fsm" where
  "for_fold [] f a = mret a"
| "for_fold (i # is) f a = do { a' \<leftarrow> f i a; for_fold is f a' }"

text \<open>A loop that ends with the first iteration that gives a result.\<close>

primrec for_first :: "'i list \<Rightarrow> ('i \<Rightarrow> ('s, 'a option) fsm) \<Rightarrow> ('s, 'a option) fsm" where
  "for_first [] f = mret None"
| "for_first (i # is) f = do { r \<leftarrow> f i; case r of None \<Rightarrow> for_first is f | Some x \<Rightarrow> mret (Some x) }"

section \<open>Bitmaps and superblock\<close>

definition bitmap_block_count :: "'s lfs \<Rightarrow> nat" where
  "bitmap_block_count s = (let n = length (fs_bitmap s) div LIMNFS_BLOCK_SIZE in if n = 0 then 1 else n)"

definition flush_block_bitmap :: "'s blkio \<Rightarrow> ('s, bool) fsm" where
  "flush_block_bitmap io = do {
     n \<leftarrow> asks bitmap_block_count;
     r \<leftarrow> for_first [0..<n] (\<lambda>b. do {
       bm \<leftarrow> asks fs_bitmap;
       clear_buf Scratch1;
       edit Scratch1 (splice 0 (take LIMNFS_BLOCK_SIZE (drop (b * LIMNFS_BLOCK_SIZE) bm)));
       ok \<leftarrow> write_block io Scratch1 (1 + of_nat b);
       mret (if ok then None else Some ()) });
     mret (r = None) }"

definition flush_inode_bitmap :: "'s blkio \<Rightarrow> ('s, bool) fsm" where
  "flush_inode_bitmap io = do {
     n \<leftarrow> asks bitmap_block_count;
     im \<leftarrow> asks fs_ibitmap;
     clear_buf Scratch1;
     edit Scratch1 (splice 0 im);
     write_block io Scratch1 (1 + of_nat n) }"

definition flush_superblock :: "'s blkio \<Rightarrow> ('s, bool) fsm" where
  "flush_superblock io = do { b \<leftarrow> asks fs_super; write_bytes io 0 (enc_super b) }"

definition set_super :: "(limnfs_super \<Rightarrow> limnfs_super) \<Rightarrow> ('s, unit) fsm" where
  "set_super f = modify (\<lambda>s. s\<lparr>fs_super := f (fs_super s)\<rparr>)"

section \<open>Blocks\<close>

definition limnfs_alloc_block :: "('s, u32) fsm" where
  "limnfs_alloc_block = State (\<lambda>s.
     let lo = sb_data_start (fs_super s); total_blocks = sb_total_blocks (fs_super s);
         start = (if lo \<le> fs_hint s then fs_hint s else lo);
         clear = (\<lambda>i. \<not> bitmap_test (fs_bitmap s) i) in
     case find clear ([unat start..<unat total_blocks] @ [unat lo..<unat start]) of
       None \<Rightarrow> (0, s)
     | Some i \<Rightarrow> (of_nat i, s\<lparr>fs_bitmap := bitmap_set (fs_bitmap s) i,
         fs_super := (fs_super s)\<lparr>sb_free_blocks := sb_free_blocks (fs_super s) - 1\<rparr>, fs_hint := of_nat i + 1\<rparr>))"

definition limnfs_free_block :: "u32 \<Rightarrow> ('s, unit) fsm" where
  "limnfs_free_block blk = modify (\<lambda>s.
     if blk < sb_data_start (fs_super s) \<or> sb_total_blocks (fs_super s) \<le> blk then s
     else s\<lparr>fs_bitmap := bitmap_clear (fs_bitmap s) (unat blk),
            fs_super := (fs_super s)\<lparr>sb_free_blocks := sb_free_blocks (fs_super s) + 1\<rparr>\<rparr>)"

definition limnfs_sync :: "'s blkio \<Rightarrow> ('s, unit) fsm" where
  "limnfs_sync io = do {
     m \<leftarrow> asks fs_mounted;
     if \<not> m then mret () else do {
       flush_block_bitmap io; flush_inode_bitmap io; flush_superblock io; mret () } }"

text \<open>The disk block of a logical block of a file, 0 if there is none.\<close>

definition get_file_block :: "'s blkio \<Rightarrow> limnfs_inode \<Rightarrow> u32 \<Rightarrow> ('s, u32) fsm" where
  "get_file_block io inode logical_block =
     (if logical_block < LIMNFS_MAX_DIRECT then mret (in_direct inode ! unat logical_block)
      else let idx = logical_block - LIMNFS_MAX_DIRECT in
      if idx < LIMNFS_PTRS_PER_BLOCK \<and> in_indirect inode \<noteq> 0 then do {
        ok \<leftarrow> read_block io Scratch2 (in_indirect inode);
        if \<not> ok then mret 0 else get_ptr Scratch2 idx }
      else let dbl_offset = idx - LIMNFS_PTRS_PER_BLOCK in
      if LIMNFS_PTRS_PER_BLOCK \<le> idx \<and> in_double inode \<noteq> 0 \<and> dbl_offset < LIMNFS_PTRS_PER_BLOCK * LIMNFS_PTRS_PER_BLOCK then do {
        ok \<leftarrow> read_block io Scratch2 (in_double inode);
        if \<not> ok then mret 0 else do {
          mid_blk \<leftarrow> get_ptr Scratch2 (dbl_offset div LIMNFS_PTRS_PER_BLOCK);
          if mid_blk = 0 then mret 0 else do {
            ok \<leftarrow> read_block io Scratch2 mid_blk;
            if \<not> ok then mret 0 else get_ptr Scratch2 (dbl_offset mod LIMNFS_PTRS_PER_BLOCK) } } }
      else let triple_base = LIMNFS_MAX_DIRECT + LIMNFS_PTRS_PER_BLOCK + LIMNFS_PTRS_PER_BLOCK * LIMNFS_PTRS_PER_BLOCK in
      if triple_base \<le> logical_block \<and> in_triple inode \<noteq> 0 then
        let tri_offset = logical_block - triple_base; rm = tri_offset mod (LIMNFS_PTRS_PER_BLOCK * LIMNFS_PTRS_PER_BLOCK) in do {
        ok \<leftarrow> read_block io Scratch3 (in_triple inode);
        if \<not> ok then mret 0 else do {
          dbl_blk \<leftarrow> get_ptr Scratch3 (tri_offset div (LIMNFS_PTRS_PER_BLOCK * LIMNFS_PTRS_PER_BLOCK));
          if dbl_blk = 0 then mret 0 else do {
            ok \<leftarrow> read_block io Scratch3 dbl_blk;
            if \<not> ok then mret 0 else do {
              mid_blk \<leftarrow> get_ptr Scratch3 (rm div LIMNFS_PTRS_PER_BLOCK);
              if mid_blk = 0 then mret 0 else do {
                ok \<leftarrow> read_block io Scratch3 mid_blk;
                if \<not> ok then mret 0 else get_ptr Scratch3 (rm mod LIMNFS_PTRS_PER_BLOCK) } } } } }
      else mret 0)"

text \<open>A new block filled with zeros, through the given scratch buffer.\<close>

definition alloc_zeroed :: "'s blkio \<Rightarrow> scratch \<Rightarrow> ('s, u32) fsm" where
  "alloc_zeroed io k = do {
     blk \<leftarrow> limnfs_alloc_block;
     if blk = 0 then mret 0 else do { clear_buf k; write_block io k blk; mret blk } }"

text \<open>The block entry i of the pointer block parent names; a missing one is allocated and entered.\<close>

definition descend :: "'s blkio \<Rightarrow> scratch \<Rightarrow> u32 \<Rightarrow> u32 \<Rightarrow> ('s, u32) fsm" where
  "descend io k parent i = do {
     read_block io k parent;
     blk \<leftarrow> get_ptr k i;
     if blk \<noteq> 0 then mret blk else do {
       blk \<leftarrow> alloc_zeroed io k;
       if blk = 0 then mret 0 else do {
         read_block io k parent; set_ptr k i blk; write_block io k parent; mret blk } } }"

definition enter_ptr :: "'s blkio \<Rightarrow> scratch \<Rightarrow> u32 \<Rightarrow> u32 \<Rightarrow> u32 \<Rightarrow> ('s, unit) fsm" where
  "enter_ptr io k parent i blk = do { read_block io k parent; set_ptr k i blk; write_block io k parent; mret () }"

text \<open>Entering a data block at an offset behind one, two and three levels of pointer blocks. The result
says whether the pointer blocks could be had, with the inode as the code has left it in memory.\<close>

definition enter_single :: "'s blkio \<Rightarrow> limnfs_inode \<Rightarrow> u32 \<Rightarrow> u32 \<Rightarrow> ('s, bool \<times> limnfs_inode) fsm" where
  "enter_single io inode idx blk = do {
     ind_blk \<leftarrow> (if in_indirect inode \<noteq> 0 then mret (in_indirect inode) else alloc_zeroed io Scratch2);
     if ind_blk = 0 then mret (False, inode) else do {
       enter_ptr io Scratch2 ind_blk idx blk; mret (True, inode\<lparr>in_indirect := ind_blk\<rparr>) } }"

definition enter_double :: "'s blkio \<Rightarrow> limnfs_inode \<Rightarrow> u32 \<Rightarrow> u32 \<Rightarrow> ('s, bool \<times> limnfs_inode) fsm" where
  "enter_double io inode dbl_offset blk = do {
     dbl_blk \<leftarrow> (if in_double inode \<noteq> 0 then mret (in_double inode) else alloc_zeroed io Scratch2);
     if dbl_blk = 0 then mret (False, inode) else do {
       mid_blk \<leftarrow> descend io Scratch2 dbl_blk (dbl_offset div LIMNFS_PTRS_PER_BLOCK);
       if mid_blk = 0 then mret (False, inode\<lparr>in_double := dbl_blk\<rparr>) else do {
         enter_ptr io Scratch2 mid_blk (dbl_offset mod LIMNFS_PTRS_PER_BLOCK) blk;
         mret (True, inode\<lparr>in_double := dbl_blk\<rparr>) } } }"

definition enter_triple :: "'s blkio \<Rightarrow> limnfs_inode \<Rightarrow> u32 \<Rightarrow> u32 \<Rightarrow> ('s, bool \<times> limnfs_inode) fsm" where
  "enter_triple io inode tri_offset blk = do {
     tri_blk \<leftarrow> (if in_triple inode \<noteq> 0 then mret (in_triple inode) else alloc_zeroed io Scratch3);
     if tri_blk = 0 then mret (False, inode) else do {
       dbl_blk \<leftarrow> descend io Scratch3 tri_blk (tri_offset div (LIMNFS_PTRS_PER_BLOCK * LIMNFS_PTRS_PER_BLOCK));
       if dbl_blk = 0 then mret (False, inode\<lparr>in_triple := tri_blk\<rparr>) else do {
         mid_blk \<leftarrow> descend io Scratch3 dbl_blk (tri_offset mod (LIMNFS_PTRS_PER_BLOCK * LIMNFS_PTRS_PER_BLOCK) div LIMNFS_PTRS_PER_BLOCK);
         if mid_blk = 0 then mret (False, inode\<lparr>in_triple := tri_blk\<rparr>) else do {
           enter_ptr io Scratch3 mid_blk (tri_offset mod (LIMNFS_PTRS_PER_BLOCK * LIMNFS_PTRS_PER_BLOCK) mod LIMNFS_PTRS_PER_BLOCK) blk;
           mret (True, inode\<lparr>in_triple := tri_blk\<rparr>) } } } }"

definition enter_block :: "'s blkio \<Rightarrow> limnfs_inode \<Rightarrow> u32 \<Rightarrow> u32 \<Rightarrow> ('s, bool \<times> limnfs_inode) fsm" where
  "enter_block io inode logical_block blk =
     (let idx = logical_block - LIMNFS_MAX_DIRECT; dbl_offset = idx - LIMNFS_PTRS_PER_BLOCK in
      if logical_block < LIMNFS_MAX_DIRECT then
        mret (True, inode\<lparr>in_direct := (in_direct inode)[unat logical_block := blk]\<rparr>)
      else if idx < LIMNFS_PTRS_PER_BLOCK then enter_single io inode idx blk
      else if dbl_offset < LIMNFS_PTRS_PER_BLOCK * LIMNFS_PTRS_PER_BLOCK then enter_double io inode dbl_offset blk
      else enter_triple io inode (dbl_offset - LIMNFS_PTRS_PER_BLOCK * LIMNFS_PTRS_PER_BLOCK) blk)"

text \<open>The result is the new block, 0 on failure, and the inode in memory.\<close>

definition alloc_file_block :: "'s blkio \<Rightarrow> limnfs_inode \<Rightarrow> u32 \<Rightarrow> ('s, u32 \<times> limnfs_inode) fsm" where
  "alloc_file_block io inode logical_block = do {
     blk \<leftarrow> alloc_zeroed io Scratch2;
     if blk = 0 then mret (0, inode) else do {
       (entered, n) \<leftarrow> enter_block io inode logical_block blk;
       if entered then mret (blk, n\<lparr>in_block_count := in_block_count n + 1\<rparr>)
       else do { limnfs_free_block blk; mret (0, n) } } }"

section \<open>Inodes\<close>

definition inode_block :: "'s lfs \<Rightarrow> nat \<Rightarrow> u32" where
  "inode_block s ino = sb_inode_tbl_start (fs_super s) + of_nat (ino div (LIMNFS_BLOCK_SIZE div INODE_SIZE))"

definition inode_offset :: "nat \<Rightarrow> nat" where
  "inode_offset ino = (ino mod (LIMNFS_BLOCK_SIZE div INODE_SIZE)) * INODE_SIZE"

definition limnfs_read_inode :: "'s blkio \<Rightarrow> nat \<Rightarrow> ('s, limnfs_inode option) fsm" where
  "limnfs_read_inode io ino =
     (if LIMNFS_MAX_INODES \<le> ino then mret None else do {
        b \<leftarrow> asks (\<lambda>s. inode_block s ino);
        ok \<leftarrow> read_block io Scratch1 b;
        if \<not> ok then mret None
        else asks (\<lambda>s. Some (dec_inode (take INODE_SIZE (drop (inode_offset ino) (fs_buf s Scratch1))))) })"

definition limnfs_write_inode :: "'s blkio \<Rightarrow> nat \<Rightarrow> limnfs_inode \<Rightarrow> ('s, bool) fsm" where
  "limnfs_write_inode io ino inode =
     (if LIMNFS_MAX_INODES \<le> ino then mret False else do {
        b \<leftarrow> asks (\<lambda>s. inode_block s ino);
        ok \<leftarrow> read_block io Scratch1 b;
        if \<not> ok then mret False else do {
          edit Scratch1 (splice (inode_offset ino) (enc_inode inode));
          write_block io Scratch1 b } })"

definition limnfs_alloc_inode :: "'s blkio \<Rightarrow> ('s, nat option) fsm" where
  "limnfs_alloc_inode io = do {
     im \<leftarrow> asks fs_ibitmap;
     case find (\<lambda>i. \<not> bitmap_test im i) [1..<LIMNFS_MAX_INODES] of
       None \<Rightarrow> mret None
     | Some i \<Rightarrow> do {
         modify (\<lambda>s. s\<lparr>fs_ibitmap := bitmap_set im i\<rparr>);
         set_super (\<lambda>b. b\<lparr>sb_free_inodes := sb_free_inodes b - 1\<rparr>);
         flush_inode_bitmap io; flush_superblock io; mret (Some i) } }"

text \<open>Freeing the entries of a pointer block held in a scratch buffer, and the pointer blocks above it.
The buffer is read again after the level below has used it.\<close>

definition free_leaves :: "scratch \<Rightarrow> ('s, unit) fsm" where
  "free_leaves k = for_all [0..<1024] (\<lambda>i. do {
     p \<leftarrow> get_ptr k (of_nat i); if p \<noteq> 0 then limnfs_free_block p else mret () })"

definition free_level :: "'s blkio \<Rightarrow> scratch \<Rightarrow> ('s, unit) fsm \<Rightarrow> u32 \<Rightarrow> ('s, unit) fsm" where
  "free_level io k body blk = do {
     ok \<leftarrow> read_block io k blk;
     (if ok then body else mret ());
     limnfs_free_block blk }"

definition free_nodes :: "'s blkio \<Rightarrow> scratch \<Rightarrow> (u32 \<Rightarrow> ('s, unit) fsm) \<Rightarrow> u32 \<Rightarrow> ('s, unit) fsm" where
  "free_nodes io k below blk = for_all [0..<1024] (\<lambda>i. do {
     p \<leftarrow> get_ptr k (of_nat i);
     if p = 0 then mret () else do { below p; read_block io k blk; mret () } })"

definition free_single :: "'s blkio \<Rightarrow> scratch \<Rightarrow> u32 \<Rightarrow> ('s, unit) fsm" where
  "free_single io k blk = free_level io k (free_leaves k) blk"

definition free_double :: "'s blkio \<Rightarrow> scratch \<Rightarrow> u32 \<Rightarrow> ('s, unit) fsm" where
  "free_double io k blk = free_level io k (free_nodes io k (free_single io k) blk) blk"

definition free_triple :: "'s blkio \<Rightarrow> scratch \<Rightarrow> u32 \<Rightarrow> ('s, unit) fsm" where
  "free_triple io k blk = free_level io k (free_nodes io k (free_double io k) blk) blk"

definition limnfs_free_inode :: "'s blkio \<Rightarrow> nat \<Rightarrow> ('s, unit) fsm" where
  "limnfs_free_inode io ino =
     (if ino = 0 \<or> LIMNFS_MAX_INODES \<le> ino then mret () else do {
        r \<leftarrow> limnfs_read_inode io ino;
        case r of None \<Rightarrow> mret () | Some inode \<Rightarrow> do {
          for_all (in_direct inode) (\<lambda>p. if p \<noteq> 0 then limnfs_free_block p else mret ());
          (if in_indirect inode \<noteq> 0 then free_single io Scratch2 (in_indirect inode) else mret ());
          (if in_double inode \<noteq> 0 then free_double io Scratch2 (in_double inode) else mret ());
          (if in_triple inode \<noteq> 0 then free_triple io Scratch3 (in_triple inode) else mret ());
          limnfs_write_inode io ino zero_inode;
          modify (\<lambda>s. s\<lparr>fs_ibitmap := bitmap_clear (fs_ibitmap s) ino\<rparr>);
          set_super (\<lambda>b. b\<lparr>sb_free_inodes := sb_free_inodes b + 1\<rparr>);
          flush_inode_bitmap io; flush_superblock io; mret () } })"

section \<open>File data\<close>

text \<open>The bulk loop of the sequential path. Each round moves at least one block, so a fuel of the number
of whole blocks is enough.\<close>

fun bulk_loop :: "'s blkio \<Rightarrow> nat \<Rightarrow> u32 \<Rightarrow> u64 \<Rightarrow> u8 list \<Rightarrow> ('s, (u32 \<times> u8 list) option) fsm" where
  "bulk_loop io 0 first_blk len acc = mret (Some (first_blk, acc))"
| "bulk_loop io (Suc fuel) first_blk len acc =
     (let bytes_read = of_nat (length acc) :: u64 in
      if bytes_read + 4096 \<le> len then
        let remain_blocks = ucast ((len - bytes_read) div 4096) :: u32;
            batch = (if 64 < remain_blocks then 64 else remain_blocks) in do {
        r \<leftarrow> read_bulk io (ucast first_blk * 8) (batch * 8);
        case r of None \<Rightarrow> mret None
        | Some x \<Rightarrow> bulk_loop io fuel (first_blk + batch) len (acc @ x) }
      else mret (Some (first_blk, acc)))"

definition limnfs_read_data_sequential :: "'s blkio \<Rightarrow> limnfs_inode \<Rightarrow> u64 \<Rightarrow> u64 \<Rightarrow> ('s, u8 list option) fsm" where
  "limnfs_read_data_sequential io inode offset len =
     (let start_lb = ucast (offset div 4096) :: u32; end_lb = ucast ((offset + len - 1) div 4096) :: u32;
          block_offset = unat (offset mod 4096); n_blocks = end_lb - start_lb + 1;
          checks = filter (\<lambda>c. c \<noteq> 0 \<and> c < n_blocks) [1, n_blocks div 4, n_blocks div 2, n_blocks - 1] in do {
      first_blk \<leftarrow> get_file_block io inode start_lb;
      if first_blk = 0 then mret None else do {
        bad \<leftarrow> for_first checks (\<lambda>c. do {
          blk \<leftarrow> get_file_block io inode (start_lb + c);
          mret (if blk \<noteq> first_blk + c then Some () else None) });
        if bad \<noteq> None then mret None else do {
          hd \<leftarrow> (if block_offset \<noteq> 0 then do {
              ok \<leftarrow> read_block io Scratch1 first_blk;
              if \<not> ok then mret None
              else asks (\<lambda>s. Some (first_blk + 1, take (min (4096 - block_offset) (unat len)) (drop block_offset (fs_buf s Scratch1)))) }
            else mret (Some (first_blk, [])));
          case hd of None \<Rightarrow> mret None | Some (blk, acc) \<Rightarrow> do {
            r \<leftarrow> bulk_loop io (unat len div 4096) blk len acc;
            case r of None \<Rightarrow> mret None | Some (blk', acc') \<Rightarrow>
              if length acc' < unat len then do {
                ok \<leftarrow> read_block io Scratch1 blk';
                if \<not> ok then mret None
                else asks (\<lambda>s. Some (acc' @ take (unat len - length acc') (fs_buf s Scratch1))) }
              else mret (Some acc') } } } })"

text \<open>How many of the following logical blocks lie behind one another on the disk.\<close>

fun run_length :: "'s blkio \<Rightarrow> limnfs_inode \<Rightarrow> u32 \<Rightarrow> u32 \<Rightarrow> nat \<Rightarrow> u32 \<Rightarrow> ('s, u32) fsm" where
  "run_length io inode logical_block disk_block 0 n = mret n"
| "run_length io inode logical_block disk_block (Suc rest) n = do {
     nxt \<leftarrow> get_file_block io inode (logical_block + n);
     if nxt \<noteq> disk_block + n then mret n else run_length io inode logical_block disk_block rest (n + 1) }"

definition max_run :: "u64 \<Rightarrow> u32" where
  "max_run remaining = (let n = ucast (remaining div 4096) in if 8 < n then 8 else n)"

text \<open>The loop of limnfs_read_data. Each round reads at least one byte, so a fuel of the number of bytes is enough.\<close>

fun read_loop :: "'s blkio \<Rightarrow> nat \<Rightarrow> limnfs_inode \<Rightarrow> u64 \<Rightarrow> u64 \<Rightarrow> u8 list \<Rightarrow> ('s, u8 list) fsm" where
  "read_loop io 0 inode offset len acc = mret acc"
| "read_loop io (Suc fuel) inode offset len acc =
     (let bytes_read = of_nat (length acc) :: u64;
          logical_block = ucast ((offset + bytes_read) div 4096) :: u32;
          block_offset = unat ((offset + bytes_read) mod 4096) in
      if \<not> bytes_read < len then mret acc else do {
      disk_block \<leftarrow> get_file_block io inode logical_block;
      if disk_block = 0 then mret acc else do {
        bulk \<leftarrow> (if block_offset = 0 \<and> 4096 \<le> len - bytes_read then do {
            run \<leftarrow> run_length io inode logical_block disk_block (unat (max_run (len - bytes_read)) - 1) 1;
            if 1 < run then read_bulk io (ucast disk_block * 8) (run * 8) else mret None }
          else mret None);
        case bulk of Some x \<Rightarrow> read_loop io fuel inode offset len (acc @ x)
        | None \<Rightarrow> do {
            ok \<leftarrow> read_block io Scratch1 disk_block;
            if \<not> ok then mret acc else do {
              x \<leftarrow> asks (\<lambda>s. take (min (4096 - block_offset) (unat (len - bytes_read))) (drop block_offset (fs_buf s Scratch1)));
              read_loop io fuel inode offset len (acc @ x) } } } })"

definition limnfs_read_data :: "'s blkio \<Rightarrow> nat \<Rightarrow> u64 \<Rightarrow> u64 \<Rightarrow> ('s, u8 list option) fsm" where
  "limnfs_read_data io ino offset len = do {
     r \<leftarrow> limnfs_read_inode io ino;
     case r of None \<Rightarrow> mret None | Some inode \<Rightarrow>
       if ucast (in_size inode) \<le> offset then mret (Some [])
       else let available = ucast (in_size inode) - offset; len' = (if available < len then available else len) in do {
         fast \<leftarrow> (if 32 * 1024 \<le> len' then limnfs_read_data_sequential io inode offset len' else mret None);
         case fast of Some x \<Rightarrow> mret (Some x)
         | None \<Rightarrow> do { x \<leftarrow> read_loop io (unat len') inode offset len' []; mret (Some x) } } }"

text \<open>The loop of limnfs_write_data over the bytes still to write; the result is the number of bytes
written and the inode in memory. Each round writes at least one byte.\<close>

fun write_loop :: "'s blkio \<Rightarrow> nat \<Rightarrow> limnfs_inode \<Rightarrow> u64 \<Rightarrow> u8 list \<Rightarrow> nat \<Rightarrow> ('s, nat \<times> limnfs_inode) fsm" where
  "write_loop io 0 inode offset buf written = mret (written, inode)"
| "write_loop io (Suc fuel) inode offset buf written =
     (let logical_block = ucast ((offset + of_nat written) div 4096) :: u32;
          block_offset = unat ((offset + of_nat written) mod 4096) in
      if \<not> written < length buf then mret (written, inode) else do {
      blk0 \<leftarrow> get_file_block io inode logical_block;
      (disk_block, n) \<leftarrow> (if blk0 = 0 then alloc_file_block io inode logical_block else mret (blk0, inode));
      if disk_block = 0 then mret (written, n) else do {
        ok \<leftarrow> read_block io Scratch1 disk_block;
        if \<not> ok then mret (written, n) else let chunk = min (4096 - block_offset) (length buf - written) in do {
          edit Scratch1 (splice block_offset (take chunk (drop written buf)));
          ok \<leftarrow> write_block io Scratch1 disk_block;
          if \<not> ok then mret (written, n) else write_loop io fuel n offset buf (written + chunk) } } })"

definition limnfs_write_data :: "'s blkio \<Rightarrow> nat \<Rightarrow> u64 \<Rightarrow> u8 list \<Rightarrow> ('s, nat option) fsm" where
  "limnfs_write_data io ino offset buf = do {
     r \<leftarrow> limnfs_read_inode io ino;
     case r of None \<Rightarrow> mret None | Some inode \<Rightarrow> do {
       (written, n) \<leftarrow> write_loop io (length buf) inode offset buf 0;
       limnfs_write_inode io ino
         (if ucast (in_size n) < offset + of_nat written then n\<lparr>in_size := ucast (offset + of_nat written)\<rparr> else n);
       mret (Some written) } }"

end
