(* ===== verification/Limnfs_Store.thy ===== *)
theory Limnfs_Store
  imports Limnfs Bcache_Refine
begin

text \<open>The file system over its two stores. The locale block_store says what a store of blocks promises: it
stands for an array of blocks, a read returns a block of the array and a write changes it. Inside the
locale every operation of theory Limnfs is shown to do over the store what it does over the plain array.
The block cache is such a store; a bulk transfer, which goes past the cache, agrees with the array only
while the disk does.\<close>

section \<open>Corresponding programs\<close>

text \<open>Two states that differ in the store only.\<close>

definition with_dev :: "'t \<Rightarrow> 's lfs \<Rightarrow> 't lfs" where
  "with_dev d s = \<lparr>fs_mounted = fs_mounted s, fs_super = fs_super s, fs_bitmap = fs_bitmap s, fs_ibitmap = fs_ibitmap s,
     fs_hint = fs_hint s, fs_buf = fs_buf s, fs_oob = fs_oob s, fs_dev = d\<rparr>"

definition over :: "('s \<Rightarrow> 't \<Rightarrow> bool) \<Rightarrow> 's lfs \<Rightarrow> 't lfs \<Rightarrow> bool" where
  "over D s a \<longleftrightarrow> D (fs_dev s) (fs_dev a) \<and> a = with_dev (fs_dev a) s"

definition agree :: "('s \<Rightarrow> 't \<Rightarrow> bool) \<Rightarrow> ('s, 'a) fsm \<Rightarrow> ('t, 'a) fsm \<Rightarrow> bool" where
  "agree D m m' \<longleftrightarrow> (\<forall>s a. over D s a \<longrightarrow>
     fst (run_state m s) = fst (run_state m' a) \<and> over D (snd (run_state m s)) (snd (run_state m' a)))"

named_theorems agree_rules \<open>programs that do the same over corresponding stores\<close>

lemma agreeD:
  assumes "agree D m m'" "over D s a" "run_state m' a = (x, a')"
  obtains s' where "run_state m s = (x, s')" "over D s' a'"
  using assms unfolding agree_def by (metis fst_conv prod.collapse snd_conv)

lemma over_sel:
  assumes "over D s a"
  shows "fs_mounted a = fs_mounted s" "fs_super a = fs_super s" "fs_bitmap a = fs_bitmap s" "fs_ibitmap a = fs_ibitmap s"
    "fs_hint a = fs_hint s" "fs_buf a = fs_buf s" "fs_oob a = fs_oob s"
proof -
  have a: "a = with_dev (fs_dev a) s" using assms by (simp add: over_def)
  show "fs_mounted a = fs_mounted s" "fs_super a = fs_super s" "fs_bitmap a = fs_bitmap s" "fs_ibitmap a = fs_ibitmap s"
    "fs_hint a = fs_hint s" "fs_buf a = fs_buf s" "fs_oob a = fs_oob s"
    by (subst a, simp add: with_dev_def)+
qed

lemma overI:
  assumes "D (fs_dev s) (fs_dev a)" "fs_mounted a = fs_mounted s" "fs_super a = fs_super s" "fs_bitmap a = fs_bitmap s"
    "fs_ibitmap a = fs_ibitmap s" "fs_hint a = fs_hint s" "fs_buf a = fs_buf s" "fs_oob a = fs_oob s"
  shows "over D s a"
  using assms by (simp add: over_def with_dev_def)

lemma over_dev: "over D s a \<Longrightarrow> D (fs_dev s) (fs_dev a)"
  by (simp add: over_def)

lemma agree_return [agree_rules]: "agree D (mret x) (mret x)"
  by (simp add: agree_def)

lemma agree_bind [agree_rules]:
  assumes "agree D m m'" "\<And>x. agree D (f x) (f' x)"
  shows "agree D (m \<bind> f) (m' \<bind> f')"
  using assms unfolding agree_def by (simp add: case_prod_beta)

lemma agree_if [agree_rules]: "(b \<Longrightarrow> agree D m m') \<Longrightarrow> (\<not> b \<Longrightarrow> agree D n n') \<Longrightarrow> agree D (if b then m else n) (if b then m' else n')"
  by simp

lemma agree_option [agree_rules]:
  "agree D m m' \<Longrightarrow> (\<And>x. agree D (f x) (f' x)) \<Longrightarrow>
   agree D (case r of None \<Rightarrow> m | Some x \<Rightarrow> f x) (case r of None \<Rightarrow> m' | Some x \<Rightarrow> f' x)"
  by (cases r) simp_all

lemma agree_prod [agree_rules]:
  "(\<And>x y. agree D (f x y) (f' x y)) \<Longrightarrow> agree D (case r of (x, y) \<Rightarrow> f x y) (case r of (x, y) \<Rightarrow> f' x y)"
  by (cases r) simp

lemma agree_let [agree_rules]: "agree D (f x) (f' x) \<Longrightarrow> agree D (Let x f) (Let x f')"
  by simp

lemma agree_asks:
  assumes "\<And>s a. over D s a \<Longrightarrow> f s = f' a"
  shows "agree D (asks f) (asks f')"
  using assms by (simp add: agree_def asks_def)

lemma agree_modify:
  assumes "\<And>s a. over D s a \<Longrightarrow> over D (f s) (f' a)"
  shows "agree D (modify f) (modify f')"
  using assms by (simp add: agree_def modify_def)

lemma agree_for_all [agree_rules]:
  assumes "\<And>i. agree D (f i) (f' i)"
  shows "agree D (for_all is f) (for_all is f')"
  by (induction "is") (auto intro!: agree_rules assms)

lemma agree_for_fold [agree_rules]:
  assumes "\<And>i x. agree D (f i x) (f' i x)"
  shows "agree D (for_fold is f x) (for_fold is f' x)"
  by (induction "is" arbitrary: x) (auto intro!: agree_rules assms)

lemma agree_for_first [agree_rules]:
  assumes "\<And>i. agree D (f i) (f' i)"
  shows "agree D (for_first is f) (for_first is f')"
  by (induction "is") (auto intro!: agree_rules assms)

lemma agree_field [agree_rules]:
  "agree D (asks fs_mounted) (asks fs_mounted)" "agree D (asks fs_super) (asks fs_super)"
  "agree D (asks fs_bitmap) (asks fs_bitmap)" "agree D (asks fs_ibitmap) (asks fs_ibitmap)"
  "agree D (asks bitmap_block_count) (asks bitmap_block_count)"
  "agree D (asks (\<lambda>s. fs_buf s k)) (asks (\<lambda>s. fs_buf s k))"
  "agree D (asks (\<lambda>s. g (fs_buf s k))) (asks (\<lambda>s. g (fs_buf s k)))"
  "agree D (asks (\<lambda>s. inode_block s ino)) (asks (\<lambda>s. inode_block s ino))"
  by (rule agree_asks, simp add: over_sel bitmap_block_count_def inode_block_def)+

lemma agree_edit [agree_rules]: "agree D (edit k f) (edit k f)"
  unfolding edit_def by (rule agree_modify) (rule overI, simp_all add: over_sel over_dev)

lemma agree_clear_buf [agree_rules]: "agree D (clear_buf k) (clear_buf k)"
  unfolding clear_buf_def by (rule agree_edit)

lemma agree_set_super [agree_rules]: "agree D (set_super f) (set_super f)"
  unfolding set_super_def by (rule agree_modify) (rule overI, simp_all add: over_sel over_dev)

lemma agree_set_ibitmap [agree_rules]:
  "agree D (modify (\<lambda>s. s\<lparr>fs_ibitmap := f (fs_ibitmap s)\<rparr>)) (modify (\<lambda>s. s\<lparr>fs_ibitmap := f (fs_ibitmap s)\<rparr>))"
  by (rule agree_modify) (rule overI, simp_all add: over_sel over_dev)

lemma agree_put_ibitmap [agree_rules]:
  "agree D (modify (\<lambda>s. s\<lparr>fs_ibitmap := x\<rparr>)) (modify (\<lambda>s. s\<lparr>fs_ibitmap := x\<rparr>))"
  by (rule agree_modify) (rule overI, simp_all add: over_sel over_dev)

lemma agree_get_ptr [agree_rules]: "agree D (get_ptr k i) (get_ptr k i)"
  unfolding agree_def get_ptr_def by (auto simp: over_sel over_dev intro!: overI)

lemma agree_set_ptr [agree_rules]: "agree D (set_ptr k i v) (set_ptr k i v)"
  unfolding set_ptr_def by (rule agree_modify) (auto simp: over_sel over_dev intro!: overI)

lemma agree_free_block [agree_rules]: "agree D (limnfs_free_block b) (limnfs_free_block b)"
  unfolding limnfs_free_block_def by (rule agree_modify) (auto simp: over_sel over_dev intro!: overI)

lemma agree_alloc_block [agree_rules]: "agree D limnfs_alloc_block limnfs_alloc_block"
  unfolding agree_def limnfs_alloc_block_def
  by (auto simp: over_sel over_dev Let_def split: option.splits intro!: overI)

section \<open>Stores\<close>

definition array_io :: "(nat \<Rightarrow> block) blkio" where
  "array_io = \<lparr>io_read = \<lambda>b A. (Inr (A (unat b)), A), io_write = \<lambda>b x A. (Inr (), A(unat b := x)),
     io_bulk = \<lambda>sector n A. (Inr (concat (map A [unat sector div 8..<(unat sector + unat n) div 8])), A)\<rparr>"

locale block_source =
  fixes io :: "'s blkio" and stands :: "'s \<Rightarrow> (nat \<Rightarrow> block) \<Rightarrow> bool"
  assumes read_law: "stands d A \<Longrightarrow> \<exists>d'. io_read io b d = (Inr (A (unat b)), d') \<and> stands d' A"
begin

lemma agree_read_block [agree_rules]: "agree stands (read_block io k b) (read_block array_io k b)"
  unfolding agree_def
proof (intro allI impI)
  fix s a
  assume o: "over stands s a"
  obtain d where d: "io_read io b (fs_dev s) = (Inr (fs_dev a (unat b)), d)" "stands d (fs_dev a)"
    using read_law [OF over_dev [OF o]] by blast
  then show "fst (run_state (read_block io k b) s) = fst (run_state (read_block array_io k b) a)
      \<and> over stands (snd (run_state (read_block io k b) s)) (snd (run_state (read_block array_io k b) a))"
    by (auto simp: read_block_def array_io_def over_sel [OF o] intro!: overI)
qed

lemma agree_get_file_block [agree_rules]: "agree stands (get_file_block io n lb) (get_file_block array_io n lb)"
  unfolding get_file_block_def Let_def by (intro agree_rules agree_read_block)

lemma agree_read_inode [agree_rules]: "agree stands (limnfs_read_inode io ino) (limnfs_read_inode array_io ino)"
  unfolding limnfs_read_inode_def by (intro agree_rules agree_read_block)

end

text \<open>A store that can be written as well.\<close>

locale block_store = block_source io stands
  for io :: "'s blkio" and stands :: "'s \<Rightarrow> (nat \<Rightarrow> block) \<Rightarrow> bool" +
  assumes write_law: "stands d A \<Longrightarrow> \<exists>d'. io_write io b x d = (Inr (), d') \<and> stands d' (A(unat b := x))"
begin

lemma agree_write_bytes [agree_rules]: "agree stands (write_bytes io b x) (write_bytes array_io b x)"
  unfolding agree_def
proof (intro allI impI)
  fix s a
  assume o: "over stands s a"
  obtain d where d: "io_write io b x (fs_dev s) = (Inr (), d)" "stands d ((fs_dev a)(unat b := x))"
    using write_law [OF over_dev [OF o]] by blast
  then show "fst (run_state (write_bytes io b x) s) = fst (run_state (write_bytes array_io b x) a)
      \<and> over stands (snd (run_state (write_bytes io b x) s)) (snd (run_state (write_bytes array_io b x) a))"
    by (auto simp: write_bytes_def array_io_def over_sel [OF o] intro!: overI)
qed

lemma agree_write_block [agree_rules]: "agree stands (write_block io k b) (write_block array_io k b)"
  unfolding write_block_def by (intro agree_rules agree_write_bytes)

lemmas store_rules = agree_rules agree_read_block agree_write_bytes agree_write_block agree_get_file_block agree_read_inode

lemma agree_flush_block_bitmap: "agree stands (flush_block_bitmap io) (flush_block_bitmap array_io)"
  unfolding flush_block_bitmap_def by (intro store_rules)

lemma agree_flush_inode_bitmap: "agree stands (flush_inode_bitmap io) (flush_inode_bitmap array_io)"
  unfolding flush_inode_bitmap_def by (intro store_rules)

lemma agree_flush_superblock: "agree stands (flush_superblock io) (flush_superblock array_io)"
  unfolding flush_superblock_def by (intro store_rules)

lemmas flush_rules = agree_flush_block_bitmap agree_flush_inode_bitmap agree_flush_superblock

lemma agree_sync: "agree stands (limnfs_sync io) (limnfs_sync array_io)"
  unfolding limnfs_sync_def by (intro store_rules flush_rules)

lemma agree_alloc_zeroed: "agree stands (alloc_zeroed io k) (alloc_zeroed array_io k)"
  unfolding alloc_zeroed_def by (intro store_rules)

lemma agree_descend: "agree stands (descend io k b i) (descend array_io k b i)"
  unfolding descend_def by (intro store_rules agree_alloc_zeroed)

lemma agree_enter_ptr: "agree stands (enter_ptr io k b i v) (enter_ptr array_io k b i v)"
  unfolding enter_ptr_def by (intro store_rules)

lemma agree_enter_block: "agree stands (enter_block io n lb b) (enter_block array_io n lb b)"
  unfolding enter_block_def enter_single_def enter_double_def enter_triple_def
  by (intro store_rules agree_alloc_zeroed agree_descend agree_enter_ptr)

lemma agree_alloc_file_block: "agree stands (alloc_file_block io n lb) (alloc_file_block array_io n lb)"
  unfolding alloc_file_block_def by (intro store_rules agree_alloc_zeroed agree_enter_block)

lemma agree_write_inode: "agree stands (limnfs_write_inode io ino n) (limnfs_write_inode array_io ino n)"
  unfolding limnfs_write_inode_def by (intro store_rules)

lemma agree_alloc_inode: "agree stands (limnfs_alloc_inode io) (limnfs_alloc_inode array_io)"
  unfolding limnfs_alloc_inode_def by (intro store_rules flush_rules)

lemma agree_free_level:
  assumes "agree stands body body'"
  shows "agree stands (free_level io k body b) (free_level array_io k body' b)"
  unfolding free_level_def by (intro store_rules assms)

lemma agree_free_nodes:
  assumes "\<And>p. agree stands (below p) (below' p)"
  shows "agree stands (free_nodes io k below b) (free_nodes array_io k below' b)"
  unfolding free_nodes_def by (intro store_rules assms)

lemma agree_free_inode: "agree stands (limnfs_free_inode io ino) (limnfs_free_inode array_io ino)"
  unfolding limnfs_free_inode_def free_triple_def free_double_def free_single_def free_leaves_def
  by (intro store_rules flush_rules agree_free_level agree_free_nodes agree_write_inode)

lemma agree_write_loop: "agree stands (write_loop io fuel n off buf w) (write_loop array_io fuel n off buf w)"
proof (induction fuel arbitrary: n w)
  case 0
  show ?case by (simp add: agree_return)
next
  case (Suc fuel)
  show ?case unfolding write_loop.simps by (intro store_rules agree_alloc_file_block Suc)
qed

lemma agree_write_data: "agree stands (limnfs_write_data io ino off buf) (limnfs_write_data array_io ino off buf)"
  unfolding limnfs_write_data_def by (intro store_rules agree_write_loop agree_write_inode)

end

text \<open>A source whose bulk transfer returns the blocks it stands for.\<close>

locale bulk_source = block_source io stands
  for io :: "'s blkio" and stands :: "'s \<Rightarrow> (nat \<Rightarrow> block) \<Rightarrow> bool" +
  assumes bulk_law: "stands d A \<Longrightarrow>
    \<exists>d'. io_bulk io sector n d = (Inr (concat (map A [unat sector div 8..<(unat sector + unat n) div 8])), d') \<and> stands d' A"
begin

lemma agree_read_bulk: "agree stands (read_bulk io sector n) (read_bulk array_io sector n)"
  unfolding agree_def
proof (intro allI impI)
  fix s a
  assume o: "over stands s a"
  obtain d where d: "io_bulk io sector n (fs_dev s) = (Inr (concat (map (fs_dev a) [unat sector div 8..<(unat sector + unat n) div 8])), d)"
    "stands d (fs_dev a)"
    using bulk_law [OF over_dev [OF o]] by blast
  then show "fst (run_state (read_bulk io sector n) s) = fst (run_state (read_bulk array_io sector n) a)
      \<and> over stands (snd (run_state (read_bulk io sector n) s)) (snd (run_state (read_bulk array_io sector n) a))"
    by (auto simp: read_bulk_def array_io_def over_sel [OF o] intro!: overI)
qed

lemmas source_rules = agree_rules agree_read_block agree_read_bulk agree_get_file_block agree_read_inode

lemma agree_bulk_loop: "agree stands (bulk_loop io fuel b len acc) (bulk_loop array_io fuel b len acc)"
proof (induction fuel arbitrary: b acc)
  case 0
  show ?case by (simp add: agree_return)
next
  case (Suc fuel)
  show ?case unfolding bulk_loop.simps by (intro source_rules Suc)
qed

lemma agree_run_length: "agree stands (run_length io n lb b fuel i) (run_length array_io n lb b fuel i)"
proof (induction fuel arbitrary: i)
  case 0
  show ?case by (simp add: agree_return)
next
  case (Suc fuel)
  show ?case unfolding run_length.simps by (intro source_rules Suc)
qed

lemma agree_read_loop: "agree stands (read_loop io fuel n off len acc) (read_loop array_io fuel n off len acc)"
proof (induction fuel arbitrary: acc)
  case 0
  show ?case by (simp add: agree_return)
next
  case (Suc fuel)
  show ?case unfolding read_loop.simps by (intro source_rules agree_run_length Suc)
qed

lemma agree_read_data: "agree stands (limnfs_read_data io ino off len) (limnfs_read_data array_io ino off len)"
  unfolding limnfs_read_data_def limnfs_read_data_sequential_def
  by (intro source_rules agree_bulk_loop agree_read_loop)

end

section \<open>The block cache is a store\<close>

text \<open>The operations of the cache as the file system calls them; a walk that does not end, which
never happens, would be an error.\<close>

definition cache_io :: "(block bcache \<times> block bdev) blkio" where
  "cache_io = \<lparr>io_read = \<lambda>b s. (case bcache_read b s of None \<Rightarrow> (Inl EGENERIC, s) | Some (r, s') \<Rightarrow> (r, s')),
     io_write = \<lambda>b x s. (case bcache_write b x s of None \<Rightarrow> (Inl EGENERIC, s) | Some (r, s') \<Rightarrow> (r, s')),
     io_bulk = \<lambda>sector n (c, v). (case dev_next v of
         (NoFault, v') \<Rightarrow> (Inr (concat (map (bd_disk v') [unat sector div 8..<(unat sector + unat n) div 8])), c, v')
       | (Fault _, v') \<Rightarrow> (Inl EGENERIC, c, v'))\<rparr>"

definition caches :: "block bcache \<times> block bdev \<Rightarrow> (nat \<Rightarrow> block) \<Rightarrow> bool" where
  "caches s A \<longleftrightarrow> (case s of (c, v) \<Rightarrow> \<exists>X. bc_ok X c \<and> sync X c v A)"

definition caches_clean :: "block bcache \<times> block bdev \<Rightarrow> (nat \<Rightarrow> block) \<Rightarrow> bool" where
  "caches_clean s A \<longleftrightarrow> caches s A \<and> bd_disk (snd s) = A"

interpretation cs: block_store cache_io caches
proof
  fix d A b x
  assume "caches d A"
  then obtain c v X where d: "d = (c, v)" "bc_ok X c" "sync X c v A" by (auto simp: caches_def)
  show "\<exists>d'. io_read cache_io b d = (Inr (A (unat b)), d') \<and> caches d' A"
    using read_spec [OF d(2), of b v A] d(1,3) by (auto simp: cache_io_def caches_def)
  show "\<exists>d'. io_write cache_io b x d = (Inr (), d') \<and> caches d' (A(unat b := x))"
    using write_spec [OF d(2), of b x v A] d(1,3) by (auto simp: cache_io_def caches_def)
qed

text \<open>Reading keeps a disk that agrees with the array as it is: what an eviction writes back is already there.\<close>

lemma read_keeps_disk:
  assumes ok: "bc_ok X c" and sy: "sync X c v (bd_disk v)" and r: "bcache_read b (c, v) = Some (r, c', v')"
  shows "bd_disk v' = bd_disk v"
proof -
  obtain H where H: "hinv X (bc_ent c) (bc_hash c) H" using ok by (auto simp: bc_ok_def)
  from H show ?thesis
  proof (cases rule: hash_find_cases [of X c H b])
    case (hit i)
    then show ?thesis using r by (auto simp: bcache_read_def Let_def)
  next
    case miss
    let ?c = "c\<lparr>bc_misses := bc_misses c + 1\<rparr>"
    have ok': "bc_ok X ?c" using ok by (auto simp: bc_ok_def range_ok_def)
    have m: "\<And>j. j \<notin> X \<Longrightarrow> \<not> holds (bc_ent ?c) b j" using miss(2) by simp
    obtain i c2 v2 where e: "bc_tail ?c = int i" "i < length (bc_ent ?c)" "evict (int i) (?c, v) = Some (c2, v2)"
      "bd_script v = [] \<Longrightarrow> bd_script v2 = [] \<and> bd_disk v2 = wb_disk (bc_ent ?c ! i) (bd_disk v)"
      by (rule miss_evict [OF ok', of b v]) (use m in blast, rule that)
    have "bd_script v2 = []" "bd_disk v2 = bd_disk v"
      using e(2,4) sy by (auto simp: sync_def rep_def wb_disk_def)
    then show ?thesis using r miss(1) e(1,3) by (auto simp: bcache_read_def Let_def dev_read_def dev_next_def)
  qed
qed

lemma clean_read:
  assumes "caches_clean d A"
  shows "\<exists>d'. io_read cache_io b d = (Inr (A (unat b)), d') \<and> caches_clean d' A"
proof -
  obtain c v X where d: "d = (c, v)" "bc_ok X c" "sync X c v A" "bd_disk v = A"
    using assms unfolding caches_clean_def caches_def by (cases d) auto
  obtain r c' v' X' where r: "bcache_read b (c, v) = Some (r, c', v')" "bc_ok X' c'" "r = Inr (A (unat b))" "sync X' c' v' A"
    using read_spec [OF d(2), of b v A] d(3) by blast
  have "bd_disk v' = A" using read_keeps_disk [OF d(2) _ r(1)] d(3,4) by simp
  then have "caches_clean (c', v') A" unfolding caches_clean_def caches_def using r(2,4) by auto
  moreover have "io_read cache_io b d = (Inr (A (unat b)), (c', v'))" using r(1,3) d(1) by (simp add: cache_io_def)
  ultimately show ?thesis by blast
qed

lemma clean_bulk:
  assumes "caches_clean d A"
  shows "io_bulk cache_io sector n d = (Inr (concat (map A [unat sector div 8..<(unat sector + unat n) div 8])), d)"
proof -
  obtain c v X where d: "d = (c, v)" "sync X c v A" "bd_disk v = A"
    using assms unfolding caches_clean_def caches_def by (cases d) auto
  have "dev_next v = (NoFault, v)" using d(2) by (simp add: sync_def dev_next_def)
  then show ?thesis using d(1,3) by (simp add: cache_io_def)
qed

interpretation cc: bulk_source cache_io caches_clean
  by unfold_locales (rule clean_read, assumption, blast intro: clean_bulk)

end
