(* ===== verification/Spec2Isabelle.thy ===== *)
theory Spec2Isabelle
  imports Sys_Mm_Prot Agent_Ns Pub_Sub Supervisor Handles Unix_Sock Vmm_Clone Bcache_Refine Kheap Infer_Cache Limnfs_Store
begin

text \<open>
  A verification development for the Limnx kernel (\<^verbatim>\<open>src/kernel/src\<close>), an operating system for
  x86_64 and ARM64 with kernel objects for cooperating agents. The models translate the C code; the
  C names are kept wherever HOL allows it.

  \<^bold>\<open>The program.\<close> Memory management is a stack: the page allocator hands out frames, the page tables map
  them, the kernel heap and the memory system calls use both, and the swap area moves pages to the disk
  through the block cache. Beside it stand fixed tables of kernel objects behind spinlocks: capability
  tokens, agents with mailboxes, namespaces with quotas, topics, tasks, supervisors, event counters,
  epoll sets, submission rings, local sockets and inference services. System calls authorise operations
  on these objects through tokens and namespaces.

  \<^bold>\<open>Conventions.\<close> A critical section under a spinlock is one definition; where the code leaves the lock
  in the middle of an operation the sections are separate definitions, so that other operations can come
  between them. Machine integers are words of their width and wrap. An error is \<open>Inl\<close> of an \<open>errno\<close>,
  a literal -1 is \<open>EGENERIC\<close>. A C string is a character list with its terminator and whatever lies
  behind it. An access outside an array, or a walk along a list that does not end, is the value None of
  the operation, and the theorems show that it does not happen. A blocking loop takes the steps of the
  other threads as an argument. The process table, loading a program, the contents of a file and the
  tick counter are parameters.

  \<^bold>\<open>Shared theories.\<close> Prelude: error codes, C strings, first-match scans (\<^verbatim>\<open>errno.h\<close>, \<^verbatim>\<open>kutil.h\<close>).
  Slot_Table: the locales slot_table, keyed_table and handle_table for fixed arrays with a used flag.
  Ring_Buffer: the locale ring_buffer for bounded queues. Bitmap: the locale bit_table for byte-array
  bitmaps. Each locale is interpreted in the theories of the tables, queues and bitmaps of the kernel, and
  their lemmas come from these interpretations.

  \<^bold>\<open>Kernel objects\<close> (\<^verbatim>\<open>ipc/\<close>).
  \<^item> Cap_Token (\<^verbatim>\<open>cap_token.c\<close>): revocation removes exactly the token and everything delegated from it,
    also over several levels; a delegated token never exceeds the permissions, resource and depth of its
    ancestors; a created token passes the check it was created for; the clean-up of a process leaves
    exactly the rights of the others.
  \<^item> Task_Graph (\<^verbatim>\<open>taskgraph.c\<close>): a task starts exactly if it is pending and its dependencies are done;
    the table invariant; tasks on a dependency cycle never start; who may add a dependency.
  \<^item> Agent_Reg (\<^verbatim>\<open>agent_reg.c\<close>): registry and mailboxes refine a map of names and queues of messages;
    a token travels with a message only if the sender may delegate it.
  \<^item> Agent_Ns (\<^verbatim>\<open>agent_ns.c\<close>): the charged amount never exceeds the quota.
  \<^item> Pub_Sub (\<^verbatim>\<open>pubsub.c\<close>): a subscriber receives exactly the last four messages, in order.
  \<^item> Supervisor (\<^verbatim>\<open>supervisor.c\<close>): the restarts in a window are bounded; the one-for-all policy.
  \<^item> Handles (\<^verbatim>\<open>eventfd.c\<close>, \<^verbatim>\<open>epoll.c\<close>, \<^verbatim>\<open>uring.c\<close>): an event counter conserves what is written, a
    blocking read returns, an epoll set is a map from descriptors to interests.
  \<^item> Unix_Sock (\<^verbatim>\<open>unix_sock.c\<close>): peers point at each other; a connection is a byte stream.
  \<^item> Infer_Route, Infer_Cache (\<^verbatim>\<open>infer_svc.c\<close>): routing finds a live provider and is fair over a period;
    the result cache with its list of indices is a plain list of at most 32 results by recency.

  \<^bold>\<open>Memory\<close> (\<^verbatim>\<open>mm/\<close>, \<^verbatim>\<open>syscall/sys_mm.c\<close>, x86_64).
  \<^item> Pmm (\<^verbatim>\<open>pmm.c\<close>): the boot set-up and every operation keep bitmap, counter and reference counts
    consistent; an allocated page is not handed out again before its last reference is dropped.
  \<^item> Vmm, User_Pages, Vmm_Clone (\<^verbatim>\<open>vmm.c\<close>): page tables in memory refine a map from addresses to
    entries; the copy of fork isolates parent and child, and loses swapped-out pages.
  \<^item> Kheap (\<^verbatim>\<open>kheap.c\<close>): areas in use are aligned, inside the heap and disjoint; krealloc keeps the
    contents. The bound \<open>request_max\<close> on a request keeps the 64-bit end-of-heap check from wrapping; two
    lemmas show what happens beyond it.
  \<^item> Swap_Slots, Swap_Io (\<^verbatim>\<open>swap.c\<close>): swapping a page out and in restores it.
  \<^item> Sys_Mm, Sys_Mm_Map, Sys_Mm_Prot (\<^verbatim>\<open>sys_mm.c\<close>, \<^verbatim>\<open>shm.c\<close>): a mapping gets fresh zeroed pages; the
    regions of a process do not overlap; a copy-on-write fault makes a private copy; mprotect changes
    exactly its range.

  \<^bold>\<open>Storage\<close> (\<^verbatim>\<open>blk/\<close>).
  \<^item> Bcache, Bcache_Refine (\<^verbatim>\<open>bcache.c\<close>): over a device without faults the cache cannot be told from the
    array of blocks; it returns whatever the device does.
  \<^item> Limnfs (\<^verbatim>\<open>limnfs.c\<close>): the layout on the disk, bitmaps, inodes, block pointers and file data.

  \<^bold>\<open>Fuel.\<close> The walks of Bcache and Kheap are partial functions and need none. The data loops of Limnfs take
  the number of bytes (of blocks for the bulk loop) as fuel; every round moves at least one byte (block).

  \<^bold>\<open>Not modelled.\<close> Device drivers, assembly, interrupt handling, start-up of processors and boot: they are
  register input and output. The ARM64 branches of the page allocator and the page tables. The TLB. The
  scheduler, processes and program loading: their effect is on registers and stacks; components that ask
  for a process take the table as a parameter. The virtual file system, terminals, pipes, the network
  stack and the remaining system calls, which wrap the modelled operations. Queueing, batching and
  asynchronous requests of the inference service. Directories, truncation, formatting and mounting of the
  file system. User programs, libraries and tools.
\<close>

end
